(* ===== verification/Prelude.thy ===== *)
theory Prelude
  imports Main "HOL-Library.Word" "HOL-Library.Monad_Syntax"
begin

text \<open>
  Shared vocabulary of the development: the machine integers of the source, the
  collections of rewrite rules the component proofs are carried by, and the
  generic facts on words, lists and options that more than one component needs.

  The kernel and the bootloader are built in release mode, where the integer
  operators of the language wrap around; \<open>+\<close>, \<open>-\<close> and \<open>*\<close> on words are therefore
  the operators of the source. Conversions \<open>as\<close> between integer types are
  \<open>ucast\<close>.
\<close>

unbundle bit_operations_syntax

type_synonym u8 = "8 word"
type_synonym u16 = "16 word"
type_synonym u32 = "32 word"
type_synonym u64 = "64 word"
type_synonym u128 = "128 word"

text \<open>A fallible operation returns a sum: \<open>Inl\<close> the error, \<open>Inr\<close> the value. A
  panic (a failed assertion, \<open>unwrap\<close> or \<open>expect\<close>, an index out of range) and
  the dereference of an address that holds no object are \<open>None\<close>.\<close>

type_synonym ('e, 'a) result = "'e + 'a"

named_theorems bit_simps "pointwise reading of bit operations on words"

lemmas [bit_simps] =
  bit_and_iff bit_or_iff bit_xor_iff bit_not_iff_eq bit_push_bit_iff
  bit_drop_bit_eq bit_take_bit_iff bit_mask_iff bit_unsigned_iff

subsection \<open>Words\<close>

text \<open>A shift by a variable amount in a release build masks the amount to the
  width of the shifted operand.\<close>

definition wrapping_shl :: "'a::len word \<Rightarrow> nat \<Rightarrow> 'a word" where
  "wrapping_shl x n = push_bit (n mod LENGTH('a)) x"

definition wrapping_shr :: "'a::len word \<Rightarrow> nat \<Rightarrow> 'a word" where
  "wrapping_shr x n = drop_bit (n mod LENGTH('a)) x"

lemma wrapping_shl_less [simp]:
  "n < LENGTH('a) \<Longrightarrow> wrapping_shl (x::'a::len word) n = push_bit n x"
  by (simp add: wrapping_shl_def)

lemma wrapping_shr_less [simp]:
  "n < LENGTH('a) \<Longrightarrow> wrapping_shr (x::'a::len word) n = drop_bit n x"
  by (simp add: wrapping_shr_def)

lemma word_bits_eqI:
  fixes x y :: "'a::len word"
  assumes "\<And>n. n < LENGTH('a) \<Longrightarrow> bit x n \<longleftrightarrow> bit y n"
  shows "x = y"
  by (rule bit_word_eqI) (rule assms)

lemma unat_eqI: "unat x = unat y \<Longrightarrow> x = y"
  by (simp add: word_unat_eq_iff)

lemma bit_two_pow_word:
  "bit ((2::'a::len word) ^ k) n \<longleftrightarrow> n = k \<and> n < LENGTH('a)"
  by (auto simp: bit_exp_iff)

lemma unat_take_bit: "unat (take_bit k (x::'a::len word)) = unat x mod 2 ^ k"
  using unsigned_take_bit_eq [of k x] by (simp add: take_bit_eq_mod)

lemma unat_drop_bit: "unat (drop_bit k (x::'a::len word)) = unat x div 2 ^ k"
  using drop_bit_eq_div [of k "unat x"]
  by (simp add: unsigned_drop_bit_eq take_bit_nat_eq_self)

lemma unat_and_not_mask: "unat ((x::'a::len word) AND NOT (mask k)) = unat x div 2 ^ k * 2 ^ k"
proof -
  have "unat (x AND NOT (mask k)) = push_bit k (drop_bit k (unat x))"
    by (rule bit_eqI) (auto simp: bit_simps bit_mask_iff dest: bit_imp_le_length)
  then show ?thesis by (simp add: push_bit_eq_mult drop_bit_eq_div)
qed

lemma unat_ucast_mod:
  "unat (ucast (x::'a::len word) :: 'b::len word) = unat x mod 2 ^ LENGTH('b)"
  by (simp add: unsigned_ucast_eq take_bit_eq_mod)

lemma unat_less: "unat (x::'a::len word) < 2 ^ LENGTH('a)"
  by (rule unsigned_less)

lemma and_mask_dvd_iff:
  "(x::'a::len word) AND mask k = 0 \<longleftrightarrow> 2 ^ k dvd unat x"
proof -
  have "x AND mask k = 0 \<longleftrightarrow> unat (take_bit k x) = 0"
    by (simp add: unat_eq_0 flip: take_bit_eq_mask)
  then show ?thesis
    by (simp only: unat_take_bit dvd_eq_mod_eq_0)
qed

lemma unat_two_pow:
  assumes "k < LENGTH('a)"
  shows "unat ((2::'a::len word) ^ k) = 2 ^ k"
proof -
  have "unat (word_of_nat (2 ^ k) :: 'a word) = 2 ^ k"
    using assms by (simp only: unat_of_nat mod_less power_strict_increasing)
  then show ?thesis by (simp only: of_nat_power of_nat_numeral)
qed

lemma mod_eq_self_iff_nat: "(n::nat) mod 2 ^ k = n \<longleftrightarrow> n < 2 ^ k"
  using mod_less_divisor [of "2 ^ k" n] by (auto simp del: mod_less_divisor)

lemma take_bit_id_iff:
  assumes "k < LENGTH('a)"
  shows "take_bit k (x::'a::len word) = x \<longleftrightarrow> x < 2 ^ k"
proof -
  have "take_bit k x = x \<longleftrightarrow> unat x mod 2 ^ k = unat x"
    by (metis unat_take_bit unsigned_word_eqI)
  also have "\<dots> \<longleftrightarrow> unat x < 2 ^ k"
    by (rule mod_eq_self_iff_nat)
  finally show ?thesis using assms by (simp only: word_less_nat_alt unat_two_pow)
qed

lemma less_two_pow_iff_bits:
  assumes "k < LENGTH('a)"
  shows "(x::'a::len word) < 2 ^ k \<longleftrightarrow> (\<forall>i. k \<le> i \<longrightarrow> \<not> bit x i)"
proof
  assume "x < 2 ^ k"
  then have "take_bit k x = x" using assms by (simp add: take_bit_id_iff)
  then show "\<forall>i. k \<le> i \<longrightarrow> \<not> bit x i" by (metis bit_take_bit_iff not_le)
next
  assume "\<forall>i. k \<le> i \<longrightarrow> \<not> bit x i"
  then have "take_bit k x = x"
    by (intro word_bits_eqI) (meson bit_take_bit_iff not_le)
  then show "x < 2 ^ k" using assms by (simp add: take_bit_id_iff)
qed

lemma xor_two_pow_clear:
  fixes x :: "'a::len word"
  assumes "\<not> bit x k"
  shows "x XOR 2 ^ k = x + 2 ^ k"
proof -
  have "x AND 2 ^ k = 0"
    using assms by (intro word_bits_eqI) (auto simp: bit_and_iff bit_two_pow_word)
  moreover have "x OR 2 ^ k = x XOR 2 ^ k"
    using assms by (intro word_bits_eqI) (auto simp: bit_or_iff bit_xor_iff bit_two_pow_word)
  ultimately show ?thesis
    using word_plus_and_or [of x "2 ^ k"] by simp
qed

lemma xor_two_pow_set:
  fixes x :: "'a::len word"
  assumes "bit x k"
  shows "x XOR 2 ^ k = x - 2 ^ k"
proof -
  have "\<not> bit (x XOR 2 ^ k) k"
    using assms by (auto simp: bit_xor_iff bit_two_pow_word dest: bit_imp_le_length)
  then have "(x XOR 2 ^ k) + 2 ^ k = (x XOR 2 ^ k) XOR 2 ^ k"
    by (rule xor_two_pow_clear [symmetric])
  also have "\<dots> = x"
    by (simp only: xor.assoc xor_self_eq xor.right_neutral)
  finally show ?thesis by (simp only: eq_diff_eq)
qed

end
