(* ===== verification/Addr.thy ===== *)
theory Addr
  imports Prelude
begin

text \<open>
  Addresses and integer helpers: \<open>src/mem/mod.rs\<close> (the alignments, the three
  address types and the trait \<open>MemoryAddress\<close>), \<open>src/mem/utils.rs\<close> (the traits
  \<open>Convertible\<close> and \<open>BitIndex\<close>) and the linear physical memory mapping of
  \<open>src/x86/paging/page_table/mapper.rs\<close>.

  A trait with associated constants becomes a definition that takes the
  constants as arguments, and one definition per implementation that supplies
  them. The default method \<open>MemoryAddress::is_aligned_with\<close> is proved once in the
  locale \<open>memory_address\<close>, which is interpreted for each of the three
  implementations of the trait.
\<close>

subsection \<open>Conversions by masking and bit slices\<close>

definition convert_with_mask :: "'a::len word \<Rightarrow> 'a word \<Rightarrow> 'b::len word option" where
  "convert_with_mask x m =
    (if unat (x AND m) < 2 ^ LENGTH('b) then Some (ucast (x AND m)) else None)"

definition high_bits :: "nat \<Rightarrow> 'a::len word \<Rightarrow> 'a word \<Rightarrow> 'b::len word option" where
  "high_bits size_diff low_bits_mask x =
    convert_with_mask (wrapping_shr x size_diff) low_bits_mask"

definition low_bits :: "'a::len word \<Rightarrow> 'a word \<Rightarrow> 'b::len word option" where
  "low_bits low_bits_mask x = convert_with_mask x low_bits_mask"

definition u128_high_u64 :: "u128 \<Rightarrow> u64 option" where
  "u128_high_u64 = high_bits 64 0xFFFFFFFFFFFFFFFF"
definition u128_low_u64 :: "u128 \<Rightarrow> u64 option" where
  "u128_low_u64 = low_bits 0xFFFFFFFFFFFFFFFF"
definition u64_high_u32 :: "u64 \<Rightarrow> u32 option" where
  "u64_high_u32 = high_bits 32 0xFFFFFFFF"
definition u64_low_u32 :: "u64 \<Rightarrow> u32 option" where
  "u64_low_u32 = low_bits 0xFFFFFFFF"
definition u32_high_u16 :: "u32 \<Rightarrow> u16 option" where
  "u32_high_u16 = high_bits 16 0xFFFF"
definition u32_low_u16 :: "u32 \<Rightarrow> u16 option" where
  "u32_low_u16 = low_bits 0xFFFF"
definition u16_high_u8 :: "u16 \<Rightarrow> u8 option" where
  "u16_high_u8 = high_bits 8 0xFF"
definition u16_low_u8 :: "u16 \<Rightarrow> u8 option" where
  "u16_low_u8 = low_bits 0xFF"

definition get_bit :: "'a::len word \<Rightarrow> 'a word \<Rightarrow> 'a word" where
  "get_bit x index = wrapping_shr (x AND wrapping_shl 1 (unat index)) (unat index)"

definition get_bit_slice :: "'a::len word \<Rightarrow> 'a word \<Rightarrow> 'a word \<Rightarrow> 'a word" where
  "get_bit_slice x first_bit last_bit =
    wrapping_shr x (unat first_bit) AND
    (wrapping_shl 1 (unat (1 + last_bit - first_bit)) - 1)"

lemma ucast_low: "x AND mask LENGTH('b) = ucast (ucast (x::'a::len word) :: 'b::len word)"
  if "LENGTH('b) \<le> LENGTH('a)"
  using that by (intro word_bits_eqI) (auto simp: bit_simps dest: bit_imp_le_length)

lemma convert_with_mask_low:
  assumes "LENGTH('b) \<le> LENGTH('a)"
  shows "convert_with_mask (x::'a::len word) (mask LENGTH('b)) = Some (ucast x :: 'b::len word)"
proof -
  have "unat (x AND mask LENGTH('b)) < 2 ^ LENGTH('b)"
    by (simp add: unat_take_bit flip: take_bit_eq_mask)
  moreover have "(ucast (x AND mask LENGTH('b)) :: 'b word) = ucast x"
    by (intro word_bits_eqI) (auto simp: bit_simps dest: bit_imp_le_length)
  ultimately show ?thesis by (simp add: convert_with_mask_def)
qed

text \<open>Splitting into halves with a mask of the low half never panics, and the
  halves glue back together.\<close>

lemma high_low_halves:
  assumes "LENGTH('a) = 2 * LENGTH('b)" and m: "m = mask LENGTH('b)"
  shows "\<exists>h l. high_bits LENGTH('b) m (x::'a::len word) = Some (h :: 'b::len word) \<and>
      low_bits m x = Some (l :: 'b word) \<and> push_bit LENGTH('b) (ucast h) OR ucast l = x"
proof -
  have "push_bit LENGTH('b) (ucast (ucast (drop_bit LENGTH('b) x) :: 'b word))
      OR ucast (ucast x :: 'b word) = x"
    using assms by (intro word_bits_eqI) (auto simp: bit_simps dest: bit_imp_le_length)
  then show ?thesis
    using assms by (simp add: high_bits_def low_bits_def convert_with_mask_low)
qed

lemma push_bit_one_minus_one:
  "n < LENGTH('a) \<Longrightarrow> push_bit n (1::'a::len word) - 1 = mask n"
  by (simp add: mask_eq_decr_exp)

lemma unat_succ_diff:
  fixes f l :: "'a::len word"
  assumes "f \<le> l" and "unat l < LENGTH('a)"
  shows "unat (1 + l - f) = unat l - unat f + 1"
proof -
  have le: "unat f \<le> unat l" using assms(1) by (simp add: word_le_nat_alt)
  have "LENGTH('a) < 2 ^ LENGTH('a)" by (rule less_exp)
  then have "unat l - unat f + 1 < 2 ^ LENGTH('a)" using assms(2) by linarith
  then have "unat (word_of_nat (unat l - unat f + 1) :: 'a word) = unat l - unat f + 1"
    by (simp only: unat_of_nat mod_less)
  moreover have "(word_of_nat (unat l - unat f + 1) :: 'a word) = 1 + l - f"
    using le by (simp add: of_nat_diff algebra_simps)
  ultimately show ?thesis by (simp only:)
qed

lemma get_bit_slice_value:
  fixes x f l :: "'a::len word"
  assumes "f \<le> l" and "unat l < LENGTH('a)" and "unat l - unat f + 1 < LENGTH('a)"
  shows "unat (get_bit_slice x f l) = unat x div 2 ^ unat f mod 2 ^ (unat l - unat f + 1)"
proof -
  have f: "unat f < LENGTH('a)" using assms(1,2) by (simp add: word_le_nat_alt)
  have "get_bit_slice x f l = take_bit (unat l - unat f + 1) (drop_bit (unat f) x)"
    unfolding get_bit_slice_def unat_succ_diff [OF assms(1,2)]
    by (simp only: wrapping_shl_less [OF assms(3)] wrapping_shr_less [OF f]
        push_bit_one_minus_one [OF assms(3)] take_bit_eq_mask)
  then show ?thesis by (simp only: unat_take_bit unat_drop_bit)
qed

lemma get_bit_slice_full:
  fixes x f l :: "'a::len word"
  assumes "f \<le> l" and "unat l < LENGTH('a)" and "unat l - unat f + 1 = LENGTH('a)"
  shows "get_bit_slice x f l = 0"
  unfolding get_bit_slice_def unat_succ_diff [OF assms(1,2)] assms(3) wrapping_shl_def
  by simp

lemma get_bit_value:
  fixes x i :: "'a::len word"
  assumes "unat i < LENGTH('a)"
  shows "get_bit x i = of_bool (bit x (unat i))"
  using assms
  by (intro word_bits_eqI)
     (auto simp: get_bit_def bit_simps bit_1_iff bit_two_pow_word split: if_splits)

subsection \<open>Alignments and addresses\<close>

datatype memory_error = InvalidAlignment | NullPointer

datatype alignment = Alignment (alignment_raw: u64)

definition ALIGN_4KB :: alignment where
  "ALIGN_4KB = Alignment (push_bit 12 1)"

definition alignment_to_u32 :: "alignment \<Rightarrow> (memory_error, u32) result" where
  "alignment_to_u32 a =
    (if alignment_raw a < 0x100000000 then Inr (ucast (alignment_raw a))
     else Inl InvalidAlignment)"

definition alignment_to_u64 :: "alignment \<Rightarrow> (memory_error, u64) result" where
  "alignment_to_u64 a = Inr (alignment_raw a)"

definition alignment_from_u32 :: "u32 \<Rightarrow> alignment" where
  "alignment_from_u32 v = Alignment (ucast v)"

datatype virt_addr = VirtAddr (virt_raw: u64)

definition sg_extd :: "u64 \<Rightarrow> u64" where
  "sg_extd addr = drop_bit 47 (addr AND push_bit 47 1)"

definition virt_new :: "u64 \<Rightarrow> virt_addr" where
  "virt_new addr = VirtAddr (addr OR sg_extd addr * push_bit 48 0xFFFF)"

definition virt_is_aligned_with :: "virt_addr \<Rightarrow> alignment \<Rightarrow> bool option" where
  "virt_is_aligned_with a al =
    (if alignment_raw al = 0 then None else Some (virt_raw a mod alignment_raw al = 0))"

definition virt_add_u64 :: "virt_addr \<Rightarrow> u64 \<Rightarrow> virt_addr" where
  "virt_add_u64 a rhs = virt_new (virt_raw a + rhs)"

definition virt_sub_u64 :: "virt_addr \<Rightarrow> u64 \<Rightarrow> virt_addr" where
  "virt_sub_u64 a rhs = virt_new (virt_raw a - rhs)"

definition virt_add :: "virt_addr \<Rightarrow> virt_addr \<Rightarrow> virt_addr" where
  "virt_add a b = virt_new (virt_raw a + virt_raw b)"

definition u64_from_virt :: "virt_addr \<Rightarrow> u64" where
  "u64_from_virt a = (virt_raw a OR sg_extd (virt_raw a) * push_bit 48 0xFFFF)"

datatype phy_addr = PhyAddr (phy_raw: u64)

definition phy_new :: "u64 \<Rightarrow> phy_addr" where
  "phy_new addr = PhyAddr (addr mod push_bit 52 1)"

definition phy_add_u64 :: "phy_addr \<Rightarrow> u64 \<Rightarrow> phy_addr" where
  "phy_add_u64 a rhs = PhyAddr (phy_raw a + rhs)"

definition phy_add :: "phy_addr \<Rightarrow> phy_addr \<Rightarrow> phy_addr" where
  "phy_add a b = PhyAddr (phy_raw a + phy_raw b)"

datatype phy_addr32 = PhyAddr32 (phy32_raw: u32)

definition saturating_add_u32 :: "u32 \<Rightarrow> u32 \<Rightarrow> u32" where
  "saturating_add_u32 a b = (if unat a + unat b < 2 ^ 32 then a + b else 0xFFFFFFFF)"

definition phy32_add_u32 :: "phy_addr32 \<Rightarrow> u32 \<Rightarrow> phy_addr32" where
  "phy32_add_u32 a rhs = PhyAddr32 (saturating_add_u32 (phy32_raw a) rhs)"

definition phy32_add_assign :: "phy_addr32 \<Rightarrow> u32 \<Rightarrow> phy_addr32" where
  "phy32_add_assign a rhs = PhyAddr32 (phy32_raw a + rhs)"

definition phy32_add_usize :: "phy_addr32 \<Rightarrow> u64 \<Rightarrow> phy_addr32 option" where
  "phy32_add_usize a rhs =
    (if rhs < 0x100000000 then Some (PhyAddr32 (saturating_add_u32 (phy32_raw a) (ucast rhs)))
     else None)"

definition phy_from_phy32 :: "phy_addr32 \<Rightarrow> phy_addr" where
  "phy_from_phy32 a = phy_new (ucast (phy32_raw a))"

subsection \<open>The trait MemoryAddress\<close>

text \<open>The default method \<open>is_aligned_with\<close>, over the operations an implementation
  supplies: the conversions from and to the primitive type, the conversion of
  an alignment to the primitive type, and \<open>is_null\<close>. The remainder by zero
  panics.\<close>

definition addr_is_aligned_with ::
  "('a \<Rightarrow> 'w::len word) \<Rightarrow> ('w word \<Rightarrow> 'a) \<Rightarrow>
   (alignment \<Rightarrow> (memory_error, 'w word) result) \<Rightarrow> ('a \<Rightarrow> bool) \<Rightarrow>
   'a \<Rightarrow> alignment \<Rightarrow> (memory_error, bool) result option" where
  "addr_is_aligned_with to_prim from_prim try_align is_null a al =
    (case try_align al of
       Inl e \<Rightarrow> Some (Inl e)
     | Inr m \<Rightarrow>
         if m = 0 then None
         else Some (Inr (is_null (from_prim (to_prim a mod m)))))"

definition as_nonnull_ptr :: "('a \<Rightarrow> u64) \<Rightarrow> 'a \<Rightarrow> (memory_error, u64) result" where
  "as_nonnull_ptr as_mut_ptr a =
    (if as_mut_ptr a = 0 then Inl NullPointer else Inr (as_mut_ptr a))"

definition phy_is_null :: "phy_addr \<Rightarrow> bool" where
  "phy_is_null a = (phy_raw a = 0)"
definition phy32_is_null :: "phy_addr32 \<Rightarrow> bool" where
  "phy32_is_null a = (phy32_raw a = 0)"
definition virt_is_null :: "virt_addr \<Rightarrow> bool" where
  "virt_is_null a = (virt_raw a = 0)"

definition phy_is_aligned_with :: "phy_addr \<Rightarrow> alignment \<Rightarrow> (memory_error, bool) result option" where
  "phy_is_aligned_with = addr_is_aligned_with phy_raw phy_new alignment_to_u64 phy_is_null"
definition phy32_is_aligned_with :: "phy_addr32 \<Rightarrow> alignment \<Rightarrow> (memory_error, bool) result option" where
  "phy32_is_aligned_with =
    addr_is_aligned_with phy32_raw PhyAddr32 alignment_to_u32 phy32_is_null"
definition virt_mem_is_aligned_with :: "virt_addr \<Rightarrow> alignment \<Rightarrow> (memory_error, bool) result option" where
  "virt_mem_is_aligned_with =
    addr_is_aligned_with u64_from_virt virt_new alignment_to_u64 virt_is_null"

text \<open>What an implementation of the trait owes the default method: on the
  addresses it calls valid, a primitive value not above the address becomes a
  null address only if it is zero, and an alignment that fits the primitive
  type is converted to itself while the others are refused.\<close>

locale memory_address =
  fixes to_prim :: "'a \<Rightarrow> 'w::len word"
    and from_prim :: "'w word \<Rightarrow> 'a"
    and try_align :: "alignment \<Rightarrow> (memory_error, 'w word) result"
    and is_null :: "'a \<Rightarrow> bool"
    and valid :: "'a \<Rightarrow> bool"
  assumes null_from_prim: "valid a \<Longrightarrow> x \<le> to_prim a \<Longrightarrow> is_null (from_prim x) \<longleftrightarrow> x = 0"
    and try_align_fits: "unat (alignment_raw al) < 2 ^ LENGTH('w) \<Longrightarrow>
      \<exists>m. try_align al = Inr m \<and> unat m = unat (alignment_raw al)"
    and try_align_big: "2 ^ LENGTH('w) \<le> unat (alignment_raw al) \<Longrightarrow>
      try_align al = Inl InvalidAlignment"
begin

lemma aligned_iff_dvd:
  assumes "valid a" and "alignment_raw al \<noteq> 0" and "unat (alignment_raw al) < 2 ^ LENGTH('w)"
  shows "addr_is_aligned_with to_prim from_prim try_align is_null a al =
    Some (Inr (unat (alignment_raw al) dvd unat (to_prim a)))"
proof -
  obtain m where m: "try_align al = Inr m" "unat m = unat (alignment_raw al)"
    using try_align_fits assms(3) by blast
  have "m \<noteq> 0" using m(2) assms(2) by (metis unat_eq_0)
  moreover have "to_prim a mod m \<le> to_prim a"
    by (simp add: word_le_nat_alt unat_mod)
  moreover have "to_prim a mod m = 0 \<longleftrightarrow> unat m dvd unat (to_prim a)"
    by (simp add: dvd_eq_mod_eq_0 flip: unat_eq_0 unat_mod)
  ultimately show ?thesis
    using null_from_prim [OF assms(1)] m by (simp add: addr_is_aligned_with_def)
qed

lemma aligned_zero_panics:
  assumes "alignment_raw al = 0"
  shows "addr_is_aligned_with to_prim from_prim try_align is_null a al = None"
  using try_align_fits [of al] assms by (auto simp: addr_is_aligned_with_def unat_eq_0)

lemma aligned_too_big:
  assumes "2 ^ LENGTH('w) \<le> unat (alignment_raw al)"
  shows "addr_is_aligned_with to_prim from_prim try_align is_null a al =
    Some (Inl InvalidAlignment)"
  using try_align_big [OF assms] by (simp add: addr_is_aligned_with_def)

end

lemma virt_new_null: "virt_is_null (virt_new x) \<longleftrightarrow> x = 0"
  by (auto simp: virt_is_null_def virt_new_def sg_extd_def or_eq_0_iff)

lemma phy_new_id: "x < 2 ^ 52 \<Longrightarrow> phy_new x = PhyAddr x"
  by (simp add: phy_new_def word_less_nat_alt word_mod_less_divisor mod_word_less)

lemma alignment_raw_less: "unat (alignment_raw al) < 2 ^ 64"
  using unat_less [of "alignment_raw al"] by simp

lemma alignment_to_u32_fits:
  "unat (alignment_raw al) < 2 ^ 32 \<Longrightarrow>
    \<exists>m. alignment_to_u32 al = Inr m \<and> unat m = unat (alignment_raw al)"
  by (simp add: alignment_to_u32_def word_less_nat_alt unat_ucast_mod)

lemma alignment_to_u32_big:
  "2 ^ 32 \<le> unat (alignment_raw al) \<Longrightarrow> alignment_to_u32 al = Inl InvalidAlignment"
  by (simp add: alignment_to_u32_def word_less_nat_alt)

interpretation phy: memory_address phy_raw phy_new alignment_to_u64 phy_is_null
  "\<lambda>a. phy_raw a < 2 ^ 52"
proof unfold_locales
  fix a x assume "phy_raw a < 2 ^ 52" "x \<le> phy_raw a"
  then have "x < 2 ^ 52" by (rule order.strict_trans1 [rotated])
  then show "phy_is_null (phy_new x) \<longleftrightarrow> x = 0"
    by (simp add: phy_new_id phy_is_null_def)
next
  fix al assume "2 ^ LENGTH(64) \<le> unat (alignment_raw al)"
  then show "alignment_to_u64 al = Inl InvalidAlignment"
    using alignment_raw_less [of al] by simp
qed (simp add: alignment_to_u64_def)

interpretation phy32: memory_address phy32_raw PhyAddr32 alignment_to_u32 phy32_is_null
  "\<lambda>a. True"
  by unfold_locales
     (simp_all add: phy32_is_null_def alignment_to_u32_fits alignment_to_u32_big)

interpretation virt: memory_address u64_from_virt virt_new alignment_to_u64 virt_is_null
  "\<lambda>a. True"
proof unfold_locales
  fix al assume "2 ^ LENGTH(64) \<le> unat (alignment_raw al)"
  then show "alignment_to_u64 al = Inl InvalidAlignment"
    using alignment_raw_less [of al] by simp
qed (simp_all add: virt_new_null alignment_to_u64_def)

subsection \<open>Canonical virtual addresses\<close>

text \<open>An address is canonical when bits 48 to 63 repeat bit 47.\<close>

definition canonical :: "u64 \<Rightarrow> bool" where
  "canonical x \<longleftrightarrow> (\<forall>i\<in>set [48..<64]. bit x i = bit x 47)"

lemma canonical_iff: "canonical x \<longleftrightarrow> (\<forall>i. 48 \<le> i \<and> i < 64 \<longrightarrow> bit x i = bit x 47)"
  by (simp only: canonical_def set_upt Ball_def atLeastLessThan_iff)

lemma ffff_mask: "(0xFFFF::u64) = mask 16"
  by (simp add: mask_eq_exp_minus_1)

lemma bit_virt_new:
  "bit (virt_raw (virt_new x)) n \<longleftrightarrow> bit x n \<or> (48 \<le> n \<and> n < 64 \<and> bit x 47)"
proof (cases "bit x 47")
  case True
  then have "sg_extd x = 1"
    by (intro word_bits_eqI) (auto simp: sg_extd_def bit_simps bit_1_iff bit_two_pow_word)
  moreover have "bit (push_bit 48 0xFFFF :: u64) n \<longleftrightarrow> 48 \<le> n \<and> n < 64"
    by (unfold ffff_mask) (auto simp: bit_push_bit_iff bit_mask_iff)
  ultimately show ?thesis
    using True by (simp add: virt_new_def bit_or_iff)
next
  case False
  then have "sg_extd x = 0"
    by (intro word_bits_eqI)
       (auto simp: sg_extd_def bit_simps bit_1_iff bit_two_pow_word intro!: gr0I)
  then show ?thesis using False by (simp add: virt_new_def)
qed

lemma canonical_virt_new:
  "canonical (virt_raw (virt_new x)) \<longleftrightarrow> bit x 47 \<or> x < 2 ^ 48"
proof -
  have "canonical (virt_raw (virt_new x)) \<longleftrightarrow> bit x 47 \<or> (\<forall>i. 48 \<le> i \<longrightarrow> \<not> bit x i)"
    by (auto simp: canonical_iff bit_virt_new) (use bit_imp_le_length [of x] in force)
  then show ?thesis using less_two_pow_iff_bits [of 48 x] by simp
qed

lemma virt_new_idem: "virt_new (virt_raw (virt_new x)) = virt_new x"
  by (intro virt_addr.expand word_bits_eqI) (auto simp: bit_virt_new)

lemma u64_from_virt_new: "u64_from_virt a = virt_raw (virt_new (virt_raw a))"
  by (simp add: u64_from_virt_def virt_new_def)

lemma virt_new_canonical_id: "canonical x \<Longrightarrow> virt_new x = VirtAddr x"
  by (intro virt_addr.expand word_bits_eqI) (auto simp: bit_virt_new canonical_iff)

subsection \<open>The linear mapping of physical memory\<close>

record physical_memory_mapping =
  map_offset :: virt_addr

definition DEFAULT_OFFSET :: virt_addr where
  "DEFAULT_OFFSET = virt_new 0xFFFFCF8000000000"
definition DEFAULT_MAX_SIZE :: u64 where
  "DEFAULT_MAX_SIZE = 0x010000000000"
definition IDENTITY :: physical_memory_mapping where
  "IDENTITY = \<lparr>map_offset = virt_new 0\<rparr>"
definition KERNEL_DEFAULT_MAPPING :: physical_memory_mapping where
  "KERNEL_DEFAULT_MAPPING = \<lparr>map_offset = DEFAULT_OFFSET\<rparr>"

definition mapping_convert :: "physical_memory_mapping \<Rightarrow> phy_addr \<Rightarrow> virt_addr" where
  "mapping_convert m phys = virt_add (map_offset m) (virt_new (phy_raw phys))"

text \<open>The kernel is built with the feature \<open>x86_64\<close>, the bootloader without.\<close>

definition get_physical_memory :: "bool \<Rightarrow> phy_addr \<Rightarrow> u64" where
  "get_physical_memory x86_64 addr =
    u64_from_virt (mapping_convert (if x86_64 then KERNEL_DEFAULT_MAPPING else IDENTITY) addr)"

definition get_physical_memory32 :: "bool \<Rightarrow> phy_addr32 \<Rightarrow> u64" where
  "get_physical_memory32 x86_64 addr = get_physical_memory x86_64 (phy_from_phy32 addr)"

lemma canonical_low: "x < 2 ^ 47 \<Longrightarrow> canonical x"
  using less_two_pow_iff_bits [of 47 x] by (auto simp: canonical_iff)

lemma canonical_high: "0xFFFF800000000000 \<le> x \<Longrightarrow> canonical x"
proof -
  assume "0xFFFF800000000000 \<le> x"
  then have "unat x div 2 ^ 47 = 0x1FFFF"
    using unat_less [of x] by (simp add: word_le_nat_alt)
  then have drop: "drop_bit 47 x = mask 17"
    by (intro unat_eqI) (simp only: unat_drop_bit mask_eq_exp_minus_1, simp)
  have "bit (drop_bit 47 x) j" if "j < 17" for j
    unfolding drop using that by (simp add: bit_mask_iff)
  then have hi: "bit x (47 + j)" if "j < 17" for j
    using that by (simp add: bit_drop_bit_eq)
  have "bit x i" if "47 \<le> i" "i < 64" for i
    using that hi [of "i - 47"] by simp
  then show ?thesis by (simp add: canonical_iff)
qed

lemma mapping_convert_default:
  assumes "phy_raw p < DEFAULT_MAX_SIZE"
  shows "mapping_convert KERNEL_DEFAULT_MAPPING p = VirtAddr (0xFFFFCF8000000000 + phy_raw p)"
proof -
  have off: "DEFAULT_OFFSET = VirtAddr 0xFFFFCF8000000000"
    unfolding DEFAULT_OFFSET_def by (rule virt_new_canonical_id, rule canonical_high) simp
  have lt: "unat (phy_raw p) < 0x10000000000"
    using assms by (simp add: DEFAULT_MAX_SIZE_def word_less_nat_alt)
  then have phys: "virt_new (phy_raw p) = VirtAddr (phy_raw p)"
    by (intro virt_new_canonical_id canonical_low) (simp add: word_less_nat_alt)
  have "0xFFFF800000000000 \<le> 0xFFFFCF8000000000 + phy_raw p"
    using lt by (simp add: word_le_nat_alt unat_word_ariths)
  then show ?thesis
    using phys by (simp add: mapping_convert_def KERNEL_DEFAULT_MAPPING_def off virt_add_def
        virt_new_canonical_id canonical_high)
qed

subsection \<open>Properties\<close>

lemma virt_new_fixed: "virt_new x = VirtAddr x \<longleftrightarrow> canonical x \<or> bit x 47 = False"
proof -
  have "virt_new x = VirtAddr x \<longleftrightarrow> (\<forall>n. bit (virt_raw (virt_new x)) n = bit x n)"
    by (metis bit_eq_iff virt_addr.collapse virt_addr.sel)
  then show ?thesis by (auto simp: bit_virt_new canonical_iff)
qed

text \<open>C9. \<open>VirtAddr::new\<close> keeps the low 48 bits of every address; its result is
  canonical exactly when bit 47 of the argument is set or the argument is below
  \<open>2 ^ 48\<close> (a set high bit is never cleared), the argument is returned unchanged
  exactly when it is canonical or has bit 47 clear, and reading the address back
  as a \<open>u64\<close> extends nothing further.\<close>

theorem virt_new_spec:
  "take_bit 48 (virt_raw (virt_new x)) = take_bit 48 x \<and>
   (canonical (virt_raw (virt_new x)) = (bit x 47 \<or> x < 2 ^ 48)) \<and>
   ((virt_new x = VirtAddr x) = (canonical x \<or> bit x 47 = False)) \<and>
   u64_from_virt (virt_new x) = virt_raw (virt_new x)"
proof (intro conjI)
  show "take_bit 48 (virt_raw (virt_new x)) = take_bit 48 x"
    by (intro word_bits_eqI) (auto simp: bit_take_bit_iff bit_virt_new)
  show "u64_from_virt (virt_new x) = virt_raw (virt_new x)"
    by (simp add: u64_from_virt_new virt_new_idem)
qed (rule canonical_virt_new virt_new_fixed)+

text \<open>C10. The alignment test of the trait \<open>MemoryAddress\<close> decides divisibility, for
  each of its implementations: 64-bit physical addresses below \<open>2 ^ 52\<close>, 32-bit
  physical addresses with an alignment that fits 32 bits, and virtual addresses.
  A larger alignment of a 32-bit address is refused with an error.\<close>

theorem is_aligned_with_spec:
  assumes "alignment_raw al \<noteq> 0" and "phy_raw p < 2 ^ 52"
  shows "phy_is_aligned_with p al = Some (Inr (unat (alignment_raw al) dvd unat (phy_raw p)))
    \<and> virt_mem_is_aligned_with v al =
      Some (Inr (unat (alignment_raw al) dvd unat (u64_from_virt v)))
    \<and> phy32_is_aligned_with q al =
      Some (if unat (alignment_raw al) < 2 ^ 32
            then Inr (unat (alignment_raw al) dvd unat (phy32_raw q))
            else Inl InvalidAlignment)"
  using assms alignment_raw_less [of al]
    phy.aligned_iff_dvd [of p al] virt.aligned_iff_dvd [where a = v and al = al]
    phy32.aligned_iff_dvd [where a = q and al = al] phy32.aligned_too_big [of al q]
  by (simp add: phy_is_aligned_with_def virt_mem_is_aligned_with_def
      phy32_is_aligned_with_def)

theorem is_aligned_with_spec_witness:
  "phy_is_aligned_with (PhyAddr 0x201000) ALIGN_4KB = Some (Inr True) \<and>
   phy32_is_aligned_with (PhyAddr32 0x4804) ALIGN_4KB = Some (Inr False)"
  using is_aligned_with_spec [of ALIGN_4KB "PhyAddr 0x201000" undefined "PhyAddr32 0x4804"]
  by (simp add: ALIGN_4KB_def)

end
