(* ===== verification/Alloc_Header.thy ===== *)
theory Alloc_Header
  imports Addr
begin

text \<open>
  The header of a kernel heap block, \<open>AllocHeader\<close> of
  \<open>src/mem/vmalloc/kheap.rs\<close>, and the trait \<open>NodePayload\<close> of
  \<open>src/mem/vmalloc/rbtree.rs\<close> through which the red-black trees use it. The four
  low bits of the first word hold the attributes, the other bits the block size.

  The locale \<open>node_payload\<close> states what a tree relies on: a colour that is read
  back, that is overwritten by the next one and that leaves the value alone.
\<close>

datatype node_color = Black | Red

record alloc_header =
  hdr_inner :: u64
  hdr_extra :: u64

definition hdr_NULL :: alloc_header where
  "hdr_NULL = \<lparr>hdr_inner = 0, hdr_extra = 0\<rparr>"

definition allocate_hdr :: "alloc_header \<Rightarrow> alloc_header" where
  "allocate_hdr h = h\<lparr>hdr_inner := hdr_inner h OR 1\<rparr>"

definition free_hdr :: "alloc_header \<Rightarrow> alloc_header" where
  "free_hdr h = h\<lparr>hdr_inner := hdr_inner h AND NOT 1\<rparr>"

definition is_mapped :: "alloc_header \<Rightarrow> bool" where
  "is_mapped h \<longleftrightarrow> hdr_inner h AND 8 \<noteq> 0"

definition set_mapped :: "bool \<Rightarrow> alloc_header \<Rightarrow> alloc_header" where
  "set_mapped m h =
    (if m then h\<lparr>hdr_inner := hdr_inner h OR 8\<rparr>
     else h\<lparr>hdr_inner := hdr_inner h AND NOT 8\<rparr>)"

definition is_allocated :: "alloc_header \<Rightarrow> bool" where
  "is_allocated h \<longleftrightarrow> hdr_inner h AND 1 \<noteq> 0"

definition get_size :: "alloc_header \<Rightarrow> u64" where
  "get_size h = hdr_inner h AND NOT 15"

definition set_size :: "u64 \<Rightarrow> alloc_header \<Rightarrow> alloc_header" where
  "set_size sz h = (let header_attr = hdr_inner h AND 15 in
     h\<lparr>hdr_inner := sz OR header_attr\<rparr>)"

definition left_allocated :: "alloc_header \<Rightarrow> bool" where
  "left_allocated h \<longleftrightarrow> hdr_inner h AND 2 \<noteq> 0"

definition set_left_allocated :: "bool \<Rightarrow> alloc_header \<Rightarrow> alloc_header" where
  "set_left_allocated a h =
    (if a then h\<lparr>hdr_inner := hdr_inner h OR 2\<rparr>
     else h\<lparr>hdr_inner := hdr_inner h AND NOT 2\<rparr>)"

definition get_color :: "alloc_header \<Rightarrow> node_color" where
  "get_color h = (if drop_bit 2 (hdr_inner h) AND 1 = 0 then Black else Red)"

definition set_color :: "node_color \<Rightarrow> alloc_header \<Rightarrow> alloc_header" where
  "set_color c h = (case c of
     Black \<Rightarrow> h\<lparr>hdr_inner := hdr_inner h AND NOT 4\<rparr>
   | Red \<Rightarrow> h\<lparr>hdr_inner := hdr_inner h OR 4\<rparr>)"

definition hdr_value :: "alloc_header \<Rightarrow> u64" where
  "hdr_value h = get_size h"

definition set_value :: "u64 \<Rightarrow> alloc_header \<Rightarrow> alloc_header" where
  "set_value new_val h = set_size new_val h"

subsection \<open>The attributes as bits\<close>

lemma bit_15: "bit (15::u64) n \<longleftrightarrow> n < 4"
  using bit_mask_iff [of 4 n, where ?'a = u64] by (auto simp: mask_eq_exp_minus_1)

lemma attr_masks: "(1::u64) = 2 ^ 0" "(2::u64) = 2 ^ 1" "(4::u64) = 2 ^ 2" "(8::u64) = 2 ^ 3"
  by simp_all

lemma and_two_pow_zero_iff: "k < 64 \<Longrightarrow> (x::u64) AND 2 ^ k = 0 \<longleftrightarrow> \<not> bit x k"
  by (metis and_exp_eq_0_iff_not_bit)

lemma hdr_attr_bits:
  "is_allocated h \<longleftrightarrow> bit (hdr_inner h) 0"
  "left_allocated h \<longleftrightarrow> bit (hdr_inner h) 1"
  "get_color h = (if bit (hdr_inner h) 2 then Red else Black)"
  "is_mapped h \<longleftrightarrow> bit (hdr_inner h) 3"
proof -
  show "is_allocated h \<longleftrightarrow> bit (hdr_inner h) 0"
    using and_two_pow_zero_iff [of 0] by (simp add: is_allocated_def)
  show "left_allocated h \<longleftrightarrow> bit (hdr_inner h) 1"
    using and_two_pow_zero_iff [of 1] by (simp add: left_allocated_def)
  show "get_color h = (if bit (hdr_inner h) 2 then Red else Black)"
    using and_two_pow_zero_iff [of 0 "drop_bit 2 (hdr_inner h)"]
    by (simp add: get_color_def bit_drop_bit_eq)
  show "is_mapped h \<longleftrightarrow> bit (hdr_inner h) 3"
    using and_two_pow_zero_iff [of 3] by (simp add: is_mapped_def)
qed

lemma bit_small:
  "bit (1::u64) n \<longleftrightarrow> n = 0" "bit (2::u64) n \<longleftrightarrow> n = 1"
  "bit (4::u64) n \<longleftrightarrow> n = 2" "bit (8::u64) n \<longleftrightarrow> n = 3"
  using bit_two_pow_word [of 1 n, where ?'a = 64] bit_two_pow_word [of 2 n, where ?'a = 64]
    bit_two_pow_word [of 3 n, where ?'a = 64]
  by (auto simp: bit_1_iff)

lemma bit_clear_attr:
  "bit ((x::u64) AND NOT 1) n \<longleftrightarrow> n \<noteq> 0 \<and> bit x n" "bit (x AND NOT 2) n \<longleftrightarrow> n \<noteq> 1 \<and> bit x n"
  "bit (x AND NOT 4) n \<longleftrightarrow> n \<noteq> 2 \<and> bit x n" "bit (x AND NOT 8) n \<longleftrightarrow> n \<noteq> 3 \<and> bit x n"
  "bit (x AND NOT 15) n \<longleftrightarrow> bit x n \<and> 4 \<le> n"
  by (simp_all only: bit_and_iff bit_not_iff bit_small bit_15 possible_bit_word not_less)
     (auto dest: bit_imp_le_length)

lemma hdr_inner_updates:
  "hdr_inner (allocate_hdr h) = hdr_inner h OR 1"
  "hdr_inner (free_hdr h) = hdr_inner h AND NOT 1"
  "hdr_inner (set_left_allocated b h) = (if b then hdr_inner h OR 2 else hdr_inner h AND NOT 2)"
  "hdr_inner (set_color c h) = (if c = Red then hdr_inner h OR 4 else hdr_inner h AND NOT 4)"
  "hdr_inner (set_mapped b h) = (if b then hdr_inner h OR 8 else hdr_inner h AND NOT 8)"
  "hdr_inner (set_size sz h) = sz OR hdr_inner h AND 15"
  by (simp_all add: allocate_hdr_def free_hdr_def set_left_allocated_def set_color_def
      set_mapped_def set_size_def Let_def split: node_color.split)

lemma bit_and_15: "bit ((x::u64) AND 15) n \<longleftrightarrow> n < 4 \<and> bit x n"
  by (simp only: bit_and_iff bit_15 conj_commute)

lemma bit_hdr_updates:
  "bit (hdr_inner (allocate_hdr h)) n \<longleftrightarrow> n = 0 \<or> bit (hdr_inner h) n"
  "bit (hdr_inner (free_hdr h)) n \<longleftrightarrow> n \<noteq> 0 \<and> bit (hdr_inner h) n"
  "bit (hdr_inner (set_left_allocated b h)) n \<longleftrightarrow> (if n = 1 then b else bit (hdr_inner h) n)"
  "bit (hdr_inner (set_color c h)) n \<longleftrightarrow> (if n = 2 then c = Red else bit (hdr_inner h) n)"
  "bit (hdr_inner (set_mapped b h)) n \<longleftrightarrow> (if n = 3 then b else bit (hdr_inner h) n)"
  "bit (hdr_inner (set_size sz h)) n \<longleftrightarrow> bit sz n \<or> n < 4 \<and> bit (hdr_inner h) n"
  by (simp_all only: hdr_inner_updates bit_clear_attr bit_or_iff bit_small bit_and_15
      split: if_split) auto

lemma bit_get_size: "bit (get_size h) n \<longleftrightarrow> bit (hdr_inner h) n \<and> 4 \<le> n"
  by (simp only: get_size_def bit_clear_attr)

lemma hdr_extra_updates [simp]:
  "hdr_extra (allocate_hdr h) = hdr_extra h" "hdr_extra (free_hdr h) = hdr_extra h"
  "hdr_extra (set_left_allocated b h) = hdr_extra h" "hdr_extra (set_color c h) = hdr_extra h"
  "hdr_extra (set_mapped b h) = hdr_extra h" "hdr_extra (set_size sz h) = hdr_extra h"
  by (simp_all add: allocate_hdr_def free_hdr_def set_left_allocated_def set_color_def
      set_mapped_def set_size_def Let_def split: node_color.split)

lemma alloc_header_eqI:
  fixes g h :: alloc_header
  assumes "\<And>n. bit (hdr_inner g) n = bit (hdr_inner h) n" and "hdr_extra g = hdr_extra h"
  shows "g = h"
  using assms by (intro alloc_header.equality) (auto simp: bit_eq_iff)

text \<open>A size is a multiple of 16: its four low bits are clear.\<close>

definition size_aligned :: "u64 \<Rightarrow> bool" where
  "size_aligned sz \<longleftrightarrow> sz AND 15 = 0"

lemma size_aligned_bits: "size_aligned sz \<longleftrightarrow> (\<forall>n<4. \<not> bit sz n)"
proof -
  have "size_aligned sz \<longleftrightarrow> (\<forall>n. \<not> bit (sz AND 15) n)"
    by (metis size_aligned_def bit_0_eq bit_word_eqI bot_apply bot_bool_def)
  then show ?thesis by (simp only: bit_and_15) auto
qed

lemmas hdr_bits = hdr_attr_bits bit_hdr_updates bit_get_size

lemma get_size_updates [simp]:
  "get_size (allocate_hdr h) = get_size h" "get_size (free_hdr h) = get_size h"
  "get_size (set_left_allocated b h) = get_size h" "get_size (set_color c h) = get_size h"
  "get_size (set_mapped b h) = get_size h"
  by (auto intro!: bit_word_eqI simp: hdr_bits split: if_splits)

lemma get_size_set_size: "size_aligned sz \<Longrightarrow> get_size (set_size sz h) = sz"
  by (intro bit_word_eqI) (auto simp: hdr_bits size_aligned_bits not_less)

lemma size_aligned_get_size [simp]: "size_aligned (get_size h)"
  by (auto simp: size_aligned_bits hdr_bits)

lemma hdr_attr_updates [simp]:
  "get_color (allocate_hdr h) = get_color h" "get_color (free_hdr h) = get_color h"
  "get_color (set_left_allocated b h) = get_color h" "get_color (set_mapped b h) = get_color h"
  "get_color (set_color c h) = c"
  "is_allocated (set_color c h) = is_allocated h"
  "is_allocated (allocate_hdr h)" "\<not> is_allocated (free_hdr h)"
  "is_allocated (set_left_allocated b h) = is_allocated h"
  "is_allocated (set_mapped b h) = is_allocated h"
  "left_allocated (set_left_allocated b h) = b"
  "left_allocated (set_color c h) = left_allocated h"
  "left_allocated (allocate_hdr h) = left_allocated h"
  "left_allocated (set_mapped b h) = left_allocated h"
  "is_mapped (set_mapped b h) = b" "is_mapped (set_color c h) = is_mapped h"
  "is_mapped (allocate_hdr h) = is_mapped h"
  "is_mapped (set_left_allocated b h) = is_mapped h"
  by (cases c; simp add: hdr_bits)+

lemma hdr_attr_set_size [simp]:
  assumes "size_aligned sz"
  shows "get_color (set_size sz h) = get_color h" "is_allocated (set_size sz h) = is_allocated h"
    "left_allocated (set_size sz h) = left_allocated h" "is_mapped (set_size sz h) = is_mapped h"
  using assms by (simp_all add: hdr_bits size_aligned_bits)

lemma set_color_set_color [simp]: "set_color c (set_color d h) = set_color c h"
  by (rule alloc_header_eqI) (simp_all add: hdr_bits)

lemma set_color_get_color [simp]: "set_color (get_color h) h = h"
  by (rule alloc_header_eqI) (simp_all add: hdr_bits)

lemma hdr_value_set_color [simp]: "hdr_value (set_color c h) = hdr_value h"
  by (simp add: hdr_value_def)

lemma hdr_NULL_attrs [simp]:
  "get_color hdr_NULL = Black" "\<not> is_allocated hdr_NULL" "\<not> left_allocated hdr_NULL"
  "\<not> is_mapped hdr_NULL" "get_size hdr_NULL = 0"
  by (simp_all add: hdr_attr_bits get_size_def hdr_NULL_def)

subsection \<open>The trait NodePayload\<close>

locale node_payload =
  fixes color :: "'p \<Rightarrow> node_color" and recolor :: "node_color \<Rightarrow> 'p \<Rightarrow> 'p"
    and pvalue :: "'p \<Rightarrow> u64"
  assumes color_recolor: "color (recolor c p) = c"
    and recolor_recolor: "recolor c (recolor d p) = recolor c p"
    and recolor_same: "recolor (color p) p = p"
    and pvalue_recolor: "pvalue (recolor c p) = pvalue p"
begin

text \<open>The payload without its colour: what every recolouring keeps.\<close>

lemma recolor_eq_iff: "recolor c p = recolor c q \<longleftrightarrow> recolor d p = recolor d q"
  by (metis recolor_recolor)

lemma recolor_id_iff: "recolor c p = p \<longleftrightarrow> color p = c"
  by (metis color_recolor recolor_same)

end

interpretation hdr: node_payload get_color set_color hdr_value
  by unfold_locales simp_all

subsection \<open>Properties\<close>

text \<open>All the fields of a header.\<close>

definition hdr_view :: "alloc_header \<Rightarrow> u64 \<times> bool \<times> bool \<times> node_color \<times> bool \<times> u64" where
  "hdr_view h = (get_size h, is_allocated h, left_allocated h, get_color h, is_mapped h, hdr_extra h)"

lemma free_hdr_attrs [simp]:
  "left_allocated (free_hdr h) = left_allocated h" "is_mapped (free_hdr h) = is_mapped h"
  by (simp_all add: hdr_bits)

lemma hdr_view_inj: "hdr_view g = hdr_view h \<Longrightarrow> g = h"
proof (rule alloc_header_eqI)
  assume v: "hdr_view g = hdr_view h"
  show "bit (hdr_inner g) n = bit (hdr_inner h) n" for n
  proof (cases "4 \<le> n")
    case True
    then show ?thesis using v bit_get_size [of g n] bit_get_size [of h n] by (simp add: hdr_view_def)
  next
    case False
    then have "n = 0 \<or> n = 1 \<or> n = 2 \<or> n = 3" by linarith
    then show ?thesis using v by (auto simp: hdr_view_def hdr_attr_bits split: if_splits)
  qed
  show "hdr_extra g = hdr_extra h" using v by (simp add: hdr_view_def)
qed

text \<open>C11. The fields of a block header are independent and determine it. Each setter
  gives its own field the new value and keeps the five others, whatever the header was:
  \<open>set_size\<close> and \<open>set_value\<close> the size (for sizes that are multiples of 16), \<open>allocate\<close> and \<open>free\<close> the
  allocated bit, \<open>set_left_allocated\<close>, \<open>set_color\<close> and \<open>set_mapped\<close> theirs; none changes the
  second word.\<close>

theorem alloc_header_fields:
  assumes "size_aligned sz" "hdr_view h = (S, A, L, C, M, E)"
  shows "hdr_view (set_size sz h) = (sz, A, L, C, M, E) \<and> hdr_view (set_value sz h) = (sz, A, L, C, M, E) \<and>
    hdr_view (allocate_hdr h) = (S, True, L, C, M, E) \<and> hdr_view (free_hdr h) = (S, False, L, C, M, E) \<and>
    hdr_view (set_left_allocated b h) = (S, A, b, C, M, E) \<and> hdr_view (set_color c h) = (S, A, L, c, M, E) \<and>
    hdr_view (set_mapped b h) = (S, A, L, C, b, E) \<and> (\<forall>g. hdr_view g = hdr_view h \<longrightarrow> g = h)"
  using assms hdr_view_inj by (simp add: hdr_view_def set_value_def get_size_set_size)

theorem alloc_header_fields_witness:
  "hdr_view (set_size 0x80 \<lparr>hdr_inner = 0x4F, hdr_extra = 7\<rparr>) = (0x80, True, True, Red, True, 7) \<and>
    hdr_view (free_hdr \<lparr>hdr_inner = 0x4F, hdr_extra = 7\<rparr>) = (0x40, False, True, Red, True, 7)"
proof -
  have "hdr_view \<lparr>hdr_inner = 0x4F, hdr_extra = 7\<rparr> = (0x40, True, True, Red, True, 7)"
    by (simp add: hdr_view_def get_size_def is_allocated_def left_allocated_def get_color_def is_mapped_def)
  moreover have "size_aligned 0x80" by (simp add: size_aligned_def)
  ultimately show ?thesis using alloc_header_fields by blast
qed

end
