(* ===== verification/Rb_Tree.thy ===== *)
theory Rb_Tree
  imports Alloc_Header
begin

text \<open>
  The red-black tree of \<open>src/mem/vmalloc/rbtree.rs\<close>, specialised to the only
  payload of the program. The nodes live in a heap, a partial map from addresses
  to nodes; a null link is address 0. Reading or writing an address that holds no
  node is \<open>None\<close>, so that an operation that returns \<open>Some\<close> only touches nodes. The
  loops whose end depends on the shape of the tree are partial functions: an
  endless loop is \<open>None\<close> too.
\<close>

record node =
  n_header :: alloc_header
  n_parent :: u64
  n_left :: u64
  n_right :: u64

record rb_tree =
  rb_root :: u64
  rb_nil :: u64
  rb_count :: u64

type_synonym node_heap = "u64 \<rightharpoonup> node"

definition rd :: "(node \<Rightarrow> 'a) \<Rightarrow> node_heap \<Rightarrow> u64 \<Rightarrow> 'a option" where
  "rd f h p = map_option f (h p)"

definition wr :: "(node \<Rightarrow> node) \<Rightarrow> node_heap \<Rightarrow> u64 \<Rightarrow> node_heap option" where
  "wr f h p = (case h p of None \<Rightarrow> None | Some n \<Rightarrow> Some (h(p \<mapsto> f n)))"

definition set_parent :: "node_heap \<Rightarrow> u64 \<Rightarrow> u64 \<Rightarrow> node_heap option" where
  "set_parent h p v = wr (\<lambda>n. n\<lparr>n_parent := v\<rparr>) h p"
definition set_left :: "node_heap \<Rightarrow> u64 \<Rightarrow> u64 \<Rightarrow> node_heap option" where
  "set_left h p v = wr (\<lambda>n. n\<lparr>n_left := v\<rparr>) h p"
definition set_right :: "node_heap \<Rightarrow> u64 \<Rightarrow> u64 \<Rightarrow> node_heap option" where
  "set_right h p v = wr (\<lambda>n. n\<lparr>n_right := v\<rparr>) h p"

definition color_at :: "node_heap \<Rightarrow> u64 \<Rightarrow> node_color option" where
  "color_at h p = rd (\<lambda>n. get_color (n_header n)) h p"
definition paint :: "node_heap \<Rightarrow> u64 \<Rightarrow> node_color \<Rightarrow> node_heap option" where
  "paint h p c = wr (\<lambda>n. n\<lparr>n_header := set_color c (n_header n)\<rparr>) h p"
definition value_at :: "node_heap \<Rightarrow> u64 \<Rightarrow> u64 option" where
  "value_at h p = rd (\<lambda>n. hdr_value (n_header n)) h p"

abbreviation (input) parent_of :: "node_heap \<Rightarrow> u64 \<Rightarrow> u64 option" where
  "parent_of h p \<equiv> rd n_parent h p"
abbreviation (input) left_of :: "node_heap \<Rightarrow> u64 \<Rightarrow> u64 option" where
  "left_of h p \<equiv> rd n_left h p"
abbreviation (input) right_of :: "node_heap \<Rightarrow> u64 \<Rightarrow> u64 option" where
  "right_of h p \<equiv> rd n_right h p"

definition grandparent_of :: "node_heap \<Rightarrow> u64 \<Rightarrow> u64 option" where
  "grandparent_of h p = Option.bind (parent_of h p) (parent_of h)"

subsection \<open>Rotations\<close>

definition left_rotate :: "node_heap \<Rightarrow> rb_tree \<Rightarrow> u64 \<Rightarrow> (node_heap \<times> rb_tree) option" where
  "left_rotate h t center = do {
     right_child \<leftarrow> right_of h center;
     rl \<leftarrow> left_of h right_child;
     h \<leftarrow> set_right h center rl;
     rl \<leftarrow> left_of h right_child;
     h \<leftarrow> (if rl \<noteq> rb_nil t then set_parent h rl center else Some h);
     cp \<leftarrow> parent_of h center;
     h \<leftarrow> set_parent h right_child cp;
     cp \<leftarrow> parent_of h center;
     (h, t) \<leftarrow>
       (if cp = rb_nil t then Some (h, t\<lparr>rb_root := right_child\<rparr>)
        else do {
          cpl \<leftarrow> left_of h cp;
          h \<leftarrow> (if center = cpl then set_left h cp right_child
               else set_right h cp right_child);
          Some (h, t)
        });
     h \<leftarrow> set_left h right_child center;
     h \<leftarrow> set_parent h center right_child;
     Some (h, t)
   }"

definition right_rotate :: "node_heap \<Rightarrow> rb_tree \<Rightarrow> u64 \<Rightarrow> (node_heap \<times> rb_tree) option" where
  "right_rotate h t center = do {
     left_child \<leftarrow> left_of h center;
     lr \<leftarrow> right_of h left_child;
     h \<leftarrow> set_left h center lr;
     lr \<leftarrow> right_of h left_child;
     h \<leftarrow> (if lr \<noteq> rb_nil t then set_parent h lr center else Some h);
     cp \<leftarrow> parent_of h center;
     h \<leftarrow> set_parent h left_child cp;
     cp \<leftarrow> parent_of h center;
     (h, t) \<leftarrow>
       (if cp = rb_nil t then Some (h, t\<lparr>rb_root := left_child\<rparr>)
        else do {
          cpr \<leftarrow> right_of h cp;
          h \<leftarrow> (if center = cpr then set_right h cp left_child
               else set_left h cp left_child);
          Some (h, t)
        });
     h \<leftarrow> set_right h left_child center;
     h \<leftarrow> set_parent h center left_child;
     Some (h, t)
   }"

subsection \<open>Insertion\<close>

definition fix_insert_left ::
  "node_heap \<Rightarrow> rb_tree \<Rightarrow> u64 \<Rightarrow> (node_heap \<times> rb_tree \<times> u64) option" where
  "fix_insert_left h t new_node = do {
     gp \<leftarrow> grandparent_of h new_node;
     uncle \<leftarrow> right_of h gp;
     uc \<leftarrow> color_at h uncle;
     if uc = Red then do {
       p \<leftarrow> parent_of h new_node;
       h \<leftarrow> paint h p Black;
       h \<leftarrow> paint h uncle Black;
       gp \<leftarrow> grandparent_of h new_node;
       h \<leftarrow> paint h gp Red;
       gp \<leftarrow> grandparent_of h new_node;
       Some (h, t, gp)
     } else do {
       p \<leftarrow> parent_of h new_node;
       pr \<leftarrow> right_of h p;
       (h, t, new_node) \<leftarrow>
         (if new_node = pr then do {
            new_node \<leftarrow> parent_of h new_node;
            (h, t) \<leftarrow> left_rotate h t new_node;
            Some (h, t, new_node)
          } else Some (h, t, new_node));
       p \<leftarrow> parent_of h new_node;
       h \<leftarrow> paint h p Black;
       gp \<leftarrow> grandparent_of h new_node;
       h \<leftarrow> paint h gp Red;
       gp \<leftarrow> grandparent_of h new_node;
       (h, t) \<leftarrow> right_rotate h t gp;
       Some (h, t, new_node)
     }
   }"

definition fix_insert_right ::
  "node_heap \<Rightarrow> rb_tree \<Rightarrow> u64 \<Rightarrow> (node_heap \<times> rb_tree \<times> u64) option" where
  "fix_insert_right h t new_node = do {
     gp \<leftarrow> grandparent_of h new_node;
     uncle \<leftarrow> left_of h gp;
     uc \<leftarrow> color_at h uncle;
     if uc = Red then do {
       p \<leftarrow> parent_of h new_node;
       h \<leftarrow> paint h p Black;
       h \<leftarrow> paint h uncle Black;
       gp \<leftarrow> grandparent_of h new_node;
       h \<leftarrow> paint h gp Red;
       gp \<leftarrow> grandparent_of h new_node;
       Some (h, t, gp)
     } else do {
       p \<leftarrow> parent_of h new_node;
       pl \<leftarrow> left_of h p;
       (h, t, new_node) \<leftarrow>
         (if new_node = pl then do {
            new_node \<leftarrow> parent_of h new_node;
            (h, t) \<leftarrow> right_rotate h t new_node;
            Some (h, t, new_node)
          } else Some (h, t, new_node));
       parent \<leftarrow> parent_of h new_node;
       h \<leftarrow> paint h parent Black;
       gp \<leftarrow> parent_of h parent;
       h \<leftarrow> paint h gp Red;
       gp \<leftarrow> parent_of h parent;
       (h, t) \<leftarrow> left_rotate h t gp;
       Some (h, t, new_node)
     }
   }"

partial_function (option) fix_insert_rb_violation ::
  "node_heap \<Rightarrow> rb_tree \<Rightarrow> u64 \<Rightarrow> (node_heap \<times> rb_tree) option" where
  "fix_insert_rb_violation h t new_node = do {
     p \<leftarrow> parent_of h new_node;
     pc \<leftarrow> color_at h p;
     if pc = Red then do {
       gp \<leftarrow> grandparent_of h new_node;
       gl \<leftarrow> left_of h gp;
       (h, t, new_node) \<leftarrow>
         (if p = gl then fix_insert_left h t new_node else fix_insert_right h t new_node);
       fix_insert_rb_violation h t new_node
     } else do {
       h \<leftarrow> paint h (rb_root t) Black;
       Some (h, t)
     }
   }"

partial_function (option) insert_walk ::
  "node_heap \<Rightarrow> u64 \<Rightarrow> u64 \<Rightarrow> u64 \<Rightarrow> u64 \<Rightarrow> u64 option" where
  "insert_walk h nil curr_size child parent =
    (if child \<noteq> nil then do {
       child_size \<leftarrow> value_at h child;
       next \<leftarrow> (if curr_size < child_size then left_of h child else right_of h child);
       insert_walk h nil curr_size next child
     } else Some parent)"

definition insert_node :: "node_heap \<Rightarrow> rb_tree \<Rightarrow> u64 \<Rightarrow> (node_heap \<times> rb_tree) option" where
  "insert_node h t new_node = do {
     curr_size \<leftarrow> value_at h new_node;
     parent \<leftarrow> insert_walk h (rb_nil t) curr_size (rb_root t) (rb_nil t);
     h \<leftarrow> set_parent h new_node parent;
     (h, t) \<leftarrow>
       (if parent = rb_nil t then Some (h, t\<lparr>rb_root := new_node\<rparr>)
        else do {
          parent_size \<leftarrow> value_at h parent;
          h \<leftarrow> (if curr_size < parent_size then set_left h parent new_node
               else set_right h parent new_node);
          Some (h, t)
        });
     h \<leftarrow> set_left h new_node (rb_nil t);
     h \<leftarrow> set_right h new_node (rb_nil t);
     h \<leftarrow> paint h new_node Red;
     (h, t) \<leftarrow> fix_insert_rb_violation h t new_node;
     Some (h, t\<lparr>rb_count := rb_count t + 1\<rparr>)
   }"

subsection \<open>Removal\<close>

text \<open>One iteration of the loop for a left child, in three parts: the case of a red
  sibling, the cases of a black sibling, and the final recolouring and rotation.\<close>

definition fix_remove_left_final ::
  "node_heap \<Rightarrow> rb_tree \<Rightarrow> u64 \<Rightarrow> u64 \<Rightarrow> (node_heap \<times> rb_tree \<times> u64) option" where
  "fix_remove_left_final h t extra_black_node right_sibling = do {
     p \<leftarrow> parent_of h extra_black_node;
     pc \<leftarrow> color_at h p;
     h \<leftarrow> paint h right_sibling pc;
     p \<leftarrow> parent_of h extra_black_node;
     h \<leftarrow> paint h p Black;
     sr \<leftarrow> right_of h right_sibling;
     h \<leftarrow> paint h sr Black;
     p \<leftarrow> parent_of h extra_black_node;
     (h, t) \<leftarrow> left_rotate h t p;
     Some (h, t, rb_root t)
   }"

definition fix_remove_left_black ::
  "node_heap \<Rightarrow> rb_tree \<Rightarrow> u64 \<Rightarrow> u64 \<Rightarrow> (node_heap \<times> rb_tree \<times> u64) option" where
  "fix_remove_left_black h t extra_black_node right_sibling = do {
     sl \<leftarrow> left_of h right_sibling;
     slc \<leftarrow> color_at h sl;
     sr \<leftarrow> right_of h right_sibling;
     src \<leftarrow> color_at h sr;
     if slc = Black \<and> src = Black then do {
       h \<leftarrow> paint h right_sibling Red;
       p \<leftarrow> parent_of h extra_black_node;
       Some (h, t, p)
     } else do {
       sr \<leftarrow> right_of h right_sibling;
       src \<leftarrow> color_at h sr;
       (h, t, right_sibling) \<leftarrow>
         (if src = Black then do {
            sl \<leftarrow> left_of h right_sibling;
            h \<leftarrow> paint h sl Black;
            h \<leftarrow> paint h right_sibling Red;
            (h, t) \<leftarrow> right_rotate h t right_sibling;
            p \<leftarrow> parent_of h extra_black_node;
            right_sibling \<leftarrow> right_of h p;
            Some (h, t, right_sibling)
          } else Some (h, t, right_sibling));
       fix_remove_left_final h t extra_black_node right_sibling
     }
   }"

definition fix_remove_left ::
  "node_heap \<Rightarrow> rb_tree \<Rightarrow> u64 \<Rightarrow> (node_heap \<times> rb_tree \<times> u64) option" where
  "fix_remove_left h t extra_black_node = do {
     p \<leftarrow> parent_of h extra_black_node;
     right_sibling \<leftarrow> right_of h p;
     sc \<leftarrow> color_at h right_sibling;
     (h, t, right_sibling) \<leftarrow>
       (if sc = Red then do {
          h \<leftarrow> paint h right_sibling Black;
          p \<leftarrow> parent_of h extra_black_node;
          h \<leftarrow> paint h p Red;
          p \<leftarrow> parent_of h extra_black_node;
          (h, t) \<leftarrow> left_rotate h t p;
          p \<leftarrow> parent_of h extra_black_node;
          right_sibling \<leftarrow> right_of h p;
          Some (h, t, right_sibling)
        } else Some (h, t, right_sibling));
     fix_remove_left_black h t extra_black_node right_sibling
   }"

definition fix_remove_right_final ::
  "node_heap \<Rightarrow> rb_tree \<Rightarrow> u64 \<Rightarrow> u64 \<Rightarrow> (node_heap \<times> rb_tree \<times> u64) option" where
  "fix_remove_right_final h t extra_black_node left_sibling = do {
     p \<leftarrow> parent_of h extra_black_node;
     pc \<leftarrow> color_at h p;
     h \<leftarrow> paint h left_sibling pc;
     p \<leftarrow> parent_of h extra_black_node;
     h \<leftarrow> paint h p Black;
     sl \<leftarrow> left_of h left_sibling;
     h \<leftarrow> paint h sl Black;
     p \<leftarrow> parent_of h extra_black_node;
     (h, t) \<leftarrow> right_rotate h t p;
     Some (h, t, rb_root t)
   }"

definition fix_remove_right_black ::
  "node_heap \<Rightarrow> rb_tree \<Rightarrow> u64 \<Rightarrow> u64 \<Rightarrow> (node_heap \<times> rb_tree \<times> u64) option" where
  "fix_remove_right_black h t extra_black_node left_sibling = do {
     sl \<leftarrow> left_of h left_sibling;
     slc \<leftarrow> color_at h sl;
     sr \<leftarrow> right_of h left_sibling;
     src \<leftarrow> color_at h sr;
     if slc = Black \<and> src = Black then do {
       h \<leftarrow> paint h left_sibling Red;
       p \<leftarrow> parent_of h extra_black_node;
       Some (h, t, p)
     } else do {
       sl \<leftarrow> left_of h left_sibling;
       slc \<leftarrow> color_at h sl;
       (h, t, left_sibling) \<leftarrow>
         (if slc = Black then do {
            sr \<leftarrow> right_of h left_sibling;
            h \<leftarrow> paint h sr Black;
            h \<leftarrow> paint h left_sibling Red;
            (h, t) \<leftarrow> left_rotate h t left_sibling;
            p \<leftarrow> parent_of h extra_black_node;
            left_sibling \<leftarrow> left_of h p;
            Some (h, t, left_sibling)
          } else Some (h, t, left_sibling));
       fix_remove_right_final h t extra_black_node left_sibling
     }
   }"

definition fix_remove_right ::
  "node_heap \<Rightarrow> rb_tree \<Rightarrow> u64 \<Rightarrow> (node_heap \<times> rb_tree \<times> u64) option" where
  "fix_remove_right h t extra_black_node = do {
     p \<leftarrow> parent_of h extra_black_node;
     left_sibling \<leftarrow> left_of h p;
     sc \<leftarrow> color_at h left_sibling;
     (h, t, left_sibling) \<leftarrow>
       (if sc = Red then do {
          h \<leftarrow> paint h left_sibling Black;
          p \<leftarrow> parent_of h extra_black_node;
          h \<leftarrow> paint h p Red;
          p \<leftarrow> parent_of h extra_black_node;
          (h, t) \<leftarrow> right_rotate h t p;
          p \<leftarrow> parent_of h extra_black_node;
          left_sibling \<leftarrow> left_of h p;
          Some (h, t, left_sibling)
        } else Some (h, t, left_sibling));
     fix_remove_right_black h t extra_black_node left_sibling
   }"

partial_function (option) fix_remove_rb_violation ::
  "node_heap \<Rightarrow> rb_tree \<Rightarrow> u64 \<Rightarrow> (node_heap \<times> rb_tree) option" where
  "fix_remove_rb_violation h t extra_black_node =
    (if extra_black_node \<noteq> rb_root t then do {
       c \<leftarrow> color_at h extra_black_node;
       if c = Black then do {
         p \<leftarrow> parent_of h extra_black_node;
         pl \<leftarrow> left_of h p;
         (h, t, extra_black_node) \<leftarrow>
           (if extra_black_node = pl then fix_remove_left h t extra_black_node
            else fix_remove_right h t extra_black_node);
         fix_remove_rb_violation h t extra_black_node
       } else do {
         h \<leftarrow> paint h extra_black_node Black;
         Some (h, t)
       }
     } else do {
       h \<leftarrow> paint h extra_black_node Black;
       Some (h, t)
     })"

partial_function (option) get_subtree_min :: "node_heap \<Rightarrow> u64 \<Rightarrow> u64 \<Rightarrow> u64 option" where
  "get_subtree_min h nil subtree_root = do {
     l \<leftarrow> left_of h subtree_root;
     if l \<noteq> nil then get_subtree_min h nil l else Some subtree_root
   }"

definition swap_nodes ::
  "node_heap \<Rightarrow> rb_tree \<Rightarrow> u64 \<Rightarrow> u64 \<Rightarrow> (node_heap \<times> rb_tree) option" where
  "swap_nodes h t node_to_remove replacement_node = do {
     p \<leftarrow> parent_of h node_to_remove;
     (h, t) \<leftarrow>
       (if p = rb_nil t then Some (h, t\<lparr>rb_root := replacement_node\<rparr>)
        else do {
          pl \<leftarrow> left_of h p;
          h \<leftarrow> (if node_to_remove = pl then set_left h p replacement_node
               else set_right h p replacement_node);
          Some (h, t)
        });
     p \<leftarrow> parent_of h node_to_remove;
     h \<leftarrow> set_parent h replacement_node p;
     Some (h, t)
   }"

definition link_successor ::
  "node_heap \<Rightarrow> rb_tree \<Rightarrow> u64 \<Rightarrow> u64 \<Rightarrow> (node_heap \<times> rb_tree) option" where
  "link_successor h t node_to_remove right_min = do {
     (h, t) \<leftarrow> swap_nodes h t node_to_remove right_min;
     zl \<leftarrow> left_of h node_to_remove;
     h \<leftarrow> set_left h right_min zl;
     yl \<leftarrow> left_of h right_min;
     h \<leftarrow> set_parent h yl right_min;
     zc \<leftarrow> color_at h node_to_remove;
     h \<leftarrow> paint h right_min zc;
     Some (h, t)
   }"

text \<open>The third branch of \<open>remove_node\<close>: the successor takes the place of a node with
  two children. The result holds the colour to check and the node that may carry
  an extra black.\<close>

definition remove_inner ::
  "node_heap \<Rightarrow> rb_tree \<Rightarrow> u64 \<Rightarrow> (node_heap \<times> rb_tree \<times> node_color \<times> u64) option" where
  "remove_inner h t node_to_remove = do {
     zr \<leftarrow> right_of h node_to_remove;
     right_min \<leftarrow> get_subtree_min h (rb_nil t) zr;
     color_check \<leftarrow> color_at h right_min;
     extra_black \<leftarrow> right_of h right_min;
     zr \<leftarrow> right_of h node_to_remove;
     (h, t) \<leftarrow>
       (if right_min \<noteq> zr then do {
          yr \<leftarrow> right_of h right_min;
          (h, t) \<leftarrow> swap_nodes h t right_min yr;
          zr \<leftarrow> right_of h node_to_remove;
          h \<leftarrow> set_right h right_min zr;
          yr \<leftarrow> right_of h right_min;
          h \<leftarrow> set_parent h yr right_min;
          Some (h, t)
        } else do {
          h \<leftarrow> set_parent h extra_black right_min;
          Some (h, t)
        });
     (h, t) \<leftarrow> link_successor h t node_to_remove right_min;
     Some (h, t, color_check, extra_black)
   }"

definition remove_node ::
  "node_heap \<Rightarrow> rb_tree \<Rightarrow> u64 \<Rightarrow> (node_heap \<times> rb_tree \<times> u64) option" where
  "remove_node h t node_to_remove = do {
     color_check \<leftarrow> color_at h node_to_remove;
     zl \<leftarrow> left_of h node_to_remove;
     zr \<leftarrow> right_of h node_to_remove;
     (h, t, color_check, extra_black) \<leftarrow>
       (if zl = rb_nil t then do {
          (h, t) \<leftarrow> swap_nodes h t node_to_remove zr;
          Some (h, t, color_check, zr)
        } else if zr = rb_nil t then do {
          (h, t) \<leftarrow> swap_nodes h t node_to_remove zl;
          Some (h, t, color_check, zl)
        } else remove_inner h t node_to_remove);
     (h, t) \<leftarrow>
       (if color_check = Black then fix_remove_rb_violation h t extra_black else Some (h, t));
     Some (h, t\<lparr>rb_count := rb_count t - 1\<rparr>, node_to_remove)
   }"

subsection \<open>Best fit\<close>

partial_function (option) fit_walk ::
  "node_heap \<Rightarrow> u64 \<Rightarrow> u64 \<Rightarrow> u64 \<Rightarrow> u64 \<Rightarrow> u64 \<Rightarrow> (u64 \<times> u64) option" where
  "fit_walk h nil value walker closest_size_match to_remove =
    (if walker \<noteq> nil then do {
       walker_size \<leftarrow> value_at h walker;
       if value = walker_size then Some (walker_size, walker)
       else if value < walker_size then do {
         l \<leftarrow> left_of h walker;
         (if walker_size < closest_size_match
          then fit_walk h nil value l walker_size walker
          else fit_walk h nil value l closest_size_match to_remove)
       } else do {
         r \<leftarrow> right_of h walker;
         fit_walk h nil value r closest_size_match to_remove
       }
     } else Some (closest_size_match, to_remove))"

definition find_best_node_fit ::
  "node_heap \<Rightarrow> rb_tree \<Rightarrow> u64 \<Rightarrow> (node_heap \<times> rb_tree \<times> u64 option) option" where
  "find_best_node_fit h t value =
    (if rb_root t = rb_nil t then Some (h, t, None)
     else do {
       (closest_size_match, to_remove) \<leftarrow>
         fit_walk h (rb_nil t) value (rb_root t) 0xFFFFFFFFFFFFFFFF (rb_root t);
       if closest_size_match < value \<or> closest_size_match = 0xFFFFFFFFFFFFFFFF
       then Some (h, t, None)
       else do {
         (h, t, n) \<leftarrow> remove_node h t to_remove;
         Some (h, t, Some n)
       }
     })"

subsection \<open>Creation\<close>

text \<open>\<open>ptr::write\<close> initialises raw memory: the two nodes come to exist.\<close>

definition new_raw :: "node_heap \<Rightarrow> u64 \<Rightarrow> u64 \<Rightarrow> node_heap \<times> rb_tree" where
  "new_raw h root_addr black_nil_addr =
    (let h = h(root_addr \<mapsto> \<lparr>n_header = hdr_NULL, n_parent = black_nil_addr,
                 n_left = black_nil_addr, n_right = black_nil_addr\<rparr>);
         h = h(black_nil_addr \<mapsto> \<lparr>n_header = hdr_NULL, n_parent = 0, n_left = 0, n_right = 0\<rparr>)
     in (h, \<lparr>rb_root = root_addr, rb_nil = black_nil_addr, rb_count = 1\<rparr>))"

definition new_empty :: node where
  "new_empty = \<lparr>n_header = hdr_NULL, n_parent = 0, n_left = 0, n_right = 0\<rparr>"

definition new_isolated_with_value :: "u64 \<Rightarrow> node" where
  "new_isolated_with_value value =
    \<lparr>n_header = set_value value hdr_NULL, n_parent = 0, n_left = 0, n_right = 0\<rparr>"

end
