(* ===== verification/Rb_Rep.thy ===== *)
theory Rb_Rep
  imports Rb_Tree "HOL-Library.Tree" "HOL-Library.Multiset"
begin

text \<open>
  The abstraction of the pointer tree. A search tree over pairs of an address and
  a header is related to the heap by \<open>rep\<close>: every node of the tree is a node of
  the heap with the header, the two children and the parent the tree gives it.
  A position in a tree is a subtree and the path of frames above it (\<open>plug\<close>), and
  \<open>tree_at\<close> holds of a heap and a tree structure that represent a given tree.

  The rotations are verified on a position: they turn the subtree at the focus
  into the rotated one and leave every other node of the heap alone. The right
  rotation is the left rotation of the mirrored heap.
\<close>

type_synonym item = "u64 \<times> alloc_header"

datatype frame = LeftF item "item tree" | RightF "item tree" item

fun ptr :: "u64 \<Rightarrow> item tree \<Rightarrow> u64" where
  "ptr nil Leaf = nil"
| "ptr nil (Node l x r) = fst x"

fun rep :: "node_heap \<Rightarrow> u64 \<Rightarrow> u64 \<Rightarrow> item tree \<Rightarrow> bool" where
  "rep h nil par Leaf = True"
| "rep h nil par (Node l x r) \<longleftrightarrow>
    fst x \<noteq> nil \<and>
    h (fst x) = Some \<lparr>n_header = snd x, n_parent = par, n_left = ptr nil l, n_right = ptr nil r\<rparr> \<and>
    rep h nil (fst x) l \<and> rep h nil (fst x) r"

fun plug :: "frame list \<Rightarrow> item tree \<Rightarrow> item tree" where
  "plug [] t = t"
| "plug (LeftF x r # fs) t = plug fs (Node t x r)"
| "plug (RightF l x # fs) t = plug fs (Node l x t)"

fun cptr :: "u64 \<Rightarrow> frame list \<Rightarrow> u64" where
  "cptr nil [] = nil"
| "cptr nil (LeftF x r # fs) = fst x"
| "cptr nil (RightF l x # fs) = fst x"

fun rep_ctx :: "node_heap \<Rightarrow> u64 \<Rightarrow> frame list \<Rightarrow> u64 \<Rightarrow> bool" where
  "rep_ctx h nil [] p = True"
| "rep_ctx h nil (LeftF x r # fs) p \<longleftrightarrow>
    fst x \<noteq> nil \<and>
    h (fst x) = Some \<lparr>n_header = snd x, n_parent = cptr nil fs, n_left = p, n_right = ptr nil r\<rparr> \<and>
    rep h nil (fst x) r \<and> rep_ctx h nil fs (fst x)"
| "rep_ctx h nil (RightF l x # fs) p \<longleftrightarrow>
    fst x \<noteq> nil \<and>
    h (fst x) = Some \<lparr>n_header = snd x, n_parent = cptr nil fs, n_left = ptr nil l, n_right = p\<rparr> \<and>
    rep h nil (fst x) l \<and> rep_ctx h nil fs (fst x)"

fun rootptr :: "frame list \<Rightarrow> u64 \<Rightarrow> u64" where
  "rootptr [] p = p"
| "rootptr (LeftF x r # fs) p = rootptr fs (fst x)"
| "rootptr (RightF l x # fs) p = rootptr fs (fst x)"

fun pre :: "frame list \<Rightarrow> item list" where
  "pre [] = []"
| "pre (LeftF x r # fs) = pre fs"
| "pre (RightF l x # fs) = pre fs @ inorder l @ [x]"

fun post :: "frame list \<Rightarrow> item list" where
  "post [] = []"
| "post (LeftF x r # fs) = x # inorder r @ post fs"
| "post (RightF l x # fs) = post fs"

definition addrs :: "item tree \<Rightarrow> u64 list" where
  "addrs t = map fst (inorder t)"

definition caddrs :: "frame list \<Rightarrow> u64 list" where
  "caddrs fs = map fst (pre fs @ post fs)"

lemma addrs_simps [simp]:
  "addrs Leaf = []" "addrs (Node l x r) = addrs l @ fst x # addrs r"
  by (simp_all add: addrs_def)

lemma set_caddrs_simps [simp]:
  "set (caddrs []) = {}"
  "set (caddrs (LeftF x r # fs)) = insert (fst x) (set (addrs r) \<union> set (caddrs fs))"
  "set (caddrs (RightF l x # fs)) = insert (fst x) (set (addrs l) \<union> set (caddrs fs))"
  by (auto simp: caddrs_def addrs_def)

lemma distinct_caddrs_simps [simp]:
  "distinct (caddrs [])"
  "distinct (caddrs (LeftF x r # fs)) \<longleftrightarrow>
    fst x \<notin> set (addrs r) \<and> fst x \<notin> set (caddrs fs) \<and> distinct (addrs r) \<and>
    distinct (caddrs fs) \<and> set (addrs r) \<inter> set (caddrs fs) = {}"
  "distinct (caddrs (RightF l x # fs)) \<longleftrightarrow>
    fst x \<notin> set (addrs l) \<and> fst x \<notin> set (caddrs fs) \<and> distinct (addrs l) \<and>
    distinct (caddrs fs) \<and> set (addrs l) \<inter> set (caddrs fs) = {}"
  by (auto simp: caddrs_def addrs_def)

lemma inorder_plug: "inorder (plug fs t) = pre fs @ inorder t @ post fs"
  by (induction fs t rule: plug.induct) auto

lemma addrs_plug_set [simp]: "set (addrs (plug fs t)) = set (caddrs fs) \<union> set (addrs t)"
  by (auto simp: addrs_def caddrs_def inorder_plug)

lemma addrs_plug_distinct [simp]:
  "distinct (addrs (plug fs t)) \<longleftrightarrow>
    distinct (caddrs fs) \<and> distinct (addrs t) \<and> set (caddrs fs) \<inter> set (addrs t) = {}"
  by (auto simp: addrs_def caddrs_def inorder_plug)

lemma rep_plug:
  "rep h nil nil (plug fs t) \<longleftrightarrow> rep_ctx h nil fs (ptr nil t) \<and> rep h nil (cptr nil fs) t"
  by (induction fs t rule: plug.induct) auto

lemma ptr_plug: "ptr nil (plug fs t) = rootptr fs (ptr nil t)"
  by (induction fs t rule: plug.induct) auto

subsection \<open>Frames\<close>

lemma rep_cong:
  "(\<And>a. a \<in> set (addrs t) \<Longrightarrow> h' a = h a) \<Longrightarrow> rep h' nil par t = rep h nil par t"
  by (induction t arbitrary: par) auto

lemma rep_ctx_cong:
  "(\<And>a. a \<in> set (caddrs fs) \<Longrightarrow> h' a = h a) \<Longrightarrow> rep_ctx h' nil fs p = rep_ctx h nil fs p"
  by (induction h nil fs p rule: rep_ctx.induct) (auto cong: rep_cong)

lemma rep_upd [simp]:
  "a \<notin> set (addrs t) \<Longrightarrow> rep (h(a \<mapsto> n)) nil par t = rep h nil par t"
  by (rule rep_cong) auto

lemma rep_ctx_upd [simp]:
  "a \<notin> set (caddrs fs) \<Longrightarrow> rep_ctx (h(a \<mapsto> n)) nil fs p = rep_ctx h nil fs p"
  by (rule rep_ctx_cong) auto

lemma rep_not_nil: "rep h nil par t \<Longrightarrow> nil \<notin> set (addrs t)"
  by (induction t arbitrary: par) auto

lemma rep_ctx_not_nil: "rep_ctx h nil fs p \<Longrightarrow> nil \<notin> set (caddrs fs)"
  by (induction h nil fs p rule: rep_ctx.induct) (auto dest: rep_not_nil)

lemma ptr_neq [simp]:
  "a \<notin> set (addrs t) \<Longrightarrow> a \<noteq> nil \<Longrightarrow> a \<noteq> ptr nil t"
  "a \<notin> set (addrs t) \<Longrightarrow> a \<noteq> nil \<Longrightarrow> ptr nil t \<noteq> a"
  by (cases t; auto)+

subsection \<open>The heap represents a tree\<close>

definition black_nil_at :: "node_heap \<Rightarrow> u64 \<Rightarrow> bool" where
  "black_nil_at h nil \<longleftrightarrow> color_at h nil = Some Black"

definition tree_at :: "node_heap \<Rightarrow> rb_tree \<Rightarrow> item tree \<Rightarrow> bool" where
  "tree_at h T t \<longleftrightarrow>
    rep h (rb_nil T) (rb_nil T) t \<and> rb_root T = ptr (rb_nil T) t \<and> distinct (addrs t) \<and>
    black_nil_at h (rb_nil T)"

text \<open>What an operation on a tree leaves alone: every node outside of the given
  addresses, the sentinel link and the number of nodes.\<close>

definition keeps :: "u64 set \<Rightarrow> node_heap \<Rightarrow> rb_tree \<Rightarrow> node_heap \<Rightarrow> rb_tree \<Rightarrow> bool" where
  "keeps A h T h' T' \<longleftrightarrow>
    (\<forall>a. a \<notin> A \<longrightarrow> h' a = h a) \<and> rb_nil T' = rb_nil T \<and> rb_count T' = rb_count T"

lemma keeps_refl [simp]: "keeps A h T h T"
  by (simp add: keeps_def)

lemma keeps_trans: "keeps A h T h' T' \<Longrightarrow> keeps A h' T' h'' T'' \<Longrightarrow> keeps A h T h'' T''"
  by (simp add: keeps_def)

lemma keeps_nil: "keeps A h T h' T' \<Longrightarrow> rb_nil T' = rb_nil T"
  by (simp add: keeps_def)

text \<open>Evaluation of the heap operations at an address that holds a node. The
  congruence rule evaluates a sequence of operations from the front.\<close>

lemma heap_eval:
  assumes "h p = Some n"
  shows "rd f h p = Some (f n)" "set_parent h p v = Some (h(p \<mapsto> n\<lparr>n_parent := v\<rparr>))"
    "set_left h p v = Some (h(p \<mapsto> n\<lparr>n_left := v\<rparr>))"
    "set_right h p v = Some (h(p \<mapsto> n\<lparr>n_right := v\<rparr>))"
    "color_at h p = Some (get_color (n_header n))"
    "paint h p c = Some (h(p \<mapsto> n\<lparr>n_header := set_color c (n_header n)\<rparr>))"
    "value_at h p = Some (hdr_value (n_header n))"
  using assms
  by (simp_all add: rd_def wr_def set_parent_def set_left_def set_right_def color_at_def
      paint_def value_at_def)

lemma grandparent_eval:
  "h p = Some n \<Longrightarrow> h (n_parent n) = Some m \<Longrightarrow> grandparent_of h p = Some (n_parent m)"
  by (simp add: grandparent_of_def rd_def)

lemma bind_front_cong: "a = b \<Longrightarrow> Option.bind a f = Option.bind b f"
  by simp

lemma color_at_upd [simp]: "p \<noteq> a \<Longrightarrow> color_at (h(a \<mapsto> n)) p = color_at h p"
  by (simp add: color_at_def rd_def)

lemmas eval_simps = heap_eval grandparent_eval

lemma tree_at_plug:
  "tree_at h T (plug fs t) \<longleftrightarrow>
    rep_ctx h (rb_nil T) fs (ptr (rb_nil T) t) \<and> rep h (rb_nil T) (cptr (rb_nil T) fs) t \<and>
    rb_root T = rootptr fs (ptr (rb_nil T) t) \<and> distinct (addrs (plug fs t)) \<and>
    black_nil_at h (rb_nil T)"
  by (auto simp: tree_at_def rep_plug ptr_plug)

lemma tree_at_count [simp]: "tree_at h (T\<lparr>rb_count := c\<rparr>) t = tree_at h T t"
  by (simp add: tree_at_def)

lemma rootptr_mem: "fs \<noteq> [] \<Longrightarrow> rootptr fs p \<in> set (caddrs fs)"
  by (induction fs p rule: rootptr.induct) (auto, (metis list.discI rootptr.simps(1))+)

lemma rootptr_indep: "fs \<noteq> [] \<Longrightarrow> rootptr fs p = rootptr fs q"
  by (induction fs p arbitrary: q rule: rootptr.induct) auto

lemma left_rotate_at:
  assumes "tree_at h T (plug fs (Node l c (Node m d r)))"
  shows "\<exists>h' T'. left_rotate h T (fst c) = Some (h', T') \<and>
    tree_at h' T' (plug fs (Node (Node l c m) d r)) \<and>
    keeps (set (addrs (plug fs (Node l c (Node m d r))))) h T h' T'"
proof (cases fs)
  case Nil
  then show ?thesis using assms
    by (cases m) (auto simp: tree_at_def left_rotate_def eval_simps keeps_def black_nil_at_def
      cong: bind_front_cong)
next
  case (Cons f fs')
  then show ?thesis using assms
    by (cases f; cases m) (auto simp: tree_at_plug left_rotate_def eval_simps keeps_def
      black_nil_at_def cong: bind_front_cong)
qed

subsection \<open>Mirroring\<close>

definition flip_node :: "node \<Rightarrow> node" where
  "flip_node n = n\<lparr>n_left := n_right n, n_right := n_left n\<rparr>"

definition mirror_heap :: "node_heap \<Rightarrow> node_heap" where
  "mirror_heap h = (\<lambda>p. map_option flip_node (h p))"

fun mirror_frame :: "frame \<Rightarrow> frame" where
  "mirror_frame (LeftF x r) = RightF (mirror r) x"
| "mirror_frame (RightF l x) = LeftF x (mirror l)"

lemma flip_node_simps [simp]:
  "n_left (flip_node n) = n_right n" "n_right (flip_node n) = n_left n"
  "n_parent (flip_node n) = n_parent n" "n_header (flip_node n) = n_header n"
  "flip_node (flip_node n) = n"
  by (simp_all add: flip_node_def)

lemma mirror_heap_mirror_heap [simp]: "mirror_heap (mirror_heap h) = h"
  by (simp add: mirror_heap_def option.map_comp comp_def option.map_ident)

lemma mirror_heap_ops [simp]:
  "rd n_left (mirror_heap h) p = rd n_right h p"
  "rd n_right (mirror_heap h) p = rd n_left h p"
  "rd n_parent (mirror_heap h) p = rd n_parent h p"
  "set_left (mirror_heap h) p v = map_option mirror_heap (set_right h p v)"
  "set_right (mirror_heap h) p v = map_option mirror_heap (set_left h p v)"
  "set_parent (mirror_heap h) p v = map_option mirror_heap (set_parent h p v)"
  "paint (mirror_heap h) p c = map_option mirror_heap (paint h p c)"
  "color_at (mirror_heap h) p = color_at h p"
  "grandparent_of (mirror_heap h) p = grandparent_of h p"
  by (cases "h p"; auto simp: rd_def wr_def set_left_def set_right_def set_parent_def paint_def
      color_at_def grandparent_of_def mirror_heap_def flip_node_def fun_eq_iff
      option.map_comp comp_def split: option.splits)+

lemma bind_map_option: "Option.bind (map_option f a) g = Option.bind a (\<lambda>x. g (f x))"
  by (cases a) auto

lemma map_option_bind': "map_option f (Option.bind a g) = Option.bind a (\<lambda>x. map_option f (g x))"
  by (cases a) auto

lemma option_if_distribs:
  "map_option f (if b then x else y) = (if b then map_option f x else map_option f y)"
  "Option.bind (if b then x else y) g = (if b then Option.bind x g else Option.bind y g)"
  by auto

lemmas mirror_prog_simps = bind_map_option map_option_bind' option_if_distribs split_beta

lemma left_rotate_mirror:
  "left_rotate (mirror_heap h) T c = map_option (apfst mirror_heap) (right_rotate h T c)"
  unfolding left_rotate_def right_rotate_def
  by (simp add: mirror_prog_simps cong: if_cong)

lemma right_rotate_mirror:
  "right_rotate (mirror_heap h) T c = map_option (apfst mirror_heap) (left_rotate h T c)"
  unfolding left_rotate_def right_rotate_def
  by (simp add: mirror_prog_simps cong: if_cong)

lemma ptr_mirror [simp]: "ptr nil (mirror t) = ptr nil t"
  by (cases t) auto

lemma set_addrs_mirror [simp]: "set (addrs (mirror t)) = set (addrs t)"
  by (simp add: addrs_def inorder_mirror)

lemma distinct_addrs_mirror [simp]: "distinct (addrs (mirror t)) = distinct (addrs t)"
  by (simp add: addrs_def inorder_mirror rev_map [symmetric])

lemma mirror_heap_Some: "mirror_heap h a = Some n \<longleftrightarrow> h a = Some (flip_node n)"
  by (auto simp: mirror_heap_def)

lemma rep_mirror: "rep (mirror_heap h) nil par (mirror t) = rep h nil par t"
  by (induction t arbitrary: par) (auto simp: mirror_heap_Some flip_node_def)

lemma mirror_plug: "mirror (plug fs t) = plug (map mirror_frame fs) (mirror t)"
  by (induction fs t rule: plug.induct) auto

lemma tree_at_mirror: "tree_at (mirror_heap h) T (mirror t) = tree_at h T t"
  by (simp add: tree_at_def rep_mirror black_nil_at_def)

lemma keeps_mirror: "keeps A (mirror_heap h) T (mirror_heap h') T' = keeps A h T h' T'"
proof -
  have "mirror_heap h' a = mirror_heap h a \<longleftrightarrow> h' a = h a" for a
    by (metis mirror_heap_def mirror_heap_mirror_heap)
  then show ?thesis by (simp add: keeps_def)
qed

lemma right_rotate_at:
  assumes "tree_at h T (plug fs (Node (Node l d m) c r))"
  shows "\<exists>h' T'. right_rotate h T (fst c) = Some (h', T') \<and>
    tree_at h' T' (plug fs (Node l d (Node m c r))) \<and>
    keeps (set (addrs (plug fs (Node (Node l d m) c r)))) h T h' T'"
proof -
  have "tree_at (mirror_heap h) T (mirror (plug fs (Node (Node l d m) c r)))"
    using assms by (simp only: tree_at_mirror)
  then have "tree_at (mirror_heap h) T
      (plug (map mirror_frame fs) (Node (mirror r) c (Node (mirror m) d (mirror l))))"
    by (simp add: mirror_plug)
  from left_rotate_at [OF this] obtain g T' where
    rot: "left_rotate (mirror_heap h) T (fst c) = Some (g, T')"
    and at: "tree_at g T' (mirror (plug fs (Node l d (Node m c r))))"
    and kp: "keeps (set (addrs (mirror (plug fs (Node (Node l d m) c r))))) (mirror_heap h) T g T'"
    by (auto simp: mirror_plug)
  have "right_rotate h T (fst c) = Some (mirror_heap g, T')"
    using rot unfolding left_rotate_mirror by auto
  moreover have "tree_at (mirror_heap g) T' (plug fs (Node l d (Node m c r)))"
    using at by (metis tree_at_mirror mirror_heap_mirror_heap)
  moreover have "keeps (set (addrs (plug fs (Node (Node l d m) c r)))) h T (mirror_heap g) T'"
    using kp by (metis keeps_mirror mirror_heap_mirror_heap set_addrs_mirror)
  ultimately show ?thesis by blast
qed

subsection \<open>Recolouring at a position\<close>

lemma paint_parent: "paint h p c = Some h' \<Longrightarrow> rd n_parent h' q = rd n_parent h q"
  by (auto simp: paint_def wr_def rd_def split: option.splits)

definition recol :: "node_color \<Rightarrow> item \<Rightarrow> item" where
  "recol c x = (fst x, set_color c (snd x))"

lemma recol_simps [simp]:
  "fst (recol c x) = fst x" "snd (recol c x) = set_color c (snd x)"
  "recol c (recol d x) = recol c x"
  by (simp_all add: recol_def)

lemma recol_same [simp]: "get_color (snd x) = c \<Longrightarrow> recol c x = x"
  by (metis recol_def set_color_get_color prod.collapse)

lemma ptr_recol [simp]: "ptr nil (Node l (recol c x) r) = ptr nil (Node l x r)"
  by simp

lemma paint_at:
  assumes "tree_at h T (plug fs (Node l x r))"
  shows "\<exists>h'. paint h (fst x) c = Some h' \<and> tree_at h' T (plug fs (Node l (recol c x) r)) \<and>
    keeps (set (addrs (plug fs (Node l x r)))) h T h' T"
  using assms
  by (auto simp: tree_at_plug eval_simps keeps_def black_nil_at_def)

lemma read_at:
  assumes "tree_at h T (plug fs (Node l x r))"
  shows "h (fst x) = Some \<lparr>n_header = snd x, n_parent = cptr (rb_nil T) fs,
      n_left = ptr (rb_nil T) l, n_right = ptr (rb_nil T) r\<rparr>" "fst x \<noteq> rb_nil T"
  using assms by (auto simp: tree_at_plug)

text \<open>The entries of a tree: its addresses in order, each with its header up to the
  colour.\<close>

definition entry :: "item \<Rightarrow> item" where
  "entry x = recol Black x"

definition entries :: "item tree \<Rightarrow> item list" where
  "entries t = map entry (inorder t)"

lemma entry_recol [simp]: "entry (recol c x) = entry x"
  by (simp add: entry_def)

lemma entry_value [simp]: "hdr_value (snd (entry x)) = hdr_value (snd x)" "fst (entry x) = fst x"
  by (simp_all add: entry_def)

lemma entries_simps [simp]:
  "entries Leaf = []" "entries (Node l x r) = entries l @ entry x # entries r"
  by (simp_all add: entries_def)

lemma entries_plug: "entries (plug fs t) = map entry (pre fs) @ entries t @ map entry (post fs)"
  by (simp add: entries_def inorder_plug)

lemma addrs_entries: "map fst (entries t) = addrs t"
  by (simp add: entries_def addrs_def)

lemma entries_eq_addrs: "entries t = entries u \<Longrightarrow> addrs t = addrs u"
  by (metis addrs_entries)

subsection \<open>The red-black invariant\<close>

abbreviation icol :: "item \<Rightarrow> node_color" where
  "icol x \<equiv> get_color (snd x)"

fun tcol :: "item tree \<Rightarrow> node_color" where
  "tcol Leaf = Black"
| "tcol (Node l x r) = icol x"

fun bh :: "item tree \<Rightarrow> nat" where
  "bh Leaf = 0"
| "bh (Node l x r) = bh l + (if icol x = Black then 1 else 0)"

text \<open>No red node has a red child; the paths below a node have equally many black
  nodes.\<close>

fun invc :: "item tree \<Rightarrow> bool" where
  "invc Leaf = True"
| "invc (Node l x r) \<longleftrightarrow>
    (icol x = Red \<longrightarrow> tcol l = Black \<and> tcol r = Black) \<and> invc l \<and> invc r"

fun invh :: "item tree \<Rightarrow> bool" where
  "invh Leaf = True"
| "invh (Node l x r) \<longleftrightarrow> bh l = bh r \<and> invh l \<and> invh r"

definition rb_inv :: "item tree \<Rightarrow> bool" where
  "rb_inv t \<longleftrightarrow> invc t \<and> invh t \<and> tcol t = Black"

fun ctx_col :: "frame list \<Rightarrow> node_color" where
  "ctx_col [] = Black"
| "ctx_col (LeftF x s # fs) = icol x"
| "ctx_col (RightF s x # fs) = icol x"

text \<open>The frames above a hole of the given black height: the invariant of everything
  outside of the hole.\<close>

fun ctx_inv :: "frame list \<Rightarrow> nat \<Rightarrow> bool" where
  "ctx_inv [] n = True"
| "ctx_inv (LeftF x s # fs) n \<longleftrightarrow>
    invc s \<and> invh s \<and> bh s = n \<and>
    (icol x = Red \<longrightarrow> tcol s = Black \<and> ctx_col fs = Black \<and> fs \<noteq> []) \<and>
    ctx_inv fs (n + (if icol x = Black then 1 else 0))"
| "ctx_inv (RightF s x # fs) n \<longleftrightarrow>
    invc s \<and> invh s \<and> bh s = n \<and>
    (icol x = Red \<longrightarrow> tcol s = Black \<and> ctx_col fs = Black \<and> fs \<noteq> []) \<and>
    ctx_inv fs (n + (if icol x = Black then 1 else 0))"

lemma not_Red [simp]: "c \<noteq> Red \<longleftrightarrow> c = Black" "c \<noteq> Black \<longleftrightarrow> c = Red"
  by (cases c; simp)+

lemma rb_inv_plug:
  "rb_inv (plug fs t) \<longleftrightarrow>
    ctx_inv fs (bh t) \<and> invc t \<and> invh t \<and> (ctx_col fs = Red \<longrightarrow> tcol t = Black) \<and>
    (fs = [] \<longrightarrow> tcol t = Black)"
  by (induction fs t rule: plug.induct) (auto simp: rb_inv_def)

lemma color_at_ptr:
  "rep h nil par t \<Longrightarrow> black_nil_at h nil \<Longrightarrow> color_at h (ptr nil t) = Some (tcol t)"
  by (cases t) (auto simp: black_nil_at_def eval_simps)

lemma color_at_cptr:
  "rep_ctx h nil fs p \<Longrightarrow> black_nil_at h nil \<Longrightarrow> color_at h (cptr nil fs) = Some (ctx_col fs)"
  by (cases fs rule: ctx_col.cases) (auto simp: black_nil_at_def eval_simps)

lemma plug_is_Node: "\<exists>l x r. plug fs (Node a n b) = Node l x r"
  by (induction fs "Node a n b" arbitrary: a n b rule: plug.induct) auto

lemma tcol_mirror [simp]: "tcol (mirror t) = tcol t"
  by (cases t) auto

abbreviation ivalue :: "item \<Rightarrow> u64" where
  "ivalue x \<equiv> hdr_value (snd x)"

definition sorted_tree :: "item tree \<Rightarrow> bool" where
  "sorted_tree t \<longleftrightarrow> sorted (map ivalue (inorder t))"

end
