(* ===== verification/Rb_Insert.thy ===== *)
theory Rb_Insert
  imports Rb_Rep
begin

text \<open>
  Correctness of \<open>insert_node\<close>: one iteration of the repair loop on each shape of
  the surroundings of the new node, the loop by induction on the path to the
  root, and the descent to the place of insertion.
\<close>

subsection \<open>One iteration, the parent being a left child\<close>

lemma fix_insert_left_uncle_red:
  assumes "tree_at h T (plug fs (Node (Node l p r) g (Node u1 u u2)))"
    and "n = ptr (rb_nil T) l \<or> n = ptr (rb_nil T) r" "n \<noteq> rb_nil T" and "icol u = Red"
  shows "\<exists>h' T'. fix_insert_left h T n = Some (h', T', fst g) \<and>
    tree_at h' T' (plug fs (Node (Node l (recol Black p) r) (recol Red g)
      (Node u1 (recol Black u) u2))) \<and>
    keeps (set (addrs (plug fs (Node (Node l p r) g (Node u1 u u2))))) h T h' T'"
  using assms
  by (cases l; cases r)
     (auto simp: tree_at_plug fix_insert_left_def eval_simps keeps_def black_nil_at_def
      cong: bind_front_cong)

text \<open>Black parent, red grandparent, right rotation: the tail of the iteration that
  both remaining shapes share.\<close>

lemma recolor_rotate_right:
  assumes at: "tree_at h T (plug fs (Node (Node (Node a n b) p s) g u))"
  shows "\<exists>h1 h2 h' T'. paint h (fst p) Black = Some h1 \<and>
    grandparent_of h1 (fst n) = Some (fst g) \<and> paint h1 (fst g) Red = Some h2 \<and>
    grandparent_of h2 (fst n) = Some (fst g) \<and> right_rotate h2 T (fst g) = Some (h', T') \<and>
    tree_at h' T' (plug fs (Node (Node a n b) (recol Black p) (Node s (recol Red g) u))) \<and>
    keeps (set (addrs (plug fs (Node (Node (Node a n b) p s) g u)))) h T h' T'"
proof -
  let ?A = "set (addrs (plug fs (Node (Node (Node a n b) p s) g u)))"
  obtain h1 where 1: "paint h (fst p) Black = Some h1" "keeps ?A h T h1 T"
    "tree_at h1 T (plug fs (Node (Node (Node a n b) (recol Black p) s) g u))"
    using paint_at [of h T "LeftF g u # fs" "Node a n b" p s Black] at by auto
  obtain h2 where 2: "paint h1 (fst g) Red = Some h2" "keeps ?A h1 T h2 T"
    "tree_at h2 T (plug fs (Node (Node (Node a n b) (recol Black p) s) (recol Red g) u))"
    using paint_at [OF 1(3), of Red] by auto
  obtain h' T' where 3: "right_rotate h2 T (fst g) = Some (h', T')" "keeps ?A h2 T h' T'"
    "tree_at h' T' (plug fs (Node (Node a n b) (recol Black p) (Node s (recol Red g) u)))"
    using right_rotate_at [OF 2(3)] by auto
  have "grandparent_of h1 (fst n) = Some (fst g)" "grandparent_of h2 (fst n) = Some (fst g)"
    using 1(3) 2(3) by (auto simp: tree_at_plug eval_simps)
  moreover have "keeps ?A h T h' T'"
    using keeps_trans [OF keeps_trans [OF 1(2) 2(2)] 3(2)] .
  ultimately show ?thesis using 1(1) 2(1) 3(1,3) by blast
qed

lemma fix_insert_left_outer:
  assumes at: "tree_at h T (plug fs (Node (Node (Node a n b) p s) g u))" and u: "tcol u = Black"
  shows "\<exists>h' T'. fix_insert_left h T (fst n) = Some (h', T', fst n) \<and>
    tree_at h' T' (plug fs (Node (Node a n b) (recol Black p) (Node s (recol Red g) u))) \<and>
    keeps (set (addrs (plug fs (Node (Node (Node a n b) p s) g u)))) h T h' T'"
proof -
  have "color_at h (ptr (rb_nil T) u) = Some Black"
    using at u color_at_ptr by (auto simp: tree_at_plug)
  moreover note recolor_rotate_right [OF at]
  ultimately show ?thesis
    using at by (auto simp: tree_at_plug fix_insert_left_def eval_simps cong: bind_front_cong)
qed

lemma fix_insert_left_inner:
  assumes at: "tree_at h T (plug fs (Node (Node s p (Node a n b)) g u))" and u: "tcol u = Black"
  shows "\<exists>h' T'. fix_insert_left h T (fst n) = Some (h', T', fst p) \<and>
    tree_at h' T' (plug fs (Node (Node s p a) (recol Black n) (Node b (recol Red g) u))) \<and>
    keeps (set (addrs (plug fs (Node (Node s p (Node a n b)) g u)))) h T h' T'"
proof -
  let ?A = "set (addrs (plug fs (Node (Node s p (Node a n b)) g u)))"
  have c: "color_at h (ptr (rb_nil T) u) = Some Black"
    using at u color_at_ptr by (auto simp: tree_at_plug)
  obtain h1 T1 where 1: "left_rotate h T (fst p) = Some (h1, T1)" "keeps ?A h T h1 T1"
    "tree_at h1 T1 (plug fs (Node (Node (Node s p a) n b) g u))"
    using left_rotate_at [of h T "LeftF g u # fs" s p a n b] at by auto
  have p: "rd n_parent h1 (fst p) = Some (fst n)"
    using 1(3) by (auto simp: tree_at_plug eval_simps)
  have A: "set (addrs (plug fs (Node (Node (Node s p a) n b) g u))) = ?A" by auto
  from recolor_rotate_right [OF 1(3), unfolded A] obtain h2 h3 h' T' where 2:
    "paint h1 (fst n) Black = Some h2" "grandparent_of h2 (fst p) = Some (fst g)"
    "paint h2 (fst g) Red = Some h3" "grandparent_of h3 (fst p) = Some (fst g)"
    "right_rotate h3 T1 (fst g) = Some (h', T')" "keeps ?A h1 T1 h' T'"
    "tree_at h' T' (plug fs (Node (Node s p a) (recol Black n) (Node b (recol Red g) u)))"
    by blast
  have "fix_insert_left h T (fst n) = Some (h', T', fst p)"
    using at c 1(1) p 2(1-5)
    by (auto simp: tree_at_plug fix_insert_left_def eval_simps cong: bind_front_cong)
  then show ?thesis using 2(7) keeps_trans [OF 1(2) 2(6)] by blast
qed

subsection \<open>The parent being a right child\<close>

lemma recolor_by_grandparent:
  "do { p \<leftarrow> rd n_parent h n; h1 \<leftarrow> paint h p Black; gp \<leftarrow> grandparent_of h1 n;
        h2 \<leftarrow> paint h1 gp Red; gp \<leftarrow> grandparent_of h2 n; k h2 gp }
   = do { p \<leftarrow> rd n_parent h n; h1 \<leftarrow> paint h p Black; gp \<leftarrow> rd n_parent h1 p;
        h2 \<leftarrow> paint h1 gp Red; gp \<leftarrow> rd n_parent h2 p; k h2 gp }"
proof (cases "rd n_parent h n")
  case (Some p)
  then have "grandparent_of h1 n = rd n_parent h1 p" if "paint h p Black = Some h1" for h1
    using that by (simp add: grandparent_of_def paint_parent)
  moreover have "grandparent_of h2 n = rd n_parent h2 p"
    if "paint h p Black = Some h1" "paint h1 gp Red = Some h2" for h1 gp h2
    using that Some by (simp add: grandparent_of_def paint_parent)
  ultimately show ?thesis
    using Some by (simp cong: Option.bind_cong)
qed simp

lemma fix_insert_left_mirror:
  "fix_insert_left (mirror_heap h) T n = map_option (apfst mirror_heap) (fix_insert_right h T n)"
  unfolding fix_insert_left_def fix_insert_right_def recolor_by_grandparent
  by (simp add: mirror_prog_simps left_rotate_mirror right_rotate_mirror cong: if_cong)

lemma fix_insert_right_transport:
  assumes "\<exists>g T'. fix_insert_left (mirror_heap h) T n = Some (g, T', n') \<and>
    tree_at g T' (mirror t') \<and> keeps (set (addrs (mirror t))) (mirror_heap h) T g T'"
  shows "\<exists>h' T'. fix_insert_right h T n = Some (h', T', n') \<and> tree_at h' T' t' \<and>
    keeps (set (addrs t)) h T h' T'"
proof -
  obtain g T' where g: "fix_insert_left (mirror_heap h) T n = Some (g, T', n')"
    "tree_at g T' (mirror t')" "keeps (set (addrs (mirror t))) (mirror_heap h) T g T'"
    using assms by blast
  have "fix_insert_right h T n = Some (mirror_heap g, T', n')"
    using g(1) unfolding fix_insert_left_mirror by auto
  moreover have "tree_at (mirror_heap g) T' t'"
    using g(2) by (metis tree_at_mirror mirror_heap_mirror_heap)
  moreover have "keeps (set (addrs t)) h T (mirror_heap g) T'"
    using g(3) by (metis keeps_mirror mirror_heap_mirror_heap set_addrs_mirror)
  ultimately show ?thesis by blast
qed

lemma fix_insert_right_uncle_red:
  assumes "tree_at h T (plug fs (Node (Node u2 u u1) g (Node r p l)))"
    and "n = ptr (rb_nil T) l \<or> n = ptr (rb_nil T) r" "n \<noteq> rb_nil T" and "icol u = Red"
  shows "\<exists>h' T'. fix_insert_right h T n = Some (h', T', fst g) \<and>
    tree_at h' T' (plug fs (Node (Node u2 (recol Black u) u1) (recol Red g)
      (Node r (recol Black p) l))) \<and>
    keeps (set (addrs (plug fs (Node (Node u2 u u1) g (Node r p l))))) h T h' T'"
  by (rule fix_insert_right_transport)
     (use fix_insert_left_uncle_red [of "mirror_heap h" T "map mirror_frame fs" "mirror l" p
        "mirror r" g "mirror u1" u "mirror u2" n] assms
        tree_at_mirror [of h T "plug fs (Node (Node u2 u u1) g (Node r p l))"]
      in \<open>simp add: mirror_plug\<close>)

lemma fix_insert_right_outer:
  assumes "tree_at h T (plug fs (Node u g (Node s p (Node b n a))))" and "tcol u = Black"
  shows "\<exists>h' T'. fix_insert_right h T (fst n) = Some (h', T', fst n) \<and>
    tree_at h' T' (plug fs (Node (Node u (recol Red g) s) (recol Black p) (Node b n a))) \<and>
    keeps (set (addrs (plug fs (Node u g (Node s p (Node b n a)))))) h T h' T'"
  by (rule fix_insert_right_transport)
     (use fix_insert_left_outer [of "mirror_heap h" T "map mirror_frame fs" "mirror a" n "mirror b"
        p "mirror s" g "mirror u"] assms
        tree_at_mirror [of h T "plug fs (Node u g (Node s p (Node b n a)))"]
      in \<open>simp add: mirror_plug\<close>)

lemma fix_insert_right_inner:
  assumes "tree_at h T (plug fs (Node u g (Node (Node b n a) p s)))" and "tcol u = Black"
  shows "\<exists>h' T'. fix_insert_right h T (fst n) = Some (h', T', fst p) \<and>
    tree_at h' T' (plug fs (Node (Node u (recol Red g) b) (recol Black n) (Node a p s))) \<and>
    keeps (set (addrs (plug fs (Node u g (Node (Node b n a) p s))))) h T h' T'"
  by (rule fix_insert_right_transport)
     (use fix_insert_left_inner [of "mirror_heap h" T "map mirror_frame fs" "mirror s" p
        "mirror a" n "mirror b" g "mirror u"] assms
        tree_at_mirror [of h T "plug fs (Node u g (Node (Node b n a) p s))"]
      in \<open>simp add: mirror_plug\<close>)

subsection \<open>The repair loop\<close>

lemma fix_insert_step_left:
  assumes "tree_at h T (plug fs (Node (Node l p r) g u))" "n = ptr (rb_nil T) l \<or> n = ptr (rb_nil T) r"
    "n \<noteq> rb_nil T" "icol p = Red" "fix_insert_left h T n = Some (h1, T1, n1)"
  shows "fix_insert_rb_violation h T n = fix_insert_rb_violation h1 T1 n1"
  using assms
  by (subst fix_insert_rb_violation.simps, cases l; cases r)
     (auto simp: tree_at_plug eval_simps cong: bind_front_cong)

lemma fix_insert_step_right:
  assumes "tree_at h T (plug fs (Node u g (Node l p r)))" "n = ptr (rb_nil T) l \<or> n = ptr (rb_nil T) r"
    "n \<noteq> rb_nil T" "icol p = Red" "fix_insert_right h T n = Some (h1, T1, n1)"
  shows "fix_insert_rb_violation h T n = fix_insert_rb_violation h1 T1 n1"
  using assms
  by (subst fix_insert_rb_violation.simps, cases l; cases r)
     (auto simp: tree_at_plug eval_simps cong: bind_front_cong)

lemma fix_insert_stop:
  assumes at: "tree_at h T (plug fs (Node a n b))" and black: "ctx_col fs = Black"
    and inv: "ctx_inv fs (bh (Node a n b))" "invc (Node a n b)" "invh (Node a n b)"
  shows "\<exists>h' T' t'. fix_insert_rb_violation h T (fst n) = Some (h', T') \<and> tree_at h' T' t' \<and>
    rb_inv t' \<and> entries t' = entries (plug fs (Node a n b)) \<and>
    keeps (set (addrs (plug fs (Node a n b)))) h T h' T'"
proof -
  obtain l x r where t: "plug fs (Node a n b) = Node l x r"
    using plug_is_Node by blast
  obtain h' where h': "paint h (fst x) Black = Some h'" "tree_at h' T (Node l (recol Black x) r)"
    "keeps (set (addrs (Node l x r))) h T h' T"
    using paint_at [of h T "[]" l x r Black] at t by auto
  have root: "rb_root T = fst x"
    using at t by (simp add: tree_at_def)
  have "rb_inv (Node l (recol Black x) r)"
  proof (cases "fs = []")
    case True
    then have "invc (Node l x r)" "invh (Node l x r)" using inv t by auto
    then show ?thesis by (simp add: rb_inv_def)
  next
    case False
    then have "rb_inv (Node l x r)" using inv black t by (simp add: rb_inv_plug flip: t)
    then show ?thesis by (simp add: rb_inv_def)
  qed
  moreover have "fix_insert_rb_violation h T (fst n) = Some (h', T)"
    using at black h'(1) root color_at_cptr
    by (subst fix_insert_rb_violation.simps)
       (auto simp: tree_at_plug eval_simps cong: bind_front_cong)
  ultimately show ?thesis using h' t by auto
qed

text \<open>One iteration below a red parent moves the red node at least one frame up.\<close>

definition insert_progress ::
  "node_heap \<Rightarrow> rb_tree \<Rightarrow> frame list \<Rightarrow> item tree \<Rightarrow> item \<Rightarrow> item tree \<Rightarrow> bool" where
  "insert_progress h T fs a n b \<longleftrightarrow> (\<exists>h1 T1 fs1 a1 n1 b1.
     fix_insert_rb_violation h T (fst n) = fix_insert_rb_violation h1 T1 (fst n1) \<and>
     tree_at h1 T1 (plug fs1 (Node a1 n1 b1)) \<and>
     keeps (set (addrs (plug fs (Node a n b)))) h T h1 T1 \<and>
     length fs1 < length fs \<and> icol n1 = Red \<and> invc (Node a1 n1 b1) \<and> invh (Node a1 n1 b1) \<and>
     ctx_inv fs1 (bh a1) \<and> entries (plug fs1 (Node a1 n1 b1)) = entries (plug fs (Node a n b)))"

lemma insert_progressI:
  assumes "fix_insert_rb_violation h T (fst n) = fix_insert_rb_violation h1 T1 (fst n1)"
    "tree_at h1 T1 (plug fs1 (Node a1 n1 b1))"
    "keeps (set (addrs (plug fs (Node a n b)))) h T h1 T1"
    "length fs1 < length fs" "icol n1 = Red" "invc (Node a1 n1 b1)" "invh (Node a1 n1 b1)"
    "ctx_inv fs1 (bh a1)" "entries (plug fs1 (Node a1 n1 b1)) = entries (plug fs (Node a n b))"
  shows "insert_progress h T fs a n b"
  using assms unfolding insert_progress_def by blast

lemma insert_progress_left:
  assumes at: "tree_at h T (plug (f # LeftF g u # fs) (Node a n b))"
    and red: "icol n = Red" "ctx_col [f] = Red"
    and inv: "invc (Node a n b)" "invh (Node a n b)" "ctx_inv (f # LeftF g u # fs) (bh a)"
  shows "insert_progress h T (f # LeftF g u # fs) a n b"
proof (cases "tcol u")
  case Red
  then obtain u1 x u2 where u: "u = Node u1 x u2" "icol x = Red" by (cases u) auto
  show ?thesis
  proof (cases f)
    case (LeftF p s)
    obtain h1 T1 where 1: "fix_insert_left h T (fst n) = Some (h1, T1, fst g)"
      "tree_at h1 T1 (plug fs (Node (Node (Node a n b) (recol Black p) s) (recol Red g)
        (Node u1 (recol Black x) u2)))"
      "keeps (set (addrs (plug (f # LeftF g u # fs) (Node a n b)))) h T h1 T1"
      using fix_insert_left_uncle_red [of h T fs "Node a n b" p s g u1 x u2 "fst n"] at u LeftF
        read_at(2) [OF at] by auto
    show ?thesis
      by (rule insert_progressI [OF _ 1(2,3)],
          use fix_insert_step_left [of h T fs "Node a n b" p s g u "fst n" h1 T1 "fst g"]
            at u LeftF 1(1) red inv read_at(2) [OF at] in \<open>auto simp: entries_plug\<close>)
  next
    case (RightF s p)
    obtain h1 T1 where 1: "fix_insert_left h T (fst n) = Some (h1, T1, fst g)"
      "tree_at h1 T1 (plug fs (Node (Node s (recol Black p) (Node a n b)) (recol Red g)
        (Node u1 (recol Black x) u2)))"
      "keeps (set (addrs (plug (f # LeftF g u # fs) (Node a n b)))) h T h1 T1"
      using fix_insert_left_uncle_red [of h T fs s p "Node a n b" g u1 x u2 "fst n"] at u RightF
        read_at(2) [OF at] by auto
    show ?thesis
      by (rule insert_progressI [OF _ 1(2,3)],
          use fix_insert_step_left [of h T fs s p "Node a n b" g u "fst n" h1 T1 "fst g"]
            at u RightF 1(1) red inv read_at(2) [OF at] in \<open>auto simp: entries_plug\<close>)
  qed
next
  case Black
  show ?thesis
  proof (cases f)
    case (LeftF p s)
    obtain h1 T1 where 1: "fix_insert_left h T (fst n) = Some (h1, T1, fst n)"
      "tree_at h1 T1 (plug (LeftF (recol Black p) (Node s (recol Red g) u) # fs) (Node a n b))"
      "keeps (set (addrs (plug (f # LeftF g u # fs) (Node a n b)))) h T h1 T1"
      using fix_insert_left_outer [of h T fs a n b p s g u] at Black LeftF by auto
    show ?thesis
      by (rule insert_progressI [OF _ 1(2,3)],
          use fix_insert_step_left [of h T fs "Node a n b" p s g u "fst n" h1 T1 "fst n"]
            at Black LeftF 1(1) red inv read_at(2) [OF at] in \<open>auto simp: entries_plug\<close>)
  next
    case (RightF s p)
    obtain h1 T1 where 1: "fix_insert_left h T (fst n) = Some (h1, T1, fst p)"
      "tree_at h1 T1 (plug (LeftF (recol Black n) (Node b (recol Red g) u) # fs) (Node s p a))"
      "keeps (set (addrs (plug (f # LeftF g u # fs) (Node a n b)))) h T h1 T1"
      using fix_insert_left_inner [of h T fs s p a n b g u] at Black RightF by auto
    show ?thesis
      by (rule insert_progressI [OF _ 1(2,3)],
          use fix_insert_step_left [of h T fs s p "Node a n b" g u "fst n" h1 T1 "fst p"]
            at Black RightF 1(1) red inv read_at(2) [OF at] in \<open>auto simp: entries_plug\<close>)
  qed
qed

lemma insert_progress_right:
  assumes at: "tree_at h T (plug (f # RightF u g # fs) (Node a n b))"
    and red: "icol n = Red" "ctx_col [f] = Red"
    and inv: "invc (Node a n b)" "invh (Node a n b)" "ctx_inv (f # RightF u g # fs) (bh a)"
  shows "insert_progress h T (f # RightF u g # fs) a n b"
proof (cases "tcol u")
  case Red
  then obtain u1 x u2 where u: "u = Node u1 x u2" "icol x = Red" by (cases u) auto
  show ?thesis
  proof (cases f)
    case (RightF s p)
    obtain h1 T1 where 1: "fix_insert_right h T (fst n) = Some (h1, T1, fst g)"
      "tree_at h1 T1 (plug fs (Node (Node u1 (recol Black x) u2) (recol Red g)
        (Node s (recol Black p) (Node a n b))))"
      "keeps (set (addrs (plug (f # RightF u g # fs) (Node a n b)))) h T h1 T1"
      using fix_insert_right_uncle_red [of h T fs u1 x u2 g s p "Node a n b" "fst n"] at u RightF
        read_at(2) [OF at] by auto
    show ?thesis
      by (rule insert_progressI [OF _ 1(2,3)],
          use fix_insert_step_right [of h T fs u g s p "Node a n b" "fst n" h1 T1 "fst g"]
            at u RightF 1(1) red inv read_at(2) [OF at] in \<open>auto simp: entries_plug\<close>)
  next
    case (LeftF p s)
    obtain h1 T1 where 1: "fix_insert_right h T (fst n) = Some (h1, T1, fst g)"
      "tree_at h1 T1 (plug fs (Node (Node u1 (recol Black x) u2) (recol Red g)
        (Node (Node a n b) (recol Black p) s)))"
      "keeps (set (addrs (plug (f # RightF u g # fs) (Node a n b)))) h T h1 T1"
      using fix_insert_right_uncle_red [of h T fs u1 x u2 g "Node a n b" p s "fst n"] at u LeftF
        read_at(2) [OF at] by auto
    show ?thesis
      by (rule insert_progressI [OF _ 1(2,3)],
          use fix_insert_step_right [of h T fs u g "Node a n b" p s "fst n" h1 T1 "fst g"]
            at u LeftF 1(1) red inv read_at(2) [OF at] in \<open>auto simp: entries_plug\<close>)
  qed
next
  case Black
  show ?thesis
  proof (cases f)
    case (RightF s p)
    obtain h1 T1 where 1: "fix_insert_right h T (fst n) = Some (h1, T1, fst n)"
      "tree_at h1 T1 (plug (RightF (Node u (recol Red g) s) (recol Black p) # fs) (Node a n b))"
      "keeps (set (addrs (plug (f # RightF u g # fs) (Node a n b)))) h T h1 T1"
      using fix_insert_right_outer [of h T fs u g s p a n b] at Black RightF by auto
    show ?thesis
      by (rule insert_progressI [OF _ 1(2,3)],
          use fix_insert_step_right [of h T fs u g s p "Node a n b" "fst n" h1 T1 "fst n"]
            at Black RightF 1(1) red inv read_at(2) [OF at] in \<open>auto simp: entries_plug\<close>)
  next
    case (LeftF p s)
    obtain h1 T1 where 1: "fix_insert_right h T (fst n) = Some (h1, T1, fst p)"
      "tree_at h1 T1 (plug (RightF (Node u (recol Red g) a) (recol Black n) # fs) (Node b p s))"
      "keeps (set (addrs (plug (f # RightF u g # fs) (Node a n b)))) h T h1 T1"
      using fix_insert_right_inner [of h T fs u g a n b p s] at Black LeftF by auto
    show ?thesis
      by (rule insert_progressI [OF _ 1(2,3)],
          use fix_insert_step_right [of h T fs u g "Node a n b" p s "fst n" h1 T1 "fst p"]
            at Black LeftF 1(1) red inv read_at(2) [OF at] in \<open>auto simp: entries_plug\<close>)
  qed
qed

lemma fix_insert_loop:
  assumes "tree_at h T (plug fs (Node a n b))" "icol n = Red"
    "invc (Node a n b)" "invh (Node a n b)" "ctx_inv fs (bh a)"
  shows "\<exists>h' T' t'. fix_insert_rb_violation h T (fst n) = Some (h', T') \<and> tree_at h' T' t' \<and>
    rb_inv t' \<and> entries t' = entries (plug fs (Node a n b)) \<and>
    keeps (set (addrs (plug fs (Node a n b)))) h T h' T'"
  using assms
proof (induction "length fs" arbitrary: fs a n b h T rule: less_induct)
  case less
  show ?case
  proof (cases "ctx_col fs")
    case Black
    then show ?thesis using fix_insert_stop less.prems by simp
  next
    case Red
    then obtain f g fs' where fs: "fs = f # g # fs'"
      using less.prems(5) by (cases fs rule: ctx_col.cases; simp) (metis list.exhaust)+
    have red: "ctx_col [f] = Red" using Red fs by (cases f) auto
    have "insert_progress h T fs a n b"
      using insert_progress_left insert_progress_right less.prems red fs by (cases g) metis+
    then obtain h1 T1 fs1 a1 n1 b1 where
      step: "fix_insert_rb_violation h T (fst n) = fix_insert_rb_violation h1 T1 (fst n1)"
      and kp: "keeps (set (addrs (plug fs (Node a n b)))) h T h1 T1"
      and ent: "entries (plug fs1 (Node a1 n1 b1)) = entries (plug fs (Node a n b))"
      and rest: "length fs1 < length fs" "tree_at h1 T1 (plug fs1 (Node a1 n1 b1))"
        "icol n1 = Red" "invc (Node a1 n1 b1)" "invh (Node a1 n1 b1)" "ctx_inv fs1 (bh a1)"
      unfolding insert_progress_def by blast
    show ?thesis
      using less.hyps [OF rest] step kp ent entries_eq_addrs [OF ent] by (metis keeps_trans)
  qed
qed

subsection \<open>The place of insertion\<close>

fun descend :: "u64 \<Rightarrow> item tree \<Rightarrow> frame list \<Rightarrow> frame list" where
  "descend v Leaf fs = fs"
| "descend v (Node l x r) fs =
    (if v < ivalue x then descend v l (LeftF x r # fs) else descend v r (RightF l x # fs))"

lemma plug_descend [simp]: "plug (descend v t fs) Leaf = plug fs t"
  by (induction v t fs rule: descend.induct) auto

lemma insert_walk_descend:
  assumes "tree_at h T (plug fs t)"
  shows "insert_walk h (rb_nil T) v (ptr (rb_nil T) t) (cptr (rb_nil T) fs) =
    Some (cptr (rb_nil T) (descend v t fs))"
  using assms
proof (induction v t fs rule: descend.induct)
  case (1 v fs)
  then show ?case by (subst insert_walk.simps) simp
next
  case (2 v l x r fs)
  then show ?case
    by (subst insert_walk.simps) (auto simp: read_at eval_simps cong: bind_front_cong)
qed

fun dir_ok :: "u64 \<Rightarrow> frame list \<Rightarrow> bool" where
  "dir_ok v [] = True"
| "dir_ok v (LeftF x r # fs) = (v < ivalue x)"
| "dir_ok v (RightF l x # fs) = (\<not> v < ivalue x)"

lemma dir_ok_descend: "dir_ok v fs \<Longrightarrow> dir_ok v (descend v t fs)"
  by (induction v t fs rule: descend.induct) auto

lemma descend_split:
  assumes "sorted_tree (plug fs t)" "\<forall>x\<in>set (pre fs). ivalue x \<le> v" "\<forall>x\<in>set (post fs). v < ivalue x"
  shows "(\<forall>x\<in>set (pre (descend v t fs)). ivalue x \<le> v) \<and>
    (\<forall>x\<in>set (post (descend v t fs)). v < ivalue x)"
  using assms
proof (induction v t fs rule: descend.induct)
  case (2 v l x r fs)
  have lr: "\<forall>y\<in>set (inorder l). ivalue y \<le> ivalue x" "\<forall>y\<in>set (inorder r). ivalue x \<le> ivalue y"
    using 2(3) by (simp_all add: sorted_tree_def inorder_plug sorted_append ball_Un)
  show ?case
  proof (cases "v < ivalue x")
    case True
    then have "\<forall>y\<in>set (inorder r). v < ivalue y"
      using lr(2) by (simp add: order.strict_trans2 [OF True])
    then have "\<forall>y\<in>set (post (LeftF x r # fs)). v < ivalue y"
      using True 2(5) by (simp add: ball_Un)
    note 2(1) [OF True, unfolded plug.simps pre.simps, OF 2(3,4) this]
    then show ?thesis by (simp only: descend.simps if_P [OF True])
  next
    case False
    then have "\<forall>y\<in>set (inorder l). ivalue y \<le> v"
      using lr(1) by (simp add: order.trans [OF _ leI [OF False]])
    then have "\<forall>y\<in>set (pre (RightF l x # fs)). ivalue y \<le> v"
      using False 2(4) by (simp add: ball_Un not_less)
    note 2(2) [OF False, unfolded plug.simps post.simps, OF 2(3) this 2(5)]
    then show ?thesis by (simp only: descend.simps if_not_P [OF False])
  qed
qed simp

text \<open>The entries with a new one after those of at most its value.\<close>

definition insert_sorted :: "item \<Rightarrow> item list \<Rightarrow> item list" where
  "insert_sorted n xs = takeWhile (\<lambda>x. ivalue x \<le> ivalue n) xs @ n #
    dropWhile (\<lambda>x. ivalue x \<le> ivalue n) xs"

lemma insert_sorted_split:
  assumes "\<forall>x\<in>set xs. ivalue x \<le> ivalue n" "\<forall>x\<in>set ys. ivalue n < ivalue x"
  shows "insert_sorted n (xs @ ys) = xs @ n # ys"
proof -
  have "takeWhile (\<lambda>x. ivalue x \<le> ivalue n) ys = []" "dropWhile (\<lambda>x. ivalue x \<le> ivalue n) ys = ys"
    using assms(2) by (cases ys; auto)+
  then show ?thesis using assms(1) by (simp add: insert_sorted_def)
qed

lemma insert_sorted_simps:
  "insert_sorted n [] = [n]"
  "insert_sorted n (x # xs) =
    (if ivalue x \<le> ivalue n then x # insert_sorted n xs else n # x # xs)"
  by (simp_all add: insert_sorted_def)

lemma set_insert_sorted: "set (insert_sorted n xs) = insert n (set xs)"
  by (induction xs) (auto simp: insert_sorted_simps)

lemma sorted_insert_sorted:
  "sorted (map ivalue xs) \<Longrightarrow> sorted (map ivalue (insert_sorted n xs))"
proof (induction xs)
  case (Cons x xs)
  show ?case
  proof (cases "ivalue x \<le> ivalue n")
    case True
    then show ?thesis using Cons by (simp add: insert_sorted_simps set_insert_sorted)
  next
    case False
    then have "\<forall>y\<in>set xs. ivalue n \<le> ivalue y"
      using Cons.prems by auto
    then show ?thesis using False Cons.prems by (simp add: insert_sorted_simps)
  qed
qed (simp add: insert_sorted_simps)

subsection \<open>Insertion\<close>

lemma insert_node_link:
  assumes at: "tree_at h T (plug fs Leaf)" and n: "h n = Some nd" "n \<notin> set (caddrs fs)" "n \<noteq> rb_nil T"
    and walk: "insert_walk h (rb_nil T) (hdr_value (n_header nd)) (rb_root T) (rb_nil T) =
      Some (cptr (rb_nil T) fs)"
    and dir: "dir_ok (hdr_value (n_header nd)) fs"
  shows "\<exists>h1 T1. insert_node h T n = do {
      (h2, T2) \<leftarrow> fix_insert_rb_violation h1 T1 n; Some (h2, T2\<lparr>rb_count := rb_count T2 + 1\<rparr>) } \<and>
    tree_at h1 T1 (plug fs (Node Leaf (n, set_color Red (n_header nd)) Leaf)) \<and>
    keeps (insert n (set (caddrs fs))) h T h1 T1"
proof -
  let ?p = "cptr (rb_nil T) fs"
  let ?n0 = "nd\<lparr>n_parent := ?p\<rparr>"
  let ?n1 = "nd\<lparr>n_parent := ?p, n_left := rb_nil T, n_right := rb_nil T,
    n_header := set_color Red (n_header nd)\<rparr>"
  show ?thesis
  proof (cases fs rule: ctx_col.cases)
    case 1
    show ?thesis
      by (rule exI [of _ "h(n \<mapsto> ?n1)"], rule exI [of _ "T\<lparr>rb_root := n\<rparr>"])
         (use assms 1 in \<open>auto simp: insert_node_def tree_at_def eval_simps keeps_def
           black_nil_at_def cong: bind_front_cong\<close>)
  next
    case (2 x s fs')
    show ?thesis
      by (rule exI [of _ "h(n \<mapsto> ?n0, ?p \<mapsto> (the (h ?p))\<lparr>n_left := n\<rparr>, n \<mapsto> ?n1)"], rule exI [of _ T])
         (use assms 2 in \<open>auto simp: insert_node_def tree_at_plug eval_simps keeps_def
           black_nil_at_def cong: bind_front_cong\<close>)
  next
    case (3 s x fs')
    show ?thesis
      by (rule exI [of _ "h(n \<mapsto> ?n0, ?p \<mapsto> (the (h ?p))\<lparr>n_right := n\<rparr>, n \<mapsto> ?n1)"], rule exI [of _ T])
         (use assms 3 in \<open>auto simp: insert_node_def tree_at_plug eval_simps keeps_def
           black_nil_at_def cong: bind_front_cong\<close>)
  qed
qed

lemma insert_node_at:
  assumes at: "tree_at h T t" and inv: "rb_inv t" "sorted_tree t"
    and n: "h n = Some nd" "n \<notin> set (addrs t)" "n \<noteq> rb_nil T"
  shows "\<exists>h' T' t'. insert_node h T n = Some (h', T') \<and> tree_at h' T' t' \<and> rb_inv t' \<and>
    sorted_tree t' \<and> entries t' = insert_sorted (entry (n, n_header nd)) (entries t) \<and>
    rb_nil T' = rb_nil T \<and> rb_count T' = rb_count T + 1 \<and>
    (\<forall>a. a \<notin> insert n (set (addrs t)) \<longrightarrow> h' a = h a)"
proof -
  define v where "v = hdr_value (n_header nd)"
  define fs where "fs = descend v t []"
  define x where "x = (n, set_color Red (n_header nd))"
  have plug: "plug fs Leaf = t" by (simp add: fs_def)
  have addrs: "set (addrs t) = set (caddrs fs)" using addrs_plug_set [of fs Leaf] plug by simp
  have walk: "insert_walk h (rb_nil T) v (rb_root T) (rb_nil T) = Some (cptr (rb_nil T) fs)"
    using insert_walk_descend [of h T "[]" t v] at by (simp add: fs_def tree_at_def)
  have dir: "dir_ok v fs" by (simp add: fs_def dir_ok_descend)
  obtain h1 T1 where 1: "insert_node h T n = do {
      (h2, T2) \<leftarrow> fix_insert_rb_violation h1 T1 n; Some (h2, T2\<lparr>rb_count := rb_count T2 + 1\<rparr>) }"
    "tree_at h1 T1 (plug fs (Node Leaf x Leaf))" "keeps (insert n (set (caddrs fs))) h T h1 T1"
    using insert_node_link [of h T fs n nd] at plug n addrs walk dir by (auto simp: v_def x_def)
  have cinv: "ctx_inv fs (bh Leaf)" using inv(1) rb_inv_plug [of fs Leaf] plug by simp
  obtain h' T' t' where 2: "fix_insert_rb_violation h1 T1 n = Some (h', T')" "tree_at h' T' t'"
    "rb_inv t'" "entries t' = entries (plug fs (Node Leaf x Leaf))"
    "keeps (insert n (set (caddrs fs))) h1 T1 h' T'"
    using fix_insert_loop [OF 1(2)] cinv by (auto simp: x_def)
  have split: "(\<forall>y\<in>set (pre fs). ivalue y \<le> v) \<and> (\<forall>y\<in>set (post fs). v < ivalue y)"
    using descend_split [of "[]" t v] inv(2) by (simp add: fs_def)
  have ent: "entries t' = insert_sorted (entry (n, n_header nd)) (entries t)"
    using insert_sorted_split [of "map entry (pre fs)" "entry (n, n_header nd)" "map entry (post fs)"]
      split entries_plug [of fs Leaf] plug 2(4)
    by (simp add: entries_plug x_def v_def entry_def recol_def)
  have "sorted (map ivalue (entries t))"
    using inv(2) by (simp add: sorted_tree_def entries_def comp_def)
  then have "sorted (map ivalue (entries t'))"
    unfolding ent by (rule sorted_insert_sorted)
  then have "sorted_tree t'" by (simp add: sorted_tree_def entries_def comp_def)
  then show ?thesis
    using 1(1,3) 2 ent addrs by (auto simp: keeps_def)
qed

end
