(* ===== verification/Rb_Remove.thy ===== *)
theory Rb_Remove
  imports Rb_Rep
begin

text \<open>
  Correctness of \<open>remove_node\<close> and \<open>find_best_node_fit\<close>: the iterations of the
  repair loop at a position whose subtree lacks one black node, the loop by
  induction on the path to the root, the replacement of a node by its successor,
  and the search for the smallest sufficient value.
\<close>

subsection \<open>Positions of an extra black\<close>

text \<open>The position may be the sentinel; then its parent link must lead to the frame
  above, which is what \<open>swap_nodes\<close> establishes.\<close>

definition hole_at :: "node_heap \<Rightarrow> rb_tree \<Rightarrow> frame list \<Rightarrow> item tree \<Rightarrow> bool" where
  "hole_at h T fs t \<longleftrightarrow> tree_at h T (plug fs t) \<and>
    (t = Leaf \<longrightarrow> rd n_parent h (rb_nil T) = Some (cptr (rb_nil T) fs))"

lemma hole_at_tree: "hole_at h T fs t \<Longrightarrow> tree_at h T (plug fs t)"
  by (simp add: hole_at_def)

lemma hole_parent:
  assumes "hole_at h T fs t"
  shows "rd n_parent h (ptr (rb_nil T) t) = Some (cptr (rb_nil T) fs)"
  using assms by (cases t) (auto simp: hole_at_def tree_at_plug eval_simps)

lemma hole_color:
  assumes "hole_at h T fs t"
  shows "color_at h (ptr (rb_nil T) t) = Some (tcol t)"
  using assms color_at_ptr by (auto simp: hole_at_def tree_at_plug)

text \<open>An operation that keeps everything outside of the tree keeps the position.\<close>

lemma hole_atI:
  assumes "tree_at h' T' (plug fs' t)" "hole_at h T fs t" "keeps A h T h' T'"
    "rb_nil T \<notin> A" "cptr (rb_nil T) fs' = cptr (rb_nil T) fs"
  shows "hole_at h' T' fs' t"
  using assms by (auto simp: hole_at_def keeps_def rd_def)

lemma tree_at_nil: "tree_at h T t \<Longrightarrow> rb_nil T \<notin> set (addrs t)"
  by (auto simp: tree_at_def dest: rep_not_nil)

subsection \<open>One iteration, the position being a left child\<close>

lemma fix_remove_left_final_at:
  assumes hole: "hole_at h T (LeftF p (Node sl s (Node c z d)) # fs) t"
  shows "\<exists>h' T'. fix_remove_left_final h T (ptr (rb_nil T) t) (fst s) = Some (h', T', rb_root T') \<and>
    tree_at h' T' (plug fs (Node (Node t (recol Black p) sl) (recol (icol p) s)
      (Node c (recol Black z) d))) \<and>
    keeps (set (addrs (plug (LeftF p (Node sl s (Node c z d)) # fs) t))) h T h' T'"
proof -
  let ?fs = "LeftF p (Node sl s (Node c z d)) # fs"
  let ?A = "set (addrs (plug ?fs t))"
  note at = hole_at_tree [OF hole]
  have nil: "rb_nil T \<notin> ?A" using tree_at_nil [OF at] .
  obtain h1 where 1: "paint h (fst s) (icol p) = Some h1" "keeps ?A h T h1 T"
    "tree_at h1 T (plug (LeftF p (Node sl (recol (icol p) s) (Node c z d)) # fs) t)"
    using paint_at [of h T "RightF t p # fs" sl s "Node c z d" "icol p"] at by auto
  obtain h2 where 2: "paint h1 (fst p) Black = Some h2" "keeps ?A h1 T h2 T"
    "tree_at h2 T (plug (LeftF (recol Black p) (Node sl (recol (icol p) s) (Node c z d)) # fs) t)"
    using paint_at [of h1 T fs t p "Node sl (recol (icol p) s) (Node c z d)" Black] 1(3) by auto
  obtain h3 where 3: "paint h2 (fst z) Black = Some h3" "keeps ?A h2 T h3 T"
    "tree_at h3 T (plug (LeftF (recol Black p) (Node sl (recol (icol p) s)
      (Node c (recol Black z) d)) # fs) t)"
    using paint_at [of h2 T "RightF sl (recol (icol p) s) # RightF t (recol Black p) # fs" c z d Black]
      2(3) by auto
  obtain h' T' where 4: "left_rotate h3 T (fst p) = Some (h', T')" "keeps ?A h3 T h' T'"
    "tree_at h' T' (plug fs (Node (Node t (recol Black p) sl) (recol (icol p) s)
      (Node c (recol Black z) d)))"
    using left_rotate_at [of h3 T fs t "recol Black p" sl "recol (icol p) s" "Node c (recol Black z) d"]
      3(3) by auto
  have k2: "keeps ?A h T h2 T" using keeps_trans [OF 1(2) 2(2)] .
  have k3: "keeps ?A h T h3 T" using keeps_trans [OF k2 3(2)] .
  have par: "rd n_parent h (ptr (rb_nil T) t) = Some (fst p)"
    "rd n_parent h1 (ptr (rb_nil T) t) = Some (fst p)"
    "rd n_parent h3 (ptr (rb_nil T) t) = Some (fst p)"
    using hole_parent [OF hole] hole_parent [OF hole_atI [OF 1(3) hole 1(2) nil]]
      hole_parent [OF hole_atI [OF 3(3) hole k3 nil]] by auto
  have "fix_remove_left_final h T (ptr (rb_nil T) t) (fst s) = Some (h', T', rb_root T')"
    using at par 1(1) 2(1,3) 3(1) 4(1)
    by (auto simp: fix_remove_left_final_def tree_at_plug eval_simps cong: bind_front_cong)
  then show ?thesis using 4(3) keeps_trans [OF k3 4(2)] by blast
qed

lemma fix_remove_left_black_recolor:
  assumes hole: "hole_at h T (LeftF p (Node sl s sr) # fs) t"
    and black: "tcol sl = Black" "tcol sr = Black"
  shows "\<exists>h' T'. fix_remove_left_black h T (ptr (rb_nil T) t) (fst s) = Some (h', T', fst p) \<and>
    tree_at h' T' (plug fs (Node t p (Node sl (recol Red s) sr))) \<and>
    keeps (set (addrs (plug (LeftF p (Node sl s sr) # fs) t))) h T h' T'"
proof -
  let ?A = "set (addrs (plug (LeftF p (Node sl s sr) # fs) t))"
  note at = hole_at_tree [OF hole]
  obtain h1 where 1: "paint h (fst s) Red = Some h1" "keeps ?A h T h1 T"
    "tree_at h1 T (plug (LeftF p (Node sl (recol Red s) sr) # fs) t)"
    using paint_at [of h T "RightF t p # fs" sl s sr Red] at by auto
  have par: "rd n_parent h1 (ptr (rb_nil T) t) = Some (fst p)"
    using hole_parent [OF hole_atI [OF 1(3) hole 1(2) tree_at_nil [OF at]]] by simp
  have "color_at h (ptr (rb_nil T) sl) = Some Black" "color_at h (ptr (rb_nil T) sr) = Some Black"
    using at black color_at_ptr by (auto simp: tree_at_plug)
  then have "fix_remove_left_black h T (ptr (rb_nil T) t) (fst s) = Some (h1, T, fst p)"
    using at par 1(1)
    by (auto simp: fix_remove_left_black_def tree_at_plug eval_simps cong: bind_front_cong)
  then show ?thesis using 1 by auto
qed

lemma fix_remove_left_black_outer:
  assumes hole: "hole_at h T (LeftF p (Node sl s (Node c z d)) # fs) t" and red: "icol z = Red"
  shows "fix_remove_left_black h T (ptr (rb_nil T) t) (fst s) =
    fix_remove_left_final h T (ptr (rb_nil T) t) (fst s)"
proof -
  note at = hole_at_tree [OF hole]
  have "color_at h (ptr (rb_nil T) sl) = Some (tcol sl)" "color_at h (fst z) = Some Red"
    using at red color_at_ptr by (auto simp: tree_at_plug eval_simps)
  then show ?thesis
    using at by (auto simp: fix_remove_left_black_def tree_at_plug eval_simps cong: bind_front_cong)
qed

lemma fix_remove_left_black_inner:
  assumes hole: "hole_at h T (LeftF p (Node (Node a y b) s sr) # fs) t"
    and red: "icol y = Red" and black: "tcol sr = Black"
  shows "\<exists>h' T'. fix_remove_left_black h T (ptr (rb_nil T) t) (fst s) = Some (h', T', rb_root T') \<and>
    tree_at h' T' (plug fs (Node (Node t (recol Black p) a) (recol (icol p) y)
      (Node b (recol Black s) sr))) \<and>
    keeps (set (addrs (plug (LeftF p (Node (Node a y b) s sr) # fs) t))) h T h' T'"
proof -
  let ?A = "set (addrs (plug (LeftF p (Node (Node a y b) s sr) # fs) t))"
  let ?fs = "LeftF p (Node a (recol Black y) (Node b (recol Red s) sr)) # fs"
  note at = hole_at_tree [OF hole]
  have nil: "rb_nil T \<notin> ?A" using tree_at_nil [OF at] .
  obtain h1 where 1: "paint h (fst y) Black = Some h1" "keeps ?A h T h1 T"
    "tree_at h1 T (plug (RightF t p # fs) (Node (Node a (recol Black y) b) s sr))"
    using paint_at [of h T "LeftF s sr # RightF t p # fs" a y b Black] at by auto
  obtain h2 where 2: "paint h1 (fst s) Red = Some h2" "keeps ?A h1 T h2 T"
    "tree_at h2 T (plug (RightF t p # fs) (Node (Node a (recol Black y) b) (recol Red s) sr))"
    using paint_at [OF 1(3), of Red] by auto
  obtain h3 T3 where 3: "right_rotate h2 T (fst s) = Some (h3, T3)" "keeps ?A h2 T h3 T3"
    "tree_at h3 T3 (plug ?fs t)"
    using right_rotate_at [OF 2(3)] by auto
  have k: "keeps ?A h T h3 T3" using keeps_trans [OF keeps_trans [OF 1(2) 2(2)] 3(2)] .
  note [simp] = keeps_nil [OF k]
  have hole3: "hole_at h3 T3 ?fs t" using hole_atI [OF 3(3) hole k nil] by simp
  have A: "set (addrs (plug ?fs t)) = ?A" by auto
  obtain h' T' where 4: "fix_remove_left_final h3 T3 (ptr (rb_nil T) t) (fst y) = Some (h', T', rb_root T')"
    "tree_at h' T' (plug fs (Node (Node t (recol Black p) a) (recol (icol p) y)
      (Node b (recol Black s) sr)))" "keeps ?A h3 T3 h' T'"
    using fix_remove_left_final_at [OF hole3, unfolded A] by auto
  have "color_at h (fst y) = Some Red" "color_at h (ptr (rb_nil T) sr) = Some Black"
    "rd n_right h3 (fst p) = Some (fst y)"
    using at red black color_at_ptr 3(3) by (auto simp: tree_at_plug eval_simps)
  then have "fix_remove_left_black h T (ptr (rb_nil T) t) (fst s) = Some (h', T', rb_root T')"
    using at 1(1) 2(1) 3(1) 4(1) hole_parent [OF hole3]
    by (auto simp: fix_remove_left_black_def tree_at_plug eval_simps cong: bind_front_cong)
  then show ?thesis using 4(2) keeps_trans [OF k 4(3)] by blast
qed

lemma fix_remove_left_sibling_black:
  assumes "hole_at h T (LeftF p (Node sl s sr) # fs) t" and "icol s = Black"
  shows "fix_remove_left h T (ptr (rb_nil T) t) = fix_remove_left_black h T (ptr (rb_nil T) t) (fst s)"
  using hole_at_tree [OF assms(1)] hole_parent [OF assms(1)] assms(2)
  by (auto simp: fix_remove_left_def tree_at_plug eval_simps cong: bind_front_cong)

lemma fix_remove_left_sibling_red:
  assumes hole: "hole_at h T (LeftF p (Node (Node a y b) s sr) # fs) t" and red: "icol s = Red"
  shows "\<exists>h' T'. fix_remove_left h T (ptr (rb_nil T) t) =
      fix_remove_left_black h' T' (ptr (rb_nil T) t) (fst y) \<and>
    hole_at h' T' (LeftF (recol Red p) (Node a y b) # LeftF (recol Black s) sr # fs) t \<and>
    keeps (set (addrs (plug (LeftF p (Node (Node a y b) s sr) # fs) t))) h T h' T'"
proof -
  let ?A = "set (addrs (plug (LeftF p (Node (Node a y b) s sr) # fs) t))"
  let ?fs = "LeftF (recol Red p) (Node a y b) # LeftF (recol Black s) sr # fs"
  note at = hole_at_tree [OF hole]
  have nil: "rb_nil T \<notin> ?A" using tree_at_nil [OF at] .
  obtain h1 where 1: "paint h (fst s) Black = Some h1" "keeps ?A h T h1 T"
    "tree_at h1 T (plug (LeftF p (Node (Node a y b) (recol Black s) sr) # fs) t)"
    using paint_at [of h T "RightF t p # fs" "Node a y b" s sr Black] at by auto
  obtain h2 where 2: "paint h1 (fst p) Red = Some h2" "keeps ?A h1 T h2 T"
    "tree_at h2 T (plug (LeftF (recol Red p) (Node (Node a y b) (recol Black s) sr) # fs) t)"
    using paint_at [of h1 T fs t p "Node (Node a y b) (recol Black s) sr" Red] 1(3) by auto
  obtain h3 T3 where 3: "left_rotate h2 T (fst p) = Some (h3, T3)" "keeps ?A h2 T h3 T3"
    "tree_at h3 T3 (plug ?fs t)"
    using left_rotate_at [of h2 T fs t "recol Red p" "Node a y b" "recol Black s" sr] 2(3) by auto
  have k2: "keeps ?A h T h2 T" using keeps_trans [OF 1(2) 2(2)] .
  have k3: "keeps ?A h T h3 T3" using keeps_trans [OF k2 3(2)] .
  note [simp] = keeps_nil [OF k3]
  have hole3: "hole_at h3 T3 ?fs t" using hole_atI [OF 3(3) hole k3 nil] by simp
  have par: "rd n_parent h1 (ptr (rb_nil T) t) = Some (fst p)"
    "rd n_parent h2 (ptr (rb_nil T) t) = Some (fst p)"
    using hole_parent [OF hole_atI [OF 1(3) hole 1(2) nil]]
      hole_parent [OF hole_atI [OF 2(3) hole k2 nil]] by auto
  have y: "rd n_right h3 (fst p) = Some (fst y)"
    using 3(3) by (auto simp: tree_at_plug eval_simps)
  have "fix_remove_left h T (ptr (rb_nil T) t) = fix_remove_left_black h3 T3 (ptr (rb_nil T) t) (fst y)"
    using at hole_parent [OF hole] hole_parent [OF hole3] par y red 1(1) 2(1) 3(1)
    by (auto simp: fix_remove_left_def tree_at_plug eval_simps cong: bind_front_cong)
  then show ?thesis using hole3 k3 by blast
qed

text \<open>What one iteration achieves: either the deficit of the position is gone and the
  root is returned, or the deficit has moved to a node that is red or nearer to
  the root.\<close>

definition remove_done :: "node_heap \<Rightarrow> rb_tree \<Rightarrow> u64 \<Rightarrow> item list \<Rightarrow> bool" where
  "remove_done h T n es \<longleftrightarrow>
    (\<exists>t. n = rb_root T \<and> tree_at h T t \<and> rb_inv t \<and> entries t = es)"

definition remove_up :: "node_heap \<Rightarrow> rb_tree \<Rightarrow> u64 \<Rightarrow> nat \<Rightarrow> item list \<Rightarrow> bool" where
  "remove_up h T n k es \<longleftrightarrow>
    (\<exists>fs l p r. n = fst p \<and> tree_at h T (plug fs (Node l p r)) \<and> invc l \<and> invc r \<and>
      invh (Node l p r) \<and> ctx_inv fs (Suc (bh (Node l p r))) \<and>
      (icol p = Red \<or> length fs < k) \<and> entries (plug fs (Node l p r)) = es)"

definition remove_progress ::
  "node_heap \<Rightarrow> rb_tree \<Rightarrow> frame list \<Rightarrow> item tree \<Rightarrow>
   (node_heap \<times> rb_tree \<times> u64) option \<Rightarrow> bool" where
  "remove_progress h T fs t res \<longleftrightarrow> (\<exists>h1 T1 n1. res = Some (h1, T1, n1) \<and>
     keeps (set (addrs (plug fs t))) h T h1 T1 \<and>
     (remove_done h1 T1 n1 (entries (plug fs t)) \<or>
      remove_up h1 T1 n1 (length fs) (entries (plug fs t))))"

lemma remove_progress_root:
  assumes "\<exists>h1 T1. res = Some (h1, T1, rb_root T1) \<and> tree_at h1 T1 t1 \<and> keeps A h T h1 T1"
    "rb_inv t1" "entries t1 = entries (plug fs0 t)"
    "keeps (set (addrs (plug fs0 t))) h0 T0 h T" "A = set (addrs (plug fs0 t))"
  shows "remove_progress h0 T0 fs0 t res"
proof -
  obtain h1 T1 where 1: "res = Some (h1, T1, rb_root T1)" "tree_at h1 T1 t1" "keeps A h T h1 T1"
    using assms(1) by blast
  have "keeps (set (addrs (plug fs0 t))) h0 T0 h1 T1"
    using keeps_trans [OF assms(4)] 1(3) assms(5) by simp
  moreover have "remove_done h1 T1 (rb_root T1) (entries (plug fs0 t))"
    using 1(2) assms(2,3) unfolding remove_done_def by blast
  ultimately show ?thesis using 1(1) unfolding remove_progress_def by blast
qed

lemma remove_progress_up:
  assumes "\<exists>h1 T1. res = Some (h1, T1, fst p) \<and> tree_at h1 T1 (plug fs1 (Node l p r)) \<and>
      keeps A h T h1 T1"
    "invc l" "invc r" "invh (Node l p r)" "ctx_inv fs1 (Suc (bh (Node l p r)))"
    "icol p = Red \<or> length fs1 < length fs0"
    "entries (plug fs1 (Node l p r)) = entries (plug fs0 t)"
    "keeps (set (addrs (plug fs0 t))) h0 T0 h T" "A = set (addrs (plug fs0 t))"
  shows "remove_progress h0 T0 fs0 t res"
proof -
  obtain h1 T1 where 1: "res = Some (h1, T1, fst p)" "tree_at h1 T1 (plug fs1 (Node l p r))"
    "keeps A h T h1 T1"
    using assms(1) by blast
  have "keeps (set (addrs (plug fs0 t))) h0 T0 h1 T1"
    using keeps_trans [OF assms(8)] 1(3) assms(9) by simp
  moreover have "remove_up h1 T1 (fst p) (length fs0) (entries (plug fs0 t))"
    using 1(2) assms(2-7) unfolding remove_up_def by blast
  ultimately show ?thesis using 1(1) unfolding remove_progress_def by blast
qed

text \<open>The cases of a black sibling; the iteration began in the context \<open>fs0\<close>.\<close>

lemma fix_remove_left_black_progress:
  assumes hole: "hole_at h T (LeftF p (Node sl s sr) # fs) t"
    and inv: "ctx_inv (LeftF p (Node sl s sr) # fs) (Suc (bh t))" "invc t" "invh t" "tcol t = Black"
    and s: "icol s = Black"
    and base: "keeps (set (addrs (plug fs0 t))) h0 T0 h T" "icol p = Red \<or> length fs < length fs0"
      "entries (plug fs0 t) = entries (plug (LeftF p (Node sl s sr) # fs) t)"
  shows "remove_progress h0 T0 fs0 t (fix_remove_left_black h T (ptr (rb_nil T) t) (fst s))"
proof (cases "tcol sr")
  note A = arg_cong [OF entries_eq_addrs [OF base(3)], of set]
  case Red
  then obtain c z d where sr: "sr = Node c z d" "icol z = Red" by (cases sr) auto
  note hole' = hole [unfolded sr(1)]
  show ?thesis
    unfolding sr(1) fix_remove_left_black_outer [OF hole' sr(2)]
    by (rule remove_progress_root [OF fix_remove_left_final_at [OF hole'] _ _ base(1)])
       (use inv sr s base(3) A in \<open>auto simp: rb_inv_plug entries_plug\<close>)
next
  note A = arg_cong [OF entries_eq_addrs [OF base(3)], of set]
  case Black
  note srb = this
  show ?thesis
  proof (cases "tcol sl")
    case Red
    then obtain a y b where sl: "sl = Node a y b" "icol y = Red" by (cases sl) auto
    show ?thesis
      by (rule remove_progress_root
            [OF fix_remove_left_black_inner [OF hole [unfolded sl(1)] sl(2) srb] _ _ base(1)])
         (use inv sl srb s base(3) A in \<open>auto simp: rb_inv_plug entries_plug\<close>)
  next
    case Black
    show ?thesis
      by (rule remove_progress_up
            [OF fix_remove_left_black_recolor [OF hole Black srb] _ _ _ _ _ _ base(1)])
         (use inv Black srb s base(2,3) A in \<open>auto simp: entries_plug\<close>)
  qed
qed

lemma fix_remove_left_progress:
  assumes hole: "hole_at h T (LeftF p u # fs) t"
    and inv: "ctx_inv (LeftF p u # fs) (Suc (bh t))" "invc t" "invh t" "tcol t = Black"
  shows "remove_progress h T (LeftF p u # fs) t (fix_remove_left h T (ptr (rb_nil T) t))"
proof -
  obtain sl s sr where u: "u = Node sl s sr" using inv(1) by (cases u) auto
  show ?thesis
  proof (cases "icol s")
    case Black
    show ?thesis
      unfolding u fix_remove_left_sibling_black [OF hole [unfolded u] Black]
      by (rule fix_remove_left_black_progress [OF hole [unfolded u] inv(1) [unfolded u] inv(2-4) Black])
         simp_all
  next
    case Red
    then obtain a y b where sl: "sl = Node a y b" "icol y = Black"
      using inv(1) u by (cases sl) auto
    obtain h1 T1 where 1: "fix_remove_left h T (ptr (rb_nil T) t) =
        fix_remove_left_black h1 T1 (ptr (rb_nil T) t) (fst y)"
      "hole_at h1 T1 (LeftF (recol Red p) (Node a y b) # LeftF (recol Black s) sr # fs) t"
      "keeps (set (addrs (plug (LeftF p u # fs) t))) h T h1 T1"
      using fix_remove_left_sibling_red [OF hole [unfolded u sl(1)] Red] u sl(1) by blast
    have "remove_progress h T (LeftF p u # fs) t
        (fix_remove_left_black h1 T1 (ptr (rb_nil T1) t) (fst y))"
      by (rule fix_remove_left_black_progress [OF 1(2) _ inv(2-4) sl(2) 1(3)])
         (use inv u sl Red in \<open>auto simp: entries_plug\<close>)
    then show ?thesis using 1(1) keeps_nil [OF 1(3)] by simp
  qed
qed

subsection \<open>The position being a right child\<close>

lemma bh_mirror: "invh t \<Longrightarrow> bh (mirror t) = bh t"
  by (induction t) auto

lemma invh_mirror [simp]: "invh (mirror t) = invh t"
  by (induction t) (auto simp: bh_mirror)

lemma invc_mirror [simp]: "invc (mirror t) = invc t"
  by (induction t) auto

lemma rb_inv_mirror [simp]: "rb_inv (mirror t) = rb_inv t"
  by (simp add: rb_inv_def)

lemma ctx_col_mirror [simp]: "ctx_col (map mirror_frame fs) = ctx_col fs"
  by (cases fs rule: ctx_col.cases) auto

lemma ctx_inv_mirror [simp]: "ctx_inv (map mirror_frame fs) n = ctx_inv fs n"
  by (induction fs n rule: ctx_inv.induct) (auto simp: bh_mirror)

lemma cptr_mirror [simp]: "cptr nil (map mirror_frame fs) = cptr nil fs"
  by (cases fs rule: ctx_col.cases) auto

lemma entries_mirror: "entries (mirror t) = rev (entries t)"
  by (simp add: entries_def inorder_mirror rev_map)

lemma hole_at_mirror: "hole_at (mirror_heap h) T (map mirror_frame fs) (mirror t) = hole_at h T fs t"
  by (simp add: hole_at_def tree_at_mirror flip: mirror_plug)

lemma bind_swap:
  "Option.bind a (\<lambda>x. Option.bind b (\<lambda>y. k x y)) = Option.bind b (\<lambda>y. Option.bind a (\<lambda>x. k x y))"
  by (cases a; cases b) auto

lemma fix_remove_left_final_mirror:
  "fix_remove_left_final (mirror_heap h) T x s =
    map_option (apfst mirror_heap) (fix_remove_right_final h T x s)"
  unfolding fix_remove_left_final_def fix_remove_right_final_def
  by (simp add: mirror_prog_simps left_rotate_mirror right_rotate_mirror cong: if_cong)

lemma fix_remove_left_black_mirror:
  "fix_remove_left_black (mirror_heap h) T x s =
    map_option (apfst mirror_heap) (fix_remove_right_black h T x s)"
proof (cases "rd n_left h s"; cases "rd n_right h s")
  fix l r assume lr: "rd n_left h s = Some l" "rd n_right h s = Some r"
  show ?thesis
    by (cases "color_at h l"; cases "color_at h r")
       (simp_all add: fix_remove_left_black_def fix_remove_right_black_def lr mirror_prog_simps
          left_rotate_mirror right_rotate_mirror fix_remove_left_final_mirror conj_commute
          cong: if_cong)
qed (simp_all add: fix_remove_left_black_def fix_remove_right_black_def bind_eq_None_conv)

lemma fix_remove_left_mirror:
  "fix_remove_left (mirror_heap h) T x = map_option (apfst mirror_heap) (fix_remove_right h T x)"
  unfolding fix_remove_left_def fix_remove_right_def
  by (simp add: mirror_prog_simps left_rotate_mirror right_rotate_mirror
      fix_remove_left_black_mirror cong: if_cong)

lemma map_mirror_frame_inv [simp]: "map mirror_frame (map mirror_frame fs) = fs"
proof -
  have "mirror_frame (mirror_frame f) = f" for f by (cases f) auto
  then show ?thesis by (simp add: comp_def)
qed

lemma remove_done_mirror: "remove_done g T n es \<Longrightarrow> remove_done (mirror_heap g) T n (rev es)"
  unfolding remove_done_def
proof (elim exE conjE)
  fix t assume "n = rb_root T" "tree_at g T t" "rb_inv t" "entries t = es"
  then have "n = rb_root T \<and> tree_at (mirror_heap g) T (mirror t) \<and> rb_inv (mirror t) \<and>
    entries (mirror t) = rev es"
    by (simp add: tree_at_mirror entries_mirror)
  then show "\<exists>t. n = rb_root T \<and> tree_at (mirror_heap g) T t \<and> rb_inv t \<and> entries t = rev es"
    by blast
qed

lemma remove_up_mirror:
  assumes "remove_up g T n k es"
  shows "remove_up (mirror_heap g) T n k (rev es)"
proof -
  obtain fs l p r where up: "n = fst p" "tree_at g T (plug fs (Node l p r))" "invc l" "invc r"
    "invh (Node l p r)" "ctx_inv fs (Suc (bh (Node l p r)))" "icol p = Red \<or> length fs < k"
    "entries (plug fs (Node l p r)) = es"
    using assms unfolding remove_up_def by blast
  let ?fs = "map mirror_frame fs"
  have m: "mirror (plug fs (Node l p r)) = plug ?fs (Node (mirror r) p (mirror l))"
    by (simp add: mirror_plug)
  have "tree_at (mirror_heap g) T (plug ?fs (Node (mirror r) p (mirror l)))"
    "entries (plug ?fs (Node (mirror r) p (mirror l))) = rev es"
    using up(2,8) by (simp_all only: tree_at_mirror entries_mirror flip: m)
  moreover have "invc (mirror r)" "invc (mirror l)" "invh (Node (mirror r) p (mirror l))"
    "ctx_inv ?fs (Suc (bh (Node (mirror r) p (mirror l))))" "icol p = Red \<or> length ?fs < k"
    using up(3-7) by (auto simp: bh_mirror)
  ultimately show ?thesis using up(1) unfolding remove_up_def by blast
qed

lemma remove_progress_mirror:
  assumes "remove_progress (mirror_heap h) T (map mirror_frame fs) (mirror t)
    (map_option (apfst mirror_heap) res)"
  shows "remove_progress h T fs t res"
proof -
  obtain g1 T1 n1 where 1: "map_option (apfst mirror_heap) res = Some (g1, T1, n1)"
    "keeps (set (addrs (plug fs t))) (mirror_heap h) T g1 T1"
    "remove_done g1 T1 n1 (rev (entries (plug fs t))) \<or>
     remove_up g1 T1 n1 (length fs) (rev (entries (plug fs t)))"
    using assms unfolding remove_progress_def mirror_plug [symmetric] set_addrs_mirror
      entries_mirror length_map by blast
  have "res = Some (mirror_heap g1, T1, n1)" using 1(1) by auto
  moreover have "keeps (set (addrs (plug fs t))) h T (mirror_heap g1) T1"
    using 1(2) by (metis keeps_mirror mirror_heap_mirror_heap)
  moreover have "remove_done (mirror_heap g1) T1 n1 (entries (plug fs t)) \<or>
      remove_up (mirror_heap g1) T1 n1 (length fs) (entries (plug fs t))"
    using 1(3) remove_done_mirror [of g1 T1 n1 "rev (entries (plug fs t))"]
      remove_up_mirror [of g1 T1 n1 "length fs" "rev (entries (plug fs t))"] by auto
  ultimately show ?thesis unfolding remove_progress_def by blast
qed

lemma fix_remove_right_progress:
  assumes hole: "hole_at h T (RightF u p # fs) t"
    and inv: "ctx_inv (RightF u p # fs) (Suc (bh t))" "invc t" "invh t" "tcol t = Black"
  shows "remove_progress h T (RightF u p # fs) t (fix_remove_right h T (ptr (rb_nil T) t))"
proof -
  have "remove_progress (mirror_heap h) T (LeftF p (mirror u) # map mirror_frame fs) (mirror t)
      (fix_remove_left (mirror_heap h) T (ptr (rb_nil T) (mirror t)))"
  proof (rule fix_remove_left_progress)
    show "hole_at (mirror_heap h) T (LeftF p (mirror u) # map mirror_frame fs) (mirror t)"
      using hole hole_at_mirror [of h T "RightF u p # fs" t] by simp
    show "ctx_inv (LeftF p (mirror u) # map mirror_frame fs) (Suc (bh (mirror t)))"
      using inv by (auto simp: bh_mirror)
  qed (use inv in simp_all)
  then show ?thesis
    by - (rule remove_progress_mirror, simp add: fix_remove_left_mirror)
qed

subsection \<open>The repair loop\<close>

fun blk :: "item tree \<Rightarrow> item tree" where
  "blk Leaf = Leaf"
| "blk (Node l x r) = Node l (recol Black x) r"

lemma blk_black: "tcol t = Black \<Longrightarrow> blk t = t"
  by (cases t) auto

lemma entries_blk [simp]: "entries (blk t) = entries t"
  by (cases t) auto

lemma rb_inv_Leaf [simp]: "rb_inv Leaf"
  by (simp add: rb_inv_def)

lemma rb_inv_plug_blk:
  assumes "fs = [] \<or> tcol t = Red" "invc (blk t)" "invh t" "ctx_inv fs (Suc (bh t))"
  shows "rb_inv (plug fs (blk t))"
  using assms by (cases t) (auto simp: rb_inv_plug)

lemma paint_black_nil:
  assumes "black_nil_at h nil"
  shows "paint h nil Black = Some h"
proof -
  obtain n where n: "h nil = Some n" "get_color (n_header n) = Black"
    using assms by (auto simp: black_nil_at_def color_at_def rd_def)
  then have "n\<lparr>n_header := set_color Black (n_header n)\<rparr> = n"
    by (simp add: hdr.recolor_id_iff [THEN iffD2])
  then show ?thesis using n by (simp add: eval_simps fun_upd_idem)
qed

lemma fix_remove_stop:
  assumes at: "tree_at h T (plug fs t)" and stop: "fs = [] \<or> tcol t = Red"
  shows "\<exists>h'. fix_remove_rb_violation h T (ptr (rb_nil T) t) = Some (h', T) \<and>
    tree_at h' T (plug fs (blk t)) \<and> keeps (set (addrs (plug fs t))) h T h' T"
proof -
  obtain h' where h': "paint h (ptr (rb_nil T) t) Black = Some h'" "tree_at h' T (plug fs (blk t))"
    "keeps (set (addrs (plug fs t))) h T h' T"
  proof (cases t)
    case Leaf
    then show ?thesis using that [of h] at paint_black_nil by (simp add: tree_at_plug)
  next
    case (Node l x r)
    then show ?thesis using that paint_at [of h T fs l x r Black] at by auto
  qed
  have "color_at h (ptr (rb_nil T) t) = Some (tcol t)"
    using at color_at_ptr by (auto simp: tree_at_plug)
  then have "fix_remove_rb_violation h T (ptr (rb_nil T) t) = Some (h', T)"
    using at stop h'(1) by (subst fix_remove_rb_violation.simps) (auto simp: tree_at_plug)
  then show ?thesis using h' by blast
qed

lemma fix_remove_step:
  assumes hole: "hole_at h T (f # fs) t" and black: "tcol t = Black"
    and inv: "ctx_inv (f # fs) (Suc (bh t))" "invc t" "invh t"
  shows "\<exists>h1 T1 n1. fix_remove_rb_violation h T (ptr (rb_nil T) t) = fix_remove_rb_violation h1 T1 n1 \<and>
    remove_progress h T (f # fs) t (Some (h1, T1, n1))"
proof -
  let ?x = "ptr (rb_nil T) t"
  note at = hole_at_tree [OF hole]
  have root: "?x \<noteq> rb_root T"
  proof -
    have "rb_root T \<in> set (caddrs (f # fs))"
      using at rootptr_mem by (simp add: tree_at_plug del: plug.simps)
    then show ?thesis using at rep_ctx_not_nil
      by (cases t) (auto simp: tree_at_plug simp del: plug.simps set_caddrs_simps)
  qed
  show ?thesis
  proof (cases f)
    case (LeftF p u)
    have "rd n_left h (fst p) = Some ?x"
      using at LeftF by (auto simp: tree_at_plug eval_simps)
    moreover have prog: "remove_progress h T (f # fs) t (fix_remove_left h T ?x)"
      using fix_remove_left_progress hole inv black LeftF by simp
    moreover from this obtain h1 T1 n1 where res: "fix_remove_left h T ?x = Some (h1, T1, n1)"
      unfolding remove_progress_def by blast
    ultimately have "fix_remove_rb_violation h T ?x = fix_remove_rb_violation h1 T1 n1"
      using hole_parent [OF hole] hole_color [OF hole] black root LeftF
      by (subst fix_remove_rb_violation.simps) (simp cong: bind_front_cong)
    then show ?thesis using prog res by metis
  next
    case (RightF u p)
    have "rd n_left h (fst p) = Some (ptr (rb_nil T) u)"
      using at RightF by (auto simp: tree_at_plug eval_simps)
    moreover have "ptr (rb_nil T) u \<noteq> ?x"
      using at RightF inv(1) by (cases u; cases t) (auto simp: tree_at_plug)
    moreover have prog: "remove_progress h T (f # fs) t (fix_remove_right h T ?x)"
      using fix_remove_right_progress hole inv black RightF by simp
    moreover from this obtain h1 T1 n1 where res: "fix_remove_right h T ?x = Some (h1, T1, n1)"
      unfolding remove_progress_def by blast
    ultimately have "fix_remove_rb_violation h T ?x = fix_remove_rb_violation h1 T1 n1"
      using hole_parent [OF hole] hole_color [OF hole] black root RightF
      by (subst fix_remove_rb_violation.simps) (simp cong: bind_front_cong)
    then show ?thesis using prog res by metis
  qed
qed

lemma fix_remove_finish:
  assumes "tree_at h T (plug fs t)" "fs = [] \<or> tcol t = Red" "invc (blk t)" "invh t"
    "ctx_inv fs (Suc (bh t))"
  shows "\<exists>h' T' t'. fix_remove_rb_violation h T (ptr (rb_nil T) t) = Some (h', T') \<and>
    tree_at h' T' t' \<and> rb_inv t' \<and> entries t' = entries (plug fs t) \<and>
    keeps (set (addrs (plug fs t))) h T h' T'"
  using fix_remove_stop [OF assms(1,2)] rb_inv_plug_blk [OF assms(2-5)]
  by (metis entries_blk entries_plug)

lemma fix_remove_loop:
  assumes "hole_at h T fs t" "invc (blk t)" "invh t" "ctx_inv fs (Suc (bh t))"
  shows "\<exists>h' T' t'. fix_remove_rb_violation h T (ptr (rb_nil T) t) = Some (h', T') \<and>
    tree_at h' T' t' \<and> rb_inv t' \<and> entries t' = entries (plug fs t) \<and>
    keeps (set (addrs (plug fs t))) h T h' T'"
  using assms
proof (induction "length fs" arbitrary: fs t h T rule: less_induct)
  case less
  note at = hole_at_tree [OF less.prems(1)]
  show ?case
  proof (cases "fs = [] \<or> tcol t = Red")
    case True
    then show ?thesis using fix_remove_finish at less.prems by blast
  next
    case False
    then obtain f fs' where fs: "fs = f # fs'" and black: "tcol t = Black" by (cases fs) auto
    obtain h1 T1 n1 where
      step: "fix_remove_rb_violation h T (ptr (rb_nil T) t) = fix_remove_rb_violation h1 T1 n1"
      and prog: "remove_progress h T fs t (Some (h1, T1, n1))"
      using fix_remove_step less.prems black blk_black [OF black] fs by metis
    have kp: "keeps (set (addrs (plug fs t))) h T h1 T1"
      using prog by (auto simp: remove_progress_def)
    have chain: ?thesis
      if nxt: "\<exists>h' T' t'. fix_remove_rb_violation h1 T1 (ptr (rb_nil T1) t1) = Some (h', T') \<and>
          tree_at h' T' t' \<and> rb_inv t' \<and> entries t' = entries (plug fs1 t1) \<and>
          keeps (set (addrs (plug fs1 t1))) h1 T1 h' T'"
        and n1: "n1 = ptr (rb_nil T1) t1" and ent: "entries (plug fs1 t1) = entries (plug fs t)"
      for fs1 t1
      using nxt step n1 ent entries_eq_addrs [OF ent] keeps_trans [OF kp] by metis
    consider "remove_done h1 T1 n1 (entries (plug fs t))"
      | "remove_up h1 T1 n1 (length fs) (entries (plug fs t))"
      using prog by (auto simp: remove_progress_def)
    then show ?thesis
    proof cases
      case 1
      then obtain t1 where t1: "n1 = rb_root T1" "tree_at h1 T1 t1" "rb_inv t1"
        "entries t1 = entries (plug fs t)"
        unfolding remove_done_def by blast
      then show ?thesis
        using chain [of t1 "[]"] fix_remove_finish [of h1 T1 "[]" t1]
        by (simp add: rb_inv_def blk_black tree_at_def)
    next
      case 2
      then obtain fs1 l p r where up: "n1 = fst p" "tree_at h1 T1 (plug fs1 (Node l p r))"
        "invc l" "invc r" "invh (Node l p r)" "ctx_inv fs1 (Suc (bh (Node l p r)))"
        "icol p = Red \<or> length fs1 < length fs" "entries (plug fs1 (Node l p r)) = entries (plug fs t)"
        unfolding remove_up_def by blast
      let ?t = "Node l p r"
      have inv: "invc (blk ?t)" using up(3,4) by simp
      have hole: "hole_at h1 T1 fs1 ?t" using up(2) by (simp add: hole_at_def)
      show ?thesis
      proof (cases "icol p")
        case Red
        then show ?thesis
          using chain [of ?t fs1] fix_remove_finish [OF up(2) _ inv up(5,6)] up(1,8) by simp
      next
        case Black
        then have "length fs1 < length fs" using up(7) by simp
        then show ?thesis
          using chain [of ?t fs1] less.hyps [OF _ hole inv up(5,6)] up(1,8) by simp
      qed
    qed
  qed
qed

subsection \<open>Unlinking a node\<close>

lemma black_nil_upd:
  "black_nil_at (h(nil \<mapsto> n)) nil \<longleftrightarrow> get_color (n_header n) = Black"
  by (simp add: black_nil_at_def color_at_def rd_def)

lemma black_nilE:
  assumes "black_nil_at h nil"
  obtains nn where "h nil = Some nn" "get_color (n_header nn) = Black"
  using assms by (auto simp: black_nil_at_def color_at_def rd_def)

lemma swap_nodes_at:
  assumes at: "tree_at h T (plug fs (Node l z r))" and u: "l = Leaf \<and> u = r \<or> r = Leaf \<and> u = l"
  shows "\<exists>h' T'. swap_nodes h T (fst z) (ptr (rb_nil T) u) = Some (h', T') \<and> hole_at h' T' fs u \<and>
    keeps (insert (rb_nil T) (set (addrs (plug fs u)))) h T h' T'"
proof -
  obtain nn where nn: "h (rb_nil T) = Some nn" "get_color (n_header nn) = Black"
    using at black_nilE by (auto simp: tree_at_def)
  have nil: "rb_nil T \<notin> set (addrs (plug fs (Node l z r)))" using tree_at_nil [OF at] .
  note simps = swap_nodes_def eval_simps keeps_def hole_at_def black_nil_at_def
    Int_Un_distrib Int_Un_distrib2
  show ?thesis
  proof (cases fs rule: ctx_col.cases)
    case 1
    then show ?thesis using at u nn nil
      by (cases u) (auto simp: tree_at_def simps cong: bind_front_cong)
  next
    case (2 x s fs')
    then show ?thesis using at u nn nil
      by (cases u) (auto simp: tree_at_plug simps cong: bind_front_cong)
  next
    case (3 s x fs')
    then show ?thesis using at u nn nil
      by (cases u) (auto simp: tree_at_plug simps cong: bind_front_cong)
  qed
qed

text \<open>The successor \<open>y\<close>, already unlinked, takes the place of a node with two children.\<close>

lemma transplant_at:
  assumes at: "tree_at h T (plug fs (Node (Node l1 l l2) z (Node r1 r r2)))"
    and y: "h (fst y) = Some yn" "n_header yn = snd y" "fst y \<noteq> rb_nil T"
      "fst y \<notin> set (addrs (plug fs (Node (Node l1 l l2) z (Node r1 r r2))))"
  shows "\<exists>h1 h2 h' T'. set_right h (fst y) (fst r) = Some h1 \<and> rd n_right h1 (fst y) = Some (fst r) \<and>
    set_parent h1 (fst r) (fst y) = Some h2 \<and>
    link_successor h2 T (fst z) (fst y) = Some (h', T') \<and>
    tree_at h' T' (plug fs (Node (Node l1 l l2) (recol (icol z) y) (Node r1 r r2))) \<and>
    keeps (set (addrs (plug fs (Node (Node l1 l l2) y (Node r1 r r2))))) h T h' T'"
proof (cases fs rule: ctx_col.cases)
  case 1
  then show ?thesis using at y
    by (auto simp: tree_at_def link_successor_def swap_nodes_def eval_simps keeps_def
        black_nil_at_def cong: bind_front_cong)
next
  case (2 x s fs')
  then show ?thesis using at y
    by (auto simp: tree_at_plug link_successor_def swap_nodes_def eval_simps keeps_def
        black_nil_at_def cong: bind_front_cong)
next
  case (3 s x fs')
  then show ?thesis using at y
    by (auto simp: tree_at_plug link_successor_def swap_nodes_def eval_simps keeps_def
        black_nil_at_def cong: bind_front_cong)
qed

lemma transplant_child_at:
  assumes at: "tree_at h T (plug fs (Node (Node l1 l l2) z (Node Leaf y yr)))"
  shows "\<exists>h1 h' T'. set_parent h (ptr (rb_nil T) yr) (fst y) = Some h1 \<and>
    link_successor h1 T (fst z) (fst y) = Some (h', T') \<and>
    hole_at h' T' (RightF (Node l1 l l2) (recol (icol z) y) # fs) yr \<and>
    keeps (insert (rb_nil T) (set (addrs (plug fs (Node (Node l1 l l2) y yr))))) h T h' T'"
proof -
  obtain nn where nn: "h (rb_nil T) = Some nn" "get_color (n_header nn) = Black"
    using at black_nilE by (auto simp: tree_at_def)
  have nil: "rb_nil T \<notin> set (addrs (plug fs (Node (Node l1 l l2) z (Node Leaf y yr))))"
    using tree_at_nil [OF at] .
  note simps = link_successor_def swap_nodes_def eval_simps keeps_def hole_at_def black_nil_at_def
    Int_Un_distrib Int_Un_distrib2
  show ?thesis
  proof (cases fs rule: ctx_col.cases)
    case 1
    then show ?thesis using at nn nil
      by (cases yr) (auto simp: tree_at_def simps cong: bind_front_cong)
  next
    case (2 x s fs')
    then show ?thesis using at nn nil
      by (cases yr) (auto simp: tree_at_plug simps cong: bind_front_cong)
  next
    case (3 s x fs')
    then show ?thesis using at nn nil
      by (cases yr) (auto simp: tree_at_plug simps cong: bind_front_cong)
  qed
qed

lemma plug_append [simp]: "plug (fs @ gs) t = plug gs (plug fs t)"
  by (induction fs t rule: plug.induct) auto

lemma pre_append [simp]: "pre (fs @ gs) = pre gs @ pre fs"
  by (induction fs rule: pre.induct) auto

lemma post_append [simp]: "post (fs @ gs) = post fs @ post gs"
  by (induction fs rule: post.induct) auto

lemma subtree_min:
  assumes "tree_at h T (plug fs t)" "t \<noteq> Leaf"
  shows "\<exists>ms y yr. t = plug ms (Node Leaf y yr) \<and> pre ms = [] \<and>
    get_subtree_min h (rb_nil T) (ptr (rb_nil T) t) = Some (fst y)"
  using assms
proof (induction t arbitrary: fs)
  case (Node l x r)
  show ?case
  proof (cases l)
    case Leaf
    then have "get_subtree_min h (rb_nil T) (fst x) = Some (fst x)"
      using Node.prems(1) by (subst get_subtree_min.simps) (auto simp: tree_at_plug eval_simps)
    then show ?thesis using Leaf by (intro exI [of _ "[]"]) auto
  next
    case (Node l1 y l2)
    have "tree_at h T (plug (LeftF x r # fs) l)" "l \<noteq> Leaf"
      using Node.prems(1) Node by simp_all
    from Node.IH(1) [OF this] obtain ms y' yr where 1: "l = plug ms (Node Leaf y' yr)" "pre ms = []"
      "get_subtree_min h (rb_nil T) (ptr (rb_nil T) l) = Some (fst y')"
      by blast
    have "get_subtree_min h (rb_nil T) (fst x) = get_subtree_min h (rb_nil T) (ptr (rb_nil T) l)"
      using Node.prems(1) Node
      by (subst get_subtree_min.simps) (auto simp: tree_at_plug eval_simps)
    moreover have "pre (ms @ [LeftF x r]) = []"
      using 1(2) by simp
    ultimately show ?thesis
      using 1 by (intro exI [of _ "ms @ [LeftF x r]"] exI [of _ y'] exI [of _ yr]) simp
  qed
qed simp

lemma cptr_append: "ms \<noteq> [] \<Longrightarrow> cptr nil (ms @ fs) = cptr nil ms"
  by (cases ms rule: ctx_col.cases) auto

lemma plug_ne: "ms \<noteq> [] \<Longrightarrow> \<exists>l x r. plug ms t = Node l x r"
proof (cases ms rule: ctx_col.cases)
  case (2 x s fs)
  then show ?thesis using plug_is_Node [of fs t x s] by simp
next
  case (3 s x fs)
  then show ?thesis using plug_is_Node [of fs s x t] by simp
qed simp

lemma remove_inner_at:
  assumes at: "tree_at h T (plug fs (Node (Node l1 l l2) z r))" and r: "r \<noteq> Leaf"
  shows "\<exists>ms y yr h' T'. r = plug ms (Node Leaf y yr) \<and> pre ms = [] \<and>
    remove_inner h T (fst z) = Some (h', T', icol y, ptr (rb_nil T) yr) \<and>
    hole_at h' T' (ms @ RightF (Node l1 l l2) (recol (icol z) y) # fs) yr \<and>
    keeps (insert (rb_nil T) (set (addrs (plug fs (Node (Node l1 l l2) z r))) - {fst z})) h T h' T'"
proof -
  let ?l = "Node l1 l l2"
  obtain ms y yr where ry: "r = plug ms (Node Leaf y yr)" "pre ms = []"
    and mn: "get_subtree_min h (rb_nil T) (ptr (rb_nil T) r) = Some (fst y)"
    using subtree_min [of h T "RightF ?l z # fs" r] at r by auto
  have zr: "rd n_right h (fst z) = Some (ptr (rb_nil T) r)"
    using at by (auto simp: tree_at_plug eval_simps)
  have at': "tree_at h T (plug (ms @ RightF ?l z # fs) (Node Leaf y yr))"
    using at ry(1) by simp
  have yc: "color_at h (fst y) = Some (icol y)" "rd n_right h (fst y) = Some (ptr (rb_nil T) yr)"
    using read_at [OF at'] by (simp_all add: eval_simps)
  show ?thesis
  proof (cases "ms = []")
    case True
    then obtain h1 h' T' where 1: "set_parent h (ptr (rb_nil T) yr) (fst y) = Some h1"
      "link_successor h1 T (fst z) (fst y) = Some (h', T')"
      "hole_at h' T' (RightF ?l (recol (icol z) y) # fs) yr"
      "keeps (insert (rb_nil T) (set (addrs (plug fs (Node ?l y yr))))) h T h' T'"
      using transplant_child_at [of h T fs l1 l l2 z y yr] at ry by auto
    have "remove_inner h T (fst z) = Some (h', T', icol y, ptr (rb_nil T) yr)"
      using zr mn yc 1(1,2) True ry(1) by (simp add: remove_inner_def)
    moreover have "keeps (insert (rb_nil T) (set (addrs (plug fs (Node ?l z r))) - {fst z})) h T h' T'"
      using 1(4) at True ry(1) by (auto simp: keeps_def tree_at_plug)
    ultimately show ?thesis using 1(3) True ry by (intro exI [of _ "[]"]) auto
  next
    case False
    then obtain r1 x r2 where x: "plug ms yr = Node r1 x r2" using plug_ne by blast
    let ?ctx = "ms @ RightF ?l z # fs"
    let ?ctx' = "ms @ RightF ?l (recol (icol z) y) # fs"
    have "ptr (rb_nil T) r \<in> set (caddrs ms)"
      using rootptr_mem [OF False] by (simp add: ry(1) ptr_plug)
    then have ne: "fst y \<noteq> ptr (rb_nil T) r" using at ry(1) by (auto simp: tree_at_plug)
    obtain h1 T1 where 1: "swap_nodes h T (fst y) (ptr (rb_nil T) yr) = Some (h1, T1)"
      "hole_at h1 T1 ?ctx yr" "keeps (insert (rb_nil T) (set (addrs (plug ?ctx yr)))) h T h1 T1"
      using swap_nodes_at [OF at', of yr] by auto
    note [simp] = keeps_nil [OF 1(3)]
    have at1: "tree_at h1 T1 (plug fs (Node ?l z (Node r1 x r2)))"
      using hole_at_tree [OF 1(2)] x by simp
    have ynot: "fst y \<notin> set (addrs (plug fs (Node ?l z (plug ms yr))))" "fst y \<noteq> rb_nil T"
      using at' read_at(2) [OF at'] by (auto simp: tree_at_plug)
    have "h1 (fst y) = h (fst y)" using 1(3) ynot by (simp add: keeps_def)
    then obtain yn where yn: "h1 (fst y) = Some yn" "n_header yn = snd y"
      using read_at(1) [OF at'] by simp
    obtain h2 h3 h' T' where 2: "set_right h1 (fst y) (fst x) = Some h2"
      "rd n_right h2 (fst y) = Some (fst x)" "set_parent h2 (fst x) (fst y) = Some h3"
      "link_successor h3 T1 (fst z) (fst y) = Some (h', T')"
      "tree_at h' T' (plug fs (Node ?l (recol (icol z) y) (Node r1 x r2)))"
      "keeps (set (addrs (plug fs (Node ?l y (Node r1 x r2))))) h1 T1 h' T'"
      using transplant_at [OF at1 yn] ynot x by auto
    have "rd n_right h1 (fst z) = Some (fst x)"
      using at1 by (auto simp: tree_at_plug eval_simps)
    then have "remove_inner h T (fst z) = Some (h', T', icol y, ptr (rb_nil T) yr)"
      using zr mn yc 1(1) 2(1-4) ne by (simp add: remove_inner_def)
    moreover have "hole_at h' T' ?ctx' yr"
    proof (rule hole_atI [OF _ 1(2) 2(6)])
      show "tree_at h' T' (plug ?ctx' yr)" using 2(5) x by simp
      show "rb_nil T1 \<notin> set (addrs (plug fs (Node ?l y (Node r1 x r2))))"
        using tree_at_nil [OF at1] ynot by auto
      show "cptr (rb_nil T1) ?ctx' = cptr (rb_nil T1) ?ctx" using False by (simp add: cptr_append)
    qed
    moreover have "keeps (insert (rb_nil T) (set (addrs (plug fs (Node ?l z r))) - {fst z})) h T h' T'"
    proof -
      have "ptr (rb_nil T) r = fst x"
        using rootptr_indep [OF False, of "fst y" "ptr (rb_nil T) yr"]
          ptr_plug [of "rb_nil T" ms yr] x by (simp add: ry(1) ptr_plug)
      then have zcell: "h1 (fst z) = h (fst z)"
        using read_at(1) [OF at] read_at(1) [OF at1] by simp
      have addrs: "set (addrs (plug fs (Node ?l z r))) =
          insert (fst y) (set (addrs (plug fs (Node ?l z (plug ms yr)))))"
        by (auto simp: ry(1))
      have "fst z \<notin> set (addrs (plug fs (Node ?l y (Node r1 x r2))))"
        using at1 ynot by (auto simp: tree_at_plug)
      moreover have "keeps (insert (rb_nil T) (set (addrs (plug fs (Node ?l z (Node r1 x r2)))))) h T h1 T1"
        using 1(3) by (simp only: plug_append plug.simps x)
      ultimately show ?thesis
        using 2(6) zcell unfolding addrs keeps_def x by auto
    qed
    ultimately show ?thesis using ry by blast
  qed
qed

subsection \<open>Removal\<close>

text \<open>What the colour of an unlinked node with at most one child decides.\<close>

lemma rb_inv_unlink:
  assumes "rb_inv (plug fs (Node l z r))" "l = Leaf \<and> u = r \<or> r = Leaf \<and> u = l"
  shows "icol z = Red \<Longrightarrow> rb_inv (plug fs u)"
    and "icol z = Black \<Longrightarrow> invc (blk u) \<and> invh u \<and> ctx_inv fs (Suc (bh u))"
  using assms by (auto simp: rb_inv_plug) (cases u; auto)+

lemma ctx_inv_recolor:
  "icol x = icol y \<Longrightarrow> ctx_inv (ms @ RightF l x # fs) n = ctx_inv (ms @ RightF l y # fs) n"
proof (induction ms arbitrary: n)
  case (Cons f ms)
  have "ctx_col (ms @ RightF l x # fs) = ctx_col (ms @ RightF l y # fs)"
    using Cons.prems by (cases ms rule: ctx_col.cases) auto
  then show ?case using Cons by (cases f) auto
qed auto

lemma rb_inv_recolor:
  assumes "icol x = icol y"
  shows "rb_inv (plug (ms @ RightF l x # fs) t) = rb_inv (plug (ms @ RightF l y # fs) t)"
proof -
  have "ctx_col (ms @ RightF l x # fs) = ctx_col (ms @ RightF l y # fs)"
    using assms by (cases ms rule: ctx_col.cases) auto
  then show ?thesis
    unfolding rb_inv_plug using ctx_inv_recolor [OF assms] by auto
qed

lemma remove_repair:
  assumes "hole_at h T fs u" and "c = Red \<Longrightarrow> rb_inv (plug fs u)"
    and "c = Black \<Longrightarrow> invc (blk u) \<and> invh u \<and> ctx_inv fs (Suc (bh u))"
  shows "\<exists>h' T' t'. (if c = Black then fix_remove_rb_violation h T (ptr (rb_nil T) u) else Some (h, T)) =
      Some (h', T') \<and> tree_at h' T' t' \<and> rb_inv t' \<and> entries t' = entries (plug fs u) \<and>
    keeps (set (addrs (plug fs u))) h T h' T'"
proof (cases c)
  case Red
  then show ?thesis using assms(2) hole_at_tree [OF assms(1)] by auto
next
  case Black
  then show ?thesis using fix_remove_loop [OF assms(1)] assms(3) by simp
qed

lemma focus_exists:
  "a \<in> set (addrs t) \<Longrightarrow> \<exists>fs l z r. t = plug fs (Node l z r) \<and> fst z = a"
proof (induction t)
  case (Node l x r)
  consider "a \<in> set (addrs l)" | "a = fst x" | "a \<in> set (addrs r)" using Node.prems by auto
  then show ?case
  proof cases
    case 1
    then obtain fs l' z r' where "l = plug fs (Node l' z r')" "fst z = a" using Node.IH(1) by blast
    then have "Node l x r = plug (fs @ [LeftF x r]) (Node l' z r')" by simp
    then show ?thesis using \<open>fst z = a\<close> by blast
  next
    case 2
    then show ?thesis by (intro exI [of _ "[]"]) auto
  next
    case 3
    then obtain fs l' z r' where "r = plug fs (Node l' z r')" "fst z = a" using Node.IH(2) by blast
    then have "Node l x r = plug (fs @ [RightF l x]) (Node l' z r')" by simp
    then show ?thesis using \<open>fst z = a\<close> by blast
  qed
qed simp

definition drop_entry :: "u64 \<Rightarrow> item list \<Rightarrow> item list" where
  "drop_entry a es = filter (\<lambda>x. fst x \<noteq> a) es"

lemma drop_entry_split:
  assumes "distinct (map fst (xs @ z # ys))"
  shows "drop_entry (fst z) (xs @ z # ys) = xs @ ys"
proof -
  have "\<forall>x\<in>set xs. fst x \<noteq> fst z" "\<forall>x\<in>set ys. fst x \<noteq> fst z"
    using assms by (simp_all add: image_iff) metis+
  then have "filter (\<lambda>x. fst x \<noteq> fst z) xs = xs" "filter (\<lambda>x. fst x \<noteq> fst z) ys = ys"
    by simp_all
  then show ?thesis by (simp add: drop_entry_def)
qed

lemma drop_entry_plug:
  assumes "tree_at h T (plug fs (Node l z r))"
  shows "drop_entry (fst z) (entries (plug fs (Node l z r))) =
    map entry (pre fs) @ entries l @ entries r @ map entry (post fs)"
proof -
  have "distinct (map fst (entries (plug fs (Node l z r))))"
    using assms unfolding addrs_entries tree_at_def by blast
  then show ?thesis
    using drop_entry_split [of "map entry (pre fs) @ entries l" "entry z"
        "entries r @ map entry (post fs)"] unfolding entries_plug by simp
qed

text \<open>The unlinking step of \<open>remove_node\<close>, whichever branch it takes: the node is out
  of the tree, and the colour that was taken out decides what is left to repair.\<close>

lemma unlink_small:
  assumes at: "tree_at h T (plug fs (Node l z r))" and inv: "rb_inv (plug fs (Node l z r))"
    and u: "l = Leaf \<and> u = r \<or> r = Leaf \<and> u = l"
  shows "\<exists>h1 T1. swap_nodes h T (fst z) (ptr (rb_nil T) u) = Some (h1, T1) \<and> hole_at h1 T1 fs u \<and>
    (icol z = Red \<longrightarrow> rb_inv (plug fs u)) \<and>
    (icol z = Black \<longrightarrow> invc (blk u) \<and> invh u \<and> ctx_inv fs (Suc (bh u))) \<and>
    entries (plug fs u) = drop_entry (fst z) (entries (plug fs (Node l z r))) \<and>
    keeps (insert (rb_nil T) (set (addrs (plug fs (Node l z r))) - {fst z})) h T h1 T1"
proof -
  obtain h1 T1 where 1: "swap_nodes h T (fst z) (ptr (rb_nil T) u) = Some (h1, T1)" "hole_at h1 T1 fs u"
    "keeps (insert (rb_nil T) (set (addrs (plug fs u)))) h T h1 T1"
    using swap_nodes_at [OF at u] by blast
  have "keeps (insert (rb_nil T) (set (addrs (plug fs (Node l z r))) - {fst z})) h T h1 T1"
    using 1(3) u at by (auto simp: keeps_def tree_at_plug)
  moreover have "entries (plug fs u) = drop_entry (fst z) (entries (plug fs (Node l z r)))"
    unfolding drop_entry_plug [OF at] using u by (auto simp: entries_plug)
  ultimately show ?thesis using 1(1,2) rb_inv_unlink [OF inv u] by blast
qed

lemma unlink_inner:
  assumes at: "tree_at h T (plug fs (Node l z r))" and inv: "rb_inv (plug fs (Node l z r))"
    and lr: "l \<noteq> Leaf" "r \<noteq> Leaf"
  shows "\<exists>h1 T1 fs' u c. remove_inner h T (fst z) = Some (h1, T1, c, ptr (rb_nil T) u) \<and>
    hole_at h1 T1 fs' u \<and> (c = Red \<longrightarrow> rb_inv (plug fs' u)) \<and>
    (c = Black \<longrightarrow> invc (blk u) \<and> invh u \<and> ctx_inv fs' (Suc (bh u))) \<and>
    entries (plug fs' u) = drop_entry (fst z) (entries (plug fs (Node l z r))) \<and>
    keeps (insert (rb_nil T) (set (addrs (plug fs (Node l z r))) - {fst z})) h T h1 T1"
proof -
  obtain l1 x l2 where l: "l = Node l1 x l2" using lr(1) by (cases l) auto
  obtain ms y yr h1 T1 where 1: "r = plug ms (Node Leaf y yr)" "pre ms = []"
    "remove_inner h T (fst z) = Some (h1, T1, icol y, ptr (rb_nil T) yr)"
    "hole_at h1 T1 (ms @ RightF l (recol (icol z) y) # fs) yr"
    "keeps (insert (rb_nil T) (set (addrs (plug fs (Node l z r))) - {fst z})) h T h1 T1"
    using remove_inner_at [OF at [unfolded l] lr(2)] l by metis
  have "rb_inv (plug (ms @ RightF l z # fs) (Node Leaf y yr))" using inv 1(1) by simp
  then have inv': "rb_inv (plug (ms @ RightF l (recol (icol z) y) # fs) (Node Leaf y yr))"
    using rb_inv_recolor [of z "recol (icol z) y"] by simp
  have "entries (plug (ms @ RightF l (recol (icol z) y) # fs) yr) =
      drop_entry (fst z) (entries (plug fs (Node l z r)))"
    unfolding drop_entry_plug [OF at] using 1(1,2) by (simp add: entries_plug)
  then show ?thesis using 1(3-5) rb_inv_unlink [OF inv', of yr] by blast
qed

lemma remove_node_at:
  assumes at: "tree_at h T t" and inv: "rb_inv t" and a: "a \<in> set (addrs t)"
  shows "\<exists>h' T' t'. remove_node h T a = Some (h', T', a) \<and> tree_at h' T' t' \<and> rb_inv t' \<and>
    entries t' = drop_entry a (entries t) \<and>
    rb_nil T' = rb_nil T \<and> rb_count T' = rb_count T - 1 \<and>
    (\<forall>b. b \<notin> insert (rb_nil T) (set (addrs t) - {a}) \<longrightarrow> h' b = h b)"
proof -
  obtain fs l z r where t: "t = plug fs (Node l z r)" "fst z = a" using focus_exists [OF a] by blast
  note at = at [unfolded t(1)] and inv = inv [unfolded t(1)]
  let ?A = "insert (rb_nil T) (set (addrs t) - {a})"
  define unlink where "unlink = (if ptr (rb_nil T) l = rb_nil T then do {
          (h, t) \<leftarrow> swap_nodes h T a (ptr (rb_nil T) r); Some (h, t, icol z, ptr (rb_nil T) r)
        } else if ptr (rb_nil T) r = rb_nil T then do {
          (h, t) \<leftarrow> swap_nodes h T a (ptr (rb_nil T) l); Some (h, t, icol z, ptr (rb_nil T) l)
        } else remove_inner h T a)"
  have eval: "remove_node h T a = do {
      (h, t, c, x) \<leftarrow> unlink;
      (h, t) \<leftarrow> (if c = Black then fix_remove_rb_violation h t x else Some (h, t));
      Some (h, t\<lparr>rb_count := rb_count t - 1\<rparr>, a) }"
    using read_at(1) [OF at] t(2) unfolding remove_node_def unlink_def
    by (auto simp: eval_simps cong: bind_front_cong)
  have nonleaf: "ptr (rb_nil T) s = rb_nil T \<longleftrightarrow> s = Leaf" if "s = l \<or> s = r" for s
    using that at by (cases s) (auto simp: tree_at_plug)
  obtain h1 T1 fs' u c where 1: "unlink = Some (h1, T1, c, ptr (rb_nil T) u)" "hole_at h1 T1 fs' u"
    "c = Red \<longrightarrow> rb_inv (plug fs' u)"
    "c = Black \<longrightarrow> invc (blk u) \<and> invh u \<and> ctx_inv fs' (Suc (bh u))"
    "entries (plug fs' u) = drop_entry a (entries t)" "keeps ?A h T h1 T1"
  proof (cases "l = Leaf \<or> r = Leaf")
    case True
    define u where "u = (if l = Leaf then r else l)"
    have "l = Leaf \<and> u = r \<or> r = Leaf \<and> u = l" using True u_def by auto
    from unlink_small [OF at inv this] obtain h1 T1 where
      s: "swap_nodes h T a (ptr (rb_nil T) u) = Some (h1, T1)" and rest: "hole_at h1 T1 fs u"
      "icol z = Red \<longrightarrow> rb_inv (plug fs u)"
      "icol z = Black \<longrightarrow> invc (blk u) \<and> invh u \<and> ctx_inv fs (Suc (bh u))"
      "entries (plug fs u) = drop_entry a (entries t)" "keeps ?A h T h1 T1"
      unfolding t(2) t(1) [symmetric] by blast
    have "unlink = Some (h1, T1, icol z, ptr (rb_nil T) u)"
      using s nonleaf [of l] nonleaf [of r] True unfolding unlink_def u_def by (cases "l = Leaf") auto
    from that [OF this rest] show ?thesis .
  next
    case False
    then show ?thesis
      using that unlink_inner [OF at inv] nonleaf t unfolding unlink_def by auto
  qed
  note [simp] = keeps_nil [OF 1(6)]
  obtain h' T' t' where 2: "(if c = Black then fix_remove_rb_violation h1 T1 (ptr (rb_nil T) u)
      else Some (h1, T1)) = Some (h', T')" "tree_at h' T' t'" "rb_inv t'"
    "entries t' = entries (plug fs' u)" "keeps (set (addrs (plug fs' u))) h1 T1 h' T'"
    using remove_repair [OF 1(2), of c] 1(3,4) unfolding keeps_nil [OF 1(6)] by blast
  have "set (addrs (plug fs' u)) \<subseteq> ?A"
    using arg_cong [OF 1(5), of "\<lambda>es. set (map fst es)"] unfolding addrs_entries
    by (auto simp: drop_entry_def addrs_entries [symmetric])
  then have "keeps ?A h T h' T'" using 1(6) 2(5) unfolding keeps_def by auto
  then show ?thesis
    using eval 1(1,5) 2 by (auto simp: keeps_def)
qed

end
