(* ===== verification/Rb_Fit.thy ===== *)
theory Rb_Fit
  imports Rb_Insert Rb_Remove
begin

text \<open>
  The best fit search \<open>find_best_node_fit\<close> and the properties of the red-black tree
  as a whole: insertion, removal and best fit on any tree that satisfies the
  invariant, the logarithmic height, and a tree as an index of free blocks by
  size, the interface the kernel heap uses.
\<close>

subsection \<open>The search\<close>

fun fit_tree :: "u64 \<Rightarrow> item tree \<Rightarrow> u64 \<Rightarrow> u64 \<Rightarrow> u64 \<times> u64" where
  "fit_tree v Leaf c m = (c, m)"
| "fit_tree v (Node l x r) c m =
    (if v = ivalue x then (ivalue x, fst x)
     else if v < ivalue x
       then (if ivalue x < c then fit_tree v l (ivalue x) (fst x) else fit_tree v l c m)
     else fit_tree v r c m)"

lemma fit_walk_tree:
  assumes "tree_at h T (plug fs t)"
  shows "fit_walk h (rb_nil T) v (ptr (rb_nil T) t) c m = Some (fit_tree v t c m)"
  using assms
proof (induction t arbitrary: fs c m)
  case Leaf
  then show ?case by (subst fit_walk.simps) simp
next
  case (Node l x r)
  have l: "tree_at h T (plug (LeftF x r # fs) l)" and r: "tree_at h T (plug (RightF l x # fs) r)"
    using Node.prems by simp_all
  show ?case
    using read_at [OF Node.prems] Node.IH(1) [OF l] Node.IH(2) [OF r]
    by (subst fit_walk.simps) (simp add: eval_simps cong: bind_front_cong)
qed

text \<open>The candidates are the items of at least the requested value.\<close>

definition fits :: "u64 \<Rightarrow> item list \<Rightarrow> item \<Rightarrow> bool" where
  "fits v xs x \<longleftrightarrow> x \<in> set xs \<and> v \<le> ivalue x \<and> (\<forall>y\<in>set xs. v \<le> ivalue y \<longrightarrow> ivalue x \<le> ivalue y)"

lemma sorted_tree_Node:
  "sorted_tree (Node l x r) \<longleftrightarrow> sorted_tree l \<and> sorted_tree r \<and>
    (\<forall>y\<in>set (inorder l). ivalue y \<le> ivalue x) \<and> (\<forall>y\<in>set (inorder r). ivalue x \<le> ivalue y) \<and>
    (\<forall>y\<in>set (inorder l). \<forall>z\<in>set (inorder r). ivalue y \<le> ivalue z)"
  by (auto simp: sorted_tree_def sorted_append)

lemma fit_tree_correct:
  assumes "sorted_tree t" "v \<le> c"
  shows "(\<exists>x. fits v (inorder t) x \<and> (ivalue x < c \<or> ivalue x = v) \<and>
      fit_tree v t c m = (ivalue x, fst x)) \<or>
    (\<forall>y\<in>set (inorder t). ivalue y < v \<or> c \<le> ivalue y) \<and> fit_tree v t c m = (c, m)"
  using assms
proof (induction t arbitrary: c m)
  case (Node l x r)
  have st: "sorted_tree l" "sorted_tree r"
    and le: "\<forall>y\<in>set (inorder l). ivalue y \<le> ivalue x" "\<forall>y\<in>set (inorder r). ivalue x \<le> ivalue y"
    using Node.prems(1) unfolding sorted_tree_Node by blast+
  consider "v = ivalue x" | "v < ivalue x" | "ivalue x < v" by (rule linorder_cases)
  then show ?case
  proof cases
    case 1
    then have "fits v (inorder (Node l x r)) x" by (simp add: fits_def)
    then show ?thesis using 1 by (intro disjI1 exI [of _ x]) simp
  next
    case 2
    let ?c = "if ivalue x < c then ivalue x else c" and ?m = "if ivalue x < c then fst x else m"
    have step: "fit_tree v (Node l x r) c m = fit_tree v l ?c ?m" using 2 by auto
    have r: "\<forall>y\<in>set (inorder r). v < ivalue y"
      using le(2) by (simp add: order.strict_trans2 [OF 2])
    have "v \<le> ?c" using 2 Node.prems(2) by auto
    from Node.IH(1) [OF st(1) this, of ?m] show ?thesis
    proof
      assume "\<exists>y. fits v (inorder l) y \<and> (ivalue y < ?c \<or> ivalue y = v) \<and>
        fit_tree v l ?c ?m = (ivalue y, fst y)"
      then obtain y where y: "fits v (inorder l) y" "ivalue y < ?c \<or> ivalue y = v"
        "fit_tree v l ?c ?m = (ivalue y, fst y)" by blast
      have "ivalue y \<le> ivalue x" using y(1) le(1) by (simp add: fits_def)
      then have "fits v (inorder (Node l x r)) y"
        using y(1) le(2) by (auto simp: fits_def intro: order.trans)
      moreover have "ivalue y < c \<or> ivalue y = v" using y(2) by (auto split: if_splits)
      ultimately show ?thesis using step y(3) by metis
    next
      assume "(\<forall>y\<in>set (inorder l). ivalue y < v \<or> ?c \<le> ivalue y) \<and> fit_tree v l ?c ?m = (?c, ?m)"
      then have l: "\<forall>y\<in>set (inorder l). ivalue y < v \<or> ?c \<le> ivalue y"
        "fit_tree v l ?c ?m = (?c, ?m)" by blast+
      show ?thesis
      proof (cases "ivalue x < c")
        case True
        then have "fits v (inorder (Node l x r)) x"
          using l(1) le(2) 2 by (fastforce simp: fits_def)
        then show ?thesis using True l(2) step by (intro disjI1 exI [of _ x]) simp
      next
        case False
        then have "\<forall>y\<in>set (inorder (Node l x r)). ivalue y < v \<or> c \<le> ivalue y"
          using l(1) le(2) by (auto intro: order.trans)
        then show ?thesis using False l(2) step by simp
      qed
    qed
  next
    case 3
    have step: "fit_tree v (Node l x r) c m = fit_tree v r c m" using 3 by auto
    have l: "\<forall>y\<in>set (inorder l). ivalue y < v"
      using le(1) 3 by (auto intro: order.strict_trans1)
    from Node.IH(2) [OF st(2) Node.prems(2), of m] show ?thesis
    proof
      assume "\<exists>y. fits v (inorder r) y \<and> (ivalue y < c \<or> ivalue y = v) \<and>
        fit_tree v r c m = (ivalue y, fst y)"
      then obtain y where y: "fits v (inorder r) y" "fit_tree v r c m = (ivalue y, fst y)"
        and c: "ivalue y < c \<or> ivalue y = v" by blast
      have "fits v (inorder (Node l x r)) y"
        using y(1) l 3 by (auto simp: fits_def)
      then show ?thesis using step y(2) c by metis
    next
      assume "(\<forall>y\<in>set (inorder r). ivalue y < v \<or> c \<le> ivalue y) \<and> fit_tree v r c m = (c, m)"
      then show ?thesis using step l 3 by auto
    qed
  qed
qed (auto simp: fits_def)

text \<open>A size is a multiple of 16, so it is never the initial bound of the search.\<close>

lemma hdr_value_bound: "hdr_value x < 0xFFFFFFFFFFFFFFFF"
proof -
  have "hdr_value x \<noteq> - 1"
    using bit_get_size [of x 0] by (metis hdr_value_def bit_minus_1_iff possible_bit_word
        len_gt_0 not_one_le_zero numeral_le_one_iff le_0_eq zero_neq_numeral)
  then have "hdr_value x < - 1" by (simp add: word_order.not_eq_extremum)
  moreover have "(- 1 :: u64) = 0xFFFFFFFFFFFFFFFF" by simp
  ultimately show ?thesis by (simp only:)
qed

subsection \<open>A tree as an index\<close>

text \<open>The heap and the tree structure hold a valid red-black tree, ordered by value,
  with the given entries.\<close>

definition indexes :: "node_heap \<Rightarrow> rb_tree \<Rightarrow> item list \<Rightarrow> bool" where
  "indexes h T es \<longleftrightarrow> (\<exists>t. tree_at h T t \<and> rb_inv t \<and> sorted_tree t \<and> entries t = es)"

lemma sorted_tree_entries: "sorted_tree t \<longleftrightarrow> sorted (map ivalue (entries t))"
  by (simp add: sorted_tree_def entries_def comp_def)

lemma sorted_drop_entry: "sorted (map ivalue es) \<Longrightarrow> sorted (map ivalue (drop_entry a es))"
  unfolding drop_entry_def by (rule sorted_filter)

lemma indexes_insert:
  assumes "indexes h T es" "h n = Some nd" "n \<notin> fst ` set es" "n \<noteq> rb_nil T"
  shows "\<exists>h' T'. insert_node h T n = Some (h', T') \<and>
    indexes h' T' (insert_sorted (entry (n, n_header nd)) es) \<and>
    rb_nil T' = rb_nil T \<and> rb_count T' = rb_count T + 1 \<and>
    (\<forall>a. a \<notin> insert n (fst ` set es) \<longrightarrow> h' a = h a)"
proof -
  obtain t where t: "tree_at h T t" "rb_inv t" "sorted_tree t" "entries t = es"
    using assms(1) unfolding indexes_def by blast
  have A: "set (addrs t) = fst ` set es" using t(4) addrs_entries [of t] by (metis set_map)
  show ?thesis
    using insert_node_at [OF t(1-3) assms(2)] assms(3,4) t(4) unfolding A indexes_def by blast
qed

lemma indexes_remove:
  assumes "indexes h T es" "a \<in> fst ` set es"
  shows "\<exists>h' T'. remove_node h T a = Some (h', T', a) \<and> indexes h' T' (drop_entry a es) \<and>
    rb_nil T' = rb_nil T \<and> rb_count T' = rb_count T - 1 \<and>
    (\<forall>b. b \<notin> insert (rb_nil T) (fst ` set es - {a}) \<longrightarrow> h' b = h b)"
proof -
  obtain t where t: "tree_at h T t" "rb_inv t" "sorted_tree t" "entries t = es"
    using assms(1) unfolding indexes_def by blast
  have A: "set (addrs t) = fst ` set es" using t(4) addrs_entries [of t] by (metis set_map)
  obtain h' T' t' where 1: "remove_node h T a = Some (h', T', a)" "tree_at h' T' t'" "rb_inv t'"
    "entries t' = drop_entry a es" and 2: "rb_nil T' = rb_nil T" "rb_count T' = rb_count T - 1"
    "\<forall>b. b \<notin> insert (rb_nil T) (fst ` set es - {a}) \<longrightarrow> h' b = h b"
    using remove_node_at [OF t(1,2)] assms(2) t(4) unfolding A by metis
  have "sorted_tree t'"
    using t(3,4) 1(4) sorted_drop_entry unfolding sorted_tree_entries by metis
  then have "indexes h' T' (drop_entry a es)" using 1 unfolding indexes_def by blast
  then show ?thesis using 1(1) 2 by blast
qed

lemma inorder_entries: "x \<in> set (inorder t) \<Longrightarrow> entry x \<in> set (entries t)"
  by (simp add: entries_def)

lemma fits_entries: "fits v (inorder t) x \<Longrightarrow> fits v (entries t) (entry x)"
  by (auto simp: fits_def entries_def)

lemma indexes_find:
  assumes "indexes h T es"
  shows "(\<forall>x\<in>set es. ivalue x < v) \<and> find_best_node_fit h T v = Some (h, T, None) \<or>
    (\<exists>x h' T'. fits v es x \<and> find_best_node_fit h T v = Some (h', T', Some (fst x)) \<and>
      remove_node h T (fst x) = Some (h', T', fst x))"
proof -
  obtain t where t: "tree_at h T t" "rb_inv t" "sorted_tree t" "entries t = es"
    using assms unfolding indexes_def by blast
  show ?thesis
  proof (cases "t = Leaf")
    case True
    then show ?thesis using t by (auto simp: find_best_node_fit_def tree_at_def)
  next
    case False
    then have root: "rb_root T \<noteq> rb_nil T" using t(1) by (cases t) (auto simp: tree_at_def)
    have "rb_root T = ptr (rb_nil T) t" using t(1) by (simp add: tree_at_def)
    then have walk: "fit_walk h (rb_nil T) v (rb_root T) 0xFFFFFFFFFFFFFFFF (rb_root T) =
        Some (fit_tree v t 0xFFFFFFFFFFFFFFFF (rb_root T))"
      using fit_walk_tree [of h T "[]" t] t(1) by simp
    have "v \<le> (0xFFFFFFFFFFFFFFFF :: u64)"
      using unat_less [of v] by (simp add: word_le_nat_alt)
    from fit_tree_correct [OF t(3) this, of "rb_root T"] show ?thesis
    proof
      assume "\<exists>x. fits v (inorder t) x \<and> (ivalue x < 0xFFFFFFFFFFFFFFFF \<or> ivalue x = v) \<and>
        fit_tree v t 0xFFFFFFFFFFFFFFFF (rb_root T) = (ivalue x, fst x)"
      then obtain x where x: "fits v (inorder t) x"
        "fit_tree v t 0xFFFFFFFFFFFFFFFF (rb_root T) = (ivalue x, fst x)" by blast
      have "fst x \<in> fst ` set es"
        using x(1) inorder_entries [of x t] t(4) entry_value(2) [of x]
        by (metis fits_def image_eqI)
      then obtain h' T' where rm: "remove_node h T (fst x) = Some (h', T', fst x)"
        using indexes_remove [OF assms] by blast
      have "\<not> ivalue x < v" "ivalue x \<noteq> 0xFFFFFFFFFFFFFFFF"
        using x(1) hdr_value_bound [of "snd x"] by (auto simp: fits_def)
      then have "find_best_node_fit h T v = Some (h', T', Some (fst x))"
        using root walk x(2) rm by (simp add: find_best_node_fit_def)
      then show ?thesis using fits_entries [OF x(1)] t(4) rm by (metis entry_value(2))
    next
      assume "(\<forall>y\<in>set (inorder t). ivalue y < v \<or> 0xFFFFFFFFFFFFFFFF \<le> ivalue y) \<and>
        fit_tree v t 0xFFFFFFFFFFFFFFFF (rb_root T) = (0xFFFFFFFFFFFFFFFF, rb_root T)"
      moreover from this have "\<forall>y\<in>set (inorder t). ivalue y < v"
        using hdr_value_bound by (meson leD)
      then have "\<forall>x\<in>set es. ivalue x < v"
        unfolding t(4) [symmetric] entries_def by simp
      ultimately show ?thesis using root walk by (simp add: find_best_node_fit_def)
    qed
  qed
qed

subsection \<open>The height\<close>

lemma height_le_bh:
  "invc t \<Longrightarrow> invh t \<Longrightarrow> height t \<le> 2 * bh t + (if tcol t = Black then 0 else 1)"
  by (induction t) (auto split: if_splits)

lemma bh_le_size: "invh t \<Longrightarrow> 2 ^ bh t \<le> size1 t"
proof (induction t)
  case (Node l x r)
  then show ?case by (auto simp: mult_2 intro: add_mono)
qed simp

lemma rb_height: "rb_inv t \<Longrightarrow> 2 ^ height t \<le> (length (entries t) + 1) ^ 2"
proof -
  assume inv: "rb_inv t"
  have "(2::nat) ^ height t \<le> 2 ^ (2 * bh t)"
    using inv height_le_bh [of t] by (intro power_increasing) (auto simp: rb_inv_def)
  also have "\<dots> = (2 ^ bh t) ^ 2" by (simp add: power_mult mult.commute)
  also have "\<dots> \<le> size1 t ^ 2"
    using inv bh_le_size [of t] by (intro power_mono) (auto simp: rb_inv_def)
  finally show ?thesis by (simp add: entries_def size1_size)
qed

subsection \<open>Creation\<close>

lemma new_raw_indexes:
  assumes "root \<noteq> nil" "new_raw h root nil = (h', T)"
  shows "indexes h' T [(root, hdr_NULL)]"
proof -
  let ?t = "Node Leaf (root, hdr_NULL) Leaf"
  have "tree_at h' T ?t"
    using assms by (auto simp: new_raw_def Let_def tree_at_def black_nil_at_def eval_simps)
  moreover have "rb_inv ?t" "sorted_tree ?t" "entries ?t = [(root, hdr_NULL)]"
    by (simp_all add: rb_inv_def sorted_tree_def entry_def recol_def hdr.recolor_id_iff)
  ultimately show ?thesis unfolding indexes_def by blast
qed

lemma drop_entry_id: "a \<notin> fst ` set es \<Longrightarrow> drop_entry a es = es"
  by (induction es) (auto simp: drop_entry_def)

lemma drop_insert_sorted:
  "fst n \<notin> fst ` set es \<Longrightarrow> drop_entry (fst n) (insert_sorted n es) = es"
proof (induction es)
  case (Cons x es)
  then show ?case
    using drop_entry_id [of "fst n" "x # es"] by (auto simp: insert_sorted_simps drop_entry_def)
qed (simp add: insert_sorted_simps drop_entry_def)

subsection \<open>The interface of the kernel heap\<close>

text \<open>An index of free blocks by size, as the heap allocator uses it: entries enter at
  their place in the order, leave when they are named, and the smallest sufficient
  one is found and taken out. An operation touches the nodes of the index, its
  sentinel and the node it is given, and nothing else.\<close>

locale free_index =
  fixes ins :: "node_heap \<Rightarrow> 's \<Rightarrow> u64 \<Rightarrow> (node_heap \<times> 's) option"
    and rem :: "node_heap \<Rightarrow> 's \<Rightarrow> u64 \<Rightarrow> (node_heap \<times> 's \<times> u64) option"
    and find :: "node_heap \<Rightarrow> 's \<Rightarrow> u64 \<Rightarrow> (node_heap \<times> 's \<times> u64 option) option"
    and holds :: "node_heap \<Rightarrow> 's \<Rightarrow> item list \<Rightarrow> bool"
    and sentinel :: "'s \<Rightarrow> u64"
  assumes holds_nodes: "holds h T es \<Longrightarrow> (a, x) \<in> set es \<Longrightarrow>
      a \<noteq> sentinel T \<and> (\<exists>n. h a = Some n \<and> set_color Black (n_header n) = x)"
    and holds_distinct: "holds h T es \<Longrightarrow> distinct (map fst es)"
    and holds_cong: "holds h T es \<Longrightarrow>
      (\<And>a. a \<in> insert (sentinel T) (fst ` set es) \<Longrightarrow> h' a = h a) \<Longrightarrow> holds h' T es"
    and ins_law: "holds h T es \<Longrightarrow> h n = Some nd \<Longrightarrow> n \<notin> fst ` set es \<Longrightarrow> n \<noteq> sentinel T \<Longrightarrow>
      \<exists>h' T'. ins h T n = Some (h', T') \<and> holds h' T' (insert_sorted (entry (n, n_header nd)) es) \<and>
        sentinel T' = sentinel T \<and> (\<forall>a. a \<notin> insert n (fst ` set es) \<longrightarrow> h' a = h a)"
    and rem_law: "holds h T es \<Longrightarrow> a \<in> fst ` set es \<Longrightarrow>
      \<exists>h' T'. rem h T a = Some (h', T', a) \<and> holds h' T' (drop_entry a es) \<and>
        sentinel T' = sentinel T \<and>
        (\<forall>b. b \<notin> insert (sentinel T) (fst ` set es - {a}) \<longrightarrow> h' b = h b)"
    and find_law: "holds h T es \<Longrightarrow>
      (\<forall>x\<in>set es. ivalue x < v) \<and> find h T v = Some (h, T, None) \<or>
      (\<exists>x h' T'. fits v es x \<and> find h T v = Some (h', T', Some (fst x)) \<and>
        rem h T (fst x) = Some (h', T', fst x))"
begin

lemma find_takes:
  assumes "holds h T es" "find h T v = Some (h', T', Some n)"
  shows "\<exists>x. fst x = n \<and> fits v es x \<and> holds h' T' (drop_entry n es) \<and> sentinel T' = sentinel T \<and>
    (\<forall>b. b \<notin> insert (sentinel T) (fst ` set es - {n}) \<longrightarrow> h' b = h b)"
proof -
  obtain x where x: "fits v es x" "n = fst x" "rem h T (fst x) = Some (h', T', fst x)"
    using find_law [OF assms(1), of v] assms(2) by auto
  have "fst x \<in> fst ` set es" using x(1) by (simp add: fits_def)
  then show ?thesis using rem_law [OF assms(1)] x by fastforce
qed

lemma find_complete:
  assumes "holds h T es" "x \<in> set es" "v \<le> ivalue x"
  shows "\<exists>h' T' n. find h T v = Some (h', T', Some n)"
  using find_law [OF assms(1), of v] assms(2,3) by (auto simp: not_less [symmetric])

lemma ins_rem:
  assumes "holds h T es" "h n = Some nd" "n \<notin> fst ` set es" "n \<noteq> sentinel T"
  shows "\<exists>h1 T1 h2 T2. ins h T n = Some (h1, T1) \<and> rem h1 T1 n = Some (h2, T2, n) \<and> holds h2 T2 es"
proof -
  obtain h1 T1 where 1: "ins h T n = Some (h1, T1)"
    "holds h1 T1 (insert_sorted (entry (n, n_header nd)) es)"
    using ins_law [OF assms] by blast
  have "n \<in> fst ` set (insert_sorted (entry (n, n_header nd)) es)"
    by (simp add: set_insert_sorted)
  from rem_law [OF 1(2) this] obtain h2 T2 where 2: "rem h1 T1 n = Some (h2, T2, n)"
    "holds h2 T2 (drop_entry n (insert_sorted (entry (n, n_header nd)) es))" by blast
  have "drop_entry n (insert_sorted (entry (n, n_header nd)) es) = es"
    using drop_insert_sorted [of "entry (n, n_header nd)" es] assms(3) by simp
  then show ?thesis using 1(1) 2 by auto
qed

end

lemma rep_nodes:
  assumes "rep h nil par t" "x \<in> set (inorder t)"
  shows "fst x \<noteq> nil \<and> (\<exists>n. h (fst x) = Some n \<and> n_header n = snd x)"
  using assms by (induction t arbitrary: par) auto

lemma indexes_nodes:
  assumes "indexes h T es" "(a, x) \<in> set es"
  shows "a \<noteq> rb_nil T \<and> (\<exists>n. h a = Some n \<and> set_color Black (n_header n) = x)"
proof -
  obtain t where t: "tree_at h T t" "entries t = es" using assms(1) unfolding indexes_def by blast
  obtain y where y: "y \<in> set (inorder t)" "(a, x) = entry y"
    using assms(2) t(2) by (auto simp: entries_def)
  have "rep h (rb_nil T) (rb_nil T) t" using t(1) by (simp add: tree_at_def)
  from rep_nodes [OF this y(1)] show ?thesis using y(2) by (auto simp: entry_def recol_def)
qed

lemma indexes_cong:
  assumes "indexes h T es" "\<And>a. a \<in> insert (rb_nil T) (fst ` set es) \<Longrightarrow> h' a = h a"
  shows "indexes h' T es"
proof -
  obtain t where t: "tree_at h T t" "rb_inv t" "sorted_tree t" "entries t = es"
    using assms(1) unfolding indexes_def by blast
  have A: "set (addrs t) = fst ` set es" using t(4) addrs_entries [of t] by (metis set_map)
  have "rep h' (rb_nil T) (rb_nil T) t = rep h (rb_nil T) (rb_nil T) t"
    by (rule rep_cong) (use assms(2) A in auto)
  moreover have "black_nil_at h' (rb_nil T) = black_nil_at h (rb_nil T)"
    using assms(2) by (simp add: black_nil_at_def color_at_def rd_def)
  ultimately have "tree_at h' T t" using t(1) by (simp add: tree_at_def)
  then show ?thesis using t unfolding indexes_def by blast
qed

lemma indexes_distinct: "indexes h T es \<Longrightarrow> distinct (map fst es)"
  unfolding indexes_def tree_at_def by (metis addrs_entries)

interpretation rb: free_index insert_node remove_node find_best_node_fit indexes rb_nil
proof unfold_locales
  fix h T es n nd
  assume "indexes h T es" "h n = Some nd" "n \<notin> fst ` set es" "n \<noteq> rb_nil T"
  from indexes_insert [OF this] show "\<exists>h' T'. insert_node h T n = Some (h', T') \<and>
      indexes h' T' (insert_sorted (entry (n, n_header nd)) es) \<and> rb_nil T' = rb_nil T \<and>
      (\<forall>a. a \<notin> insert n (fst ` set es) \<longrightarrow> h' a = h a)"
    by blast
next
  fix h T es a assume "indexes h T es" "a \<in> fst ` set es"
  from indexes_remove [OF this] show "\<exists>h' T'. remove_node h T a = Some (h', T', a) \<and>
      indexes h' T' (drop_entry a es) \<and> rb_nil T' = rb_nil T \<and>
      (\<forall>b. b \<notin> insert (rb_nil T) (fst ` set es - {a}) \<longrightarrow> h' b = h b)"
    by blast
qed (erule (1) indexes_nodes, erule indexes_distinct, erule indexes_cong, blast,
  erule indexes_find)

text \<open>A concrete tree: the root alone, beside a block of 128 bytes that is not yet in it.\<close>

definition demo_heap :: node_heap where
  "demo_heap = fst (new_raw [0x3000 \<mapsto> new_isolated_with_value 0x80] 0x1000 0x2000)"
definition demo_tree :: rb_tree where
  "demo_tree = snd (new_raw [0x3000 \<mapsto> new_isolated_with_value 0x80] 0x1000 0x2000)"

lemma demo_indexes: "indexes demo_heap demo_tree [(0x1000, hdr_NULL)]"
  by (rule new_raw_indexes [of _ "0x2000"]) (simp_all add: demo_heap_def demo_tree_def)

lemma demo_reads:
  "demo_heap 0x3000 = Some (new_isolated_with_value 0x80)" "rb_nil demo_tree = 0x2000"
  "rb_count demo_tree = 1"
  by (simp_all add: new_raw_def Let_def demo_heap_def demo_tree_def)

lemma demo_insert_sorted:
  "insert_sorted (entry (0x3000, n_header (new_isolated_with_value 0x80))) [(0x1000, hdr_NULL)] =
    [(0x1000, hdr_NULL), (0x3000, set_size 0x80 hdr_NULL)]"
proof -
  have "get_color (set_size 0x80 hdr_NULL) = Black" by (simp add: size_aligned_def)
  then have "entry (0x3000, set_size 0x80 hdr_NULL) = (0x3000, set_size 0x80 hdr_NULL)"
    by (simp add: entry_def)
  then show ?thesis
    by (simp add: insert_sorted_simps new_isolated_with_value_def set_value_def hdr_value_def)
qed

subsection \<open>Properties\<close>

lemma indexes_height:
  assumes "indexes h T es"
  shows "\<exists>t. tree_at h T t \<and> entries t = es \<and> 2 ^ height t \<le> (length es + 1) ^ 2"
  using assms rb_height unfolding indexes_def by blast

text \<open>C4. \<open>insert_node\<close> on a valid red-black tree returns, for every node that is not yet
  in it: the result is again a valid red-black tree, whose entries are the old ones
  with the new one after those of at most its size, its count is one more, its
  height stays logarithmic, and only the new node and nodes of the tree change.\<close>

theorem insert_node_correct:
  assumes "indexes h T es" "h n = Some nd" "n \<notin> fst ` set es" "n \<noteq> rb_nil T"
  shows "\<exists>h' T' t. insert_node h T n = Some (h', T') \<and>
    indexes h' T' (insert_sorted (entry (n, n_header nd)) es) \<and>
    rb_nil T' = rb_nil T \<and> rb_count T' = rb_count T + 1 \<and>
    (\<forall>a. a \<notin> insert n (fst ` set es) \<longrightarrow> h' a = h a) \<and>
    tree_at h' T' t \<and> 2 ^ height t \<le> (length (insert_sorted (entry (n, n_header nd)) es) + 1) ^ 2"
  using indexes_insert [OF assms] indexes_height by blast

theorem insert_node_correct_witness:
  "\<exists>h' T'. insert_node demo_heap demo_tree 0x3000 = Some (h', T') \<and> rb_count T' = 2 \<and>
    indexes h' T' [(0x1000, hdr_NULL), (0x3000, set_size 0x80 hdr_NULL)]"
  using insert_node_correct [OF demo_indexes demo_reads(1)]
  by (auto simp: demo_reads demo_insert_sorted)

text \<open>C5. \<open>remove_node\<close> returns for every node of a valid red-black tree: the result is a
  valid red-black tree without exactly that entry, its count is one less, and
  nothing but the sentinel and the remaining nodes changes.\<close>

theorem remove_node_correct:
  assumes "indexes h T es" "a \<in> fst ` set es"
  shows "\<exists>h' T'. remove_node h T a = Some (h', T', a) \<and> indexes h' T' (drop_entry a es) \<and>
    rb_nil T' = rb_nil T \<and> rb_count T' = rb_count T - 1 \<and>
    (\<forall>b. b \<notin> insert (rb_nil T) (fst ` set es - {a}) \<longrightarrow> h' b = h b)"
  using indexes_remove [OF assms] .

theorem remove_node_correct_witness:
  "\<exists>h' T'. remove_node demo_heap demo_tree 0x1000 = Some (h', T', 0x1000) \<and> rb_count T' = 0 \<and>
    indexes h' T' []"
  using remove_node_correct [OF demo_indexes, of "0x1000"]
  by (auto simp: demo_reads drop_entry_def)

text \<open>C6. \<open>find_best_node_fit\<close> on a valid red-black tree returns: it finds nothing exactly
  when every entry is smaller than the request, and otherwise takes out an entry
  of the least sufficient size and leaves a valid tree with the other entries.\<close>

theorem find_best_node_fit_correct:
  assumes "indexes h T es"
  shows "(if \<forall>x\<in>set es. ivalue x < v then find_best_node_fit h T v = Some (h, T, None)
    else \<exists>x h' T'. find_best_node_fit h T v = Some (h', T', Some (fst x)) \<and> fits v es x \<and>
      indexes h' T' (drop_entry (fst x) es) \<and> rb_nil T' = rb_nil T)"
proof (cases "\<forall>x\<in>set es. ivalue x < v")
  case True
  then show ?thesis using indexes_find [OF assms, of v] by (fastforce simp: fits_def)
next
  case False
  then obtain x h' T' where "fits v es x" "find_best_node_fit h T v = Some (h', T', Some (fst x))"
    using indexes_find [OF assms, of v] by blast
  then show ?thesis using rb.find_takes [OF assms] False by metis
qed

theorem find_best_node_fit_correct_witness:
  "find_best_node_fit demo_heap demo_tree 0x40 = Some (demo_heap, demo_tree, None) \<and>
   (\<exists>h' T'. find_best_node_fit demo_heap demo_tree 0 = Some (h', T', Some 0x1000))"
  using find_best_node_fit_correct [OF demo_indexes, of "0x40"]
    find_best_node_fit_correct [OF demo_indexes, of 0]
  by (auto simp: fits_def hdr_value_def)

text \<open>C12. Inserting a node into a valid tree and removing it again gives back the entries
  the tree had.\<close>

theorem insert_remove_roundtrip:
  assumes "indexes h T es" "h n = Some nd" "n \<notin> fst ` set es" "n \<noteq> rb_nil T"
  shows "\<exists>h1 T1 h2 T2. insert_node h T n = Some (h1, T1) \<and> remove_node h1 T1 n = Some (h2, T2, n) \<and>
    indexes h2 T2 es"
  using rb.ins_rem [OF assms] .

theorem insert_remove_roundtrip_witness:
  "\<exists>h1 T1 h2 T2. insert_node demo_heap demo_tree 0x3000 = Some (h1, T1) \<and>
    remove_node h1 T1 0x3000 = Some (h2, T2, 0x3000) \<and> indexes h2 T2 [(0x1000, hdr_NULL)]"
  using insert_remove_roundtrip [OF demo_indexes demo_reads(1)]
  by (auto simp: demo_reads)

end
