(* ===== verification/Bytes.thy ===== *)
theory Bytes
  imports Prelude
begin

text \<open>
  Memory images of the packed structures the program reads from disks and
  firmware tables: little-endian decoding of the fields of a byte buffer, its
  inverse, and the facts on both that the structures' round trips rest on.
\<close>

definition of_le :: "u8 list \<Rightarrow> 'a::len word" where
  "of_le bs = foldr (\<lambda>b w. ucast b OR push_bit 8 w) bs 0"

definition to_le :: "nat \<Rightarrow> 'a::len word \<Rightarrow> u8 list" where
  "to_le n w = map (\<lambda>i. ucast (drop_bit (8 * i) w)) [0..<n]"

text \<open>The field of \<open>n\<close> bytes at offset \<open>off\<close> of a buffer.\<close>

definition get_le :: "nat \<Rightarrow> nat \<Rightarrow> u8 list \<Rightarrow> 'a::len word" where
  "get_le n off bs = of_le (take n (drop off bs))"

lemma of_le_Nil [simp]: "of_le [] = 0"
  by (simp add: of_le_def)

lemma of_le_Cons: "of_le (b # bs) = ucast b OR push_bit 8 (of_le bs)"
  by (simp add: of_le_def)

lemma length_to_le [simp]: "length (to_le n w) = n"
  by (simp add: to_le_def)

lemma bit_of_le:
  "bit (of_le bs :: 'a::len word) i \<longleftrightarrow>
    i < LENGTH('a) \<and> i div 8 < length bs \<and> bit (bs ! (i div 8)) (i mod 8)"
proof (induction bs arbitrary: i)
  case (Cons b bs)
  show ?case
  proof (cases "i < 8")
    case True
    then show ?thesis by (auto simp: of_le_Cons bit_simps)
  next
    case False
    define j where "j = i - 8"
    from False have j: "i = j + 8" by (simp add: j_def)
    have "\<not> bit b i" using False bit_imp_le_length [of b i] by auto
    then show ?thesis
      using Cons.IH [of j] div_add_self2 [of 8 j] by (auto simp: j of_le_Cons bit_simps)
  qed
qed simp

lemma bit_to_le:
  "i < n \<Longrightarrow> bit (to_le n w ! i) j \<longleftrightarrow> j < 8 \<and> bit w (8 * i + j)"
  by (auto simp: to_le_def bit_simps ac_simps)

lemma of_le_to_le [simp]:
  assumes "LENGTH('a) \<le> 8 * n"
  shows "of_le (to_le n (w::'a::len word)) = w"
proof (rule word_bits_eqI)
  fix i assume i: "i < LENGTH('a)"
  then have "i div 8 < n" using assms by (simp add: div_less_iff_less_mult)
  then show "bit (of_le (to_le n w) :: 'a word) i \<longleftrightarrow> bit w i"
    using i by (simp add: bit_of_le bit_to_le)
qed

lemma to_le_of_le:
  assumes "8 * length bs \<le> LENGTH('a)"
  shows "to_le (length bs) (of_le bs :: 'a::len word) = bs"
proof (rule nth_equalityI)
  fix i assume "i < length (to_le (length bs) (of_le bs :: 'a word))"
  then have i: "i < length bs" by simp
  show "to_le (length bs) (of_le bs :: 'a word) ! i = bs ! i"
  proof (rule word_bits_eqI)
    fix j assume "j < LENGTH(8)"
    then have j: "j < 8" by simp
    have "8 * i + j < LENGTH('a)" using i j assms by linarith
    then show "bit (to_le (length bs) (of_le bs :: 'a word) ! i) j \<longleftrightarrow> bit (bs ! i) j"
      using i j by (simp add: bit_to_le bit_of_le)
  qed
qed simp

lemma of_le_inj:
  assumes "length bs = length cs" "8 * length bs \<le> LENGTH('a)"
    and "(of_le bs :: 'a::len word) = of_le cs"
  shows "bs = cs"
  by (metis assms to_le_of_le)

lemma get_le_append1 [simp]:
  "off + n \<le> length bs \<Longrightarrow> get_le n off (bs @ cs) = get_le n off bs"
  by (simp add: get_le_def)

lemma get_le_append2 [simp]:
  "length bs \<le> off \<Longrightarrow> get_le n off (bs @ cs) = get_le n (off - length bs) cs"
  by (simp add: get_le_def)

lemma get_le_to_le [simp]:
  "LENGTH('a) \<le> 8 * n \<Longrightarrow> get_le n 0 (to_le n (w::'a::len word)) = w"
  by (simp add: get_le_def)

lemma get_le_to_le_append [simp]:
  "LENGTH('a) \<le> 8 * n \<Longrightarrow> get_le n 0 (to_le n (w::'a::len word) @ cs) = w"
  by (simp add: get_le_def)

end
