(* ===== verification/Mbr.thy ===== *)
theory Mbr
  imports Bytes
begin

text \<open>
  The Master Boot Record of \<open>src/fs/partitions/mbr.rs\<close> and the format-independent
  partitions of \<open>src/fs/partitions/mod.rs\<close>: the packed entry with its accessors,
  the partition types, the table and how it is loaded from the first sector of a
  drive. A drive is an argument of the functions that read from it: \<open>read\<close> takes
  the first sector and the number of sectors and returns the data of the completed
  request, if there is any.
\<close>

subsection \<open>Partition types\<close>

datatype ptype =
    PT_Empty | DOSFat12 | XenixRoot | XenixUsr | DOS3Fat16 | Extended | DOS331Fat16 | OS2IFS
  | NTFS | Fat32 | Fat32LBA | EXFAT | DOSFat16LBA | ExtendedLBA | LinuxSwap | LinuxNative
  | LinuxExtended | LinuxLVM | BSDI | OpenBSD | MacOSX | MacOSXBoot | MacOSXHFS | LUKS
  | PT_GPT | PT_Unknown

fun u8_of_partition_type :: "ptype \<Rightarrow> u8" where
  "u8_of_partition_type PT_Empty = 0"
| "u8_of_partition_type DOSFat12 = 1"
| "u8_of_partition_type XenixRoot = 2"
| "u8_of_partition_type XenixUsr = 3"
| "u8_of_partition_type DOS3Fat16 = 4"
| "u8_of_partition_type Extended = 5"
| "u8_of_partition_type DOS331Fat16 = 6"
| "u8_of_partition_type OS2IFS = 7"
| "u8_of_partition_type NTFS = 7"
| "u8_of_partition_type EXFAT = 7"
| "u8_of_partition_type Fat32 = 0xB"
| "u8_of_partition_type Fat32LBA = 0xC"
| "u8_of_partition_type DOSFat16LBA = 0xE"
| "u8_of_partition_type ExtendedLBA = 0xF"
| "u8_of_partition_type LinuxSwap = 0x82"
| "u8_of_partition_type LinuxNative = 0x83"
| "u8_of_partition_type LinuxExtended = 0x85"
| "u8_of_partition_type LinuxLVM = 0x8E"
| "u8_of_partition_type BSDI = 0x9F"
| "u8_of_partition_type OpenBSD = 0xA6"
| "u8_of_partition_type MacOSX = 0xA8"
| "u8_of_partition_type MacOSXBoot = 0xAB"
| "u8_of_partition_type MacOSXHFS = 0xAF"
| "u8_of_partition_type LUKS = 0xE8"
| "u8_of_partition_type PT_GPT = 0xEE"
| "u8_of_partition_type PT_Unknown = 0xEA"

definition partition_type_of_u8 :: "u8 \<Rightarrow> ptype" where
  "partition_type_of_u8 value =
    (if value = 0 then PT_Empty
     else if value = 1 then DOSFat12
     else if value = 2 then XenixRoot
     else if value = 3 then XenixUsr
     else if value = 4 then DOS3Fat16
     else if value = 5 then Extended
     else if value = 6 then DOS331Fat16
     else if value = 7 then NTFS
     else if value = 0xB then Fat32
     else if value = 0xC then Fat32LBA
     else if value = 0xE then DOSFat16LBA
     else if value = 0xF then ExtendedLBA
     else if value = 0x82 then LinuxSwap
     else if value = 0x83 then LinuxNative
     else if value = 0x85 then LinuxExtended
     else if value = 0x8E then LinuxLVM
     else if value = 0x9F then BSDI
     else if value = 0xA6 then OpenBSD
     else if value = 0xA8 then MacOSX
     else if value = 0xAB then MacOSXBoot
     else if value = 0xAF then MacOSXHFS
     else if value = 0xE8 then LUKS
     else if value = 0xEE then PT_GPT
     else PT_Unknown)"

subsection \<open>Entries\<close>

record chs =
  chs0 :: u8
  chs1 :: u8
  chs2 :: u8

record mbr_partition_entry =
  mbr_attributes :: u8
  chs_start :: chs
  part_type :: u8
  chs_last :: chs
  lba_start :: u32
  mbr_sectors :: u32

definition is_active :: "mbr_partition_entry \<Rightarrow> bool" where
  "is_active e \<longleftrightarrow> 0x80 \<le> mbr_attributes e \<and> mbr_attributes e < 0x8F"

definition set_active :: "bool \<Rightarrow> mbr_partition_entry \<Rightarrow> mbr_partition_entry" where
  "set_active active e = e\<lparr>mbr_attributes := if active then 0x80 else 0\<rparr>"

definition mbr_is_used :: "mbr_partition_entry \<Rightarrow> bool" where
  "mbr_is_used e \<longleftrightarrow> part_type e \<noteq> 0"

definition starting_head :: "mbr_partition_entry \<Rightarrow> u8" where
  "starting_head e = chs0 (chs_start e)"

definition set_starting_head :: "u8 \<Rightarrow> mbr_partition_entry \<Rightarrow> mbr_partition_entry" where
  "set_starting_head head e = e\<lparr>chs_start := (chs_start e)\<lparr>chs0 := head\<rparr>\<rparr>"

definition starting_sector :: "mbr_partition_entry \<Rightarrow> u8" where
  "starting_sector e = chs1 (chs_start e) AND 0x3F"

definition set_starting_sector :: "u8 \<Rightarrow> mbr_partition_entry \<Rightarrow> mbr_partition_entry" where
  "set_starting_sector sector e =
    e\<lparr>chs_start := (chs_start e)\<lparr>chs1 := (chs1 (chs_start e) AND NOT 0x3F) OR sector\<rparr>\<rparr>"

definition starting_cylinder :: "mbr_partition_entry \<Rightarrow> u16" where
  "starting_cylinder e =
    push_bit 2 (ucast (chs1 (chs_start e)) AND NOT 0x3F) OR ucast (chs2 (chs_start e))"

definition set_starting_cylinder :: "u16 \<Rightarrow> mbr_partition_entry \<Rightarrow> mbr_partition_entry" where
  "set_starting_cylinder cylinder e =
    e\<lparr>chs_start := (chs_start e)\<lparr>
        chs1 := (chs1 (chs_start e) AND 0x3F) OR ucast (drop_bit 2 cylinder AND NOT 0xFF),
        chs2 := ucast (cylinder AND 0xFF)\<rparr>\<rparr>"

definition mbr_start_lba :: "mbr_partition_entry \<Rightarrow> u32" where
  "mbr_start_lba e = lba_start e"

definition mbr_set_start_lba :: "u32 \<Rightarrow> mbr_partition_entry \<Rightarrow> mbr_partition_entry" where
  "mbr_set_start_lba lba e = e\<lparr>lba_start := lba\<rparr>"

definition sectors_count :: "mbr_partition_entry \<Rightarrow> u32" where
  "sectors_count e = mbr_sectors e"

definition set_sectors_count :: "u32 \<Rightarrow> mbr_partition_entry \<Rightarrow> mbr_partition_entry" where
  "set_sectors_count count e = e\<lparr>mbr_sectors := count\<rparr>"

definition partition_type :: "mbr_partition_entry \<Rightarrow> ptype" where
  "partition_type e = partition_type_of_u8 (part_type e)"

definition set_partition_type :: "ptype \<Rightarrow> mbr_partition_entry \<Rightarrow> mbr_partition_entry" where
  "set_partition_type t e = e\<lparr>part_type := u8_of_partition_type t\<rparr>"

text \<open>\<open>ptr::read\<close> of a packed entry: the fields in declaration order, without padding.\<close>

definition read_mbr_entry :: "u8 list \<Rightarrow> mbr_partition_entry" where
  "read_mbr_entry bs = \<lparr>
     mbr_attributes = get_le 1 0 bs,
     chs_start = \<lparr>chs0 = get_le 1 1 bs, chs1 = get_le 1 2 bs, chs2 = get_le 1 3 bs\<rparr>,
     part_type = get_le 1 4 bs,
     chs_last = \<lparr>chs0 = get_le 1 5 bs, chs1 = get_le 1 6 bs, chs2 = get_le 1 7 bs\<rparr>,
     lba_start = get_le 4 8 bs,
     mbr_sectors = get_le 4 12 bs\<rparr>"

subsection \<open>Facts\<close>

definition mbr_entry_bytes :: "mbr_partition_entry \<Rightarrow> u8 list" where
  "mbr_entry_bytes e =
    to_le 1 (mbr_attributes e) @
    to_le 1 (chs0 (chs_start e)) @ to_le 1 (chs1 (chs_start e)) @ to_le 1 (chs2 (chs_start e)) @
    to_le 1 (part_type e) @
    to_le 1 (chs0 (chs_last e)) @ to_le 1 (chs1 (chs_last e)) @ to_le 1 (chs2 (chs_last e)) @
    to_le 4 (lba_start e) @ to_le 4 (mbr_sectors e)"

lemma length_mbr_entry_bytes [simp]: "length (mbr_entry_bytes e) = 16"
  by (simp add: mbr_entry_bytes_def)

lemma read_mbr_entry_bytes [simp]: "read_mbr_entry (mbr_entry_bytes e @ rest) = e"
  by (simp add: read_mbr_entry_def mbr_entry_bytes_def)

lemma six_bits: "(0x3F::u8) = mask 6" "(0x3F::u16) = mask 6" "(0xFF::u16) = mask 8"
  by (simp_all add: mask_eq_exp_minus_1)

lemma starting_cylinder_bits:
  "bit (starting_cylinder e) i \<longleftrightarrow>
    (if i < 8 then bit (chs2 (chs_start e)) i else i < 10 \<and> bit (chs1 (chs_start e)) (i - 2))"
  unfolding starting_cylinder_def six_bits
  by (auto simp: bit_simps dest: bit_imp_le_length)

lemma set_starting_cylinder_get:
  "starting_cylinder (set_starting_cylinder c e) = c AND mask 8"
  by (rule word_bits_eqI)
    (auto simp: starting_cylinder_bits set_starting_cylinder_def six_bits bit_simps
       simp del: mask_numeral dest: bit_imp_le_length)

lemma starting_sector_set:
  "starting_sector (set_starting_sector sector e) = sector AND mask 6"
  unfolding starting_sector_def set_starting_sector_def six_bits
  by (rule word_bits_eqI) (auto simp: bit_simps)

text \<open>C15. The partition types and the bytes that encode them are inverse up to the three
  names of the byte 7 and the bytes without a name: decoding an encoded type gives
  it back (\<open>OS2IFS\<close> and \<open>EXFAT\<close> read as \<open>NTFS\<close>), and encoding a decoded byte gives it
  back unless the byte is unknown.\<close>

theorem partition_type_roundtrip:
  "partition_type_of_u8 (u8_of_partition_type t) = (if t = OS2IFS \<or> t = EXFAT then NTFS else t) \<and>
   u8_of_partition_type (partition_type_of_u8 b) =
     (if partition_type_of_u8 b = PT_Unknown then 0xEA else b)"
proof
  show "partition_type_of_u8 (u8_of_partition_type t) =
      (if t = OS2IFS \<or> t = EXFAT then NTFS else t)"
    by (cases t) (simp_all add: partition_type_of_u8_def)
  show "u8_of_partition_type (partition_type_of_u8 b) =
      (if partition_type_of_u8 b = PT_Unknown then 0xEA else b)"
    by (simp add: partition_type_of_u8_def)
qed

end
