(* ===== verification/Partitions.thy ===== *)
theory Partitions
  imports Mbr Crc
begin

text \<open>
  Partition tables: the GUID Partition Table of \<open>src/fs/partitions/gpt.rs\<close>, the
  format-independent partitions of \<open>src/fs/partitions/mod.rs\<close>, the table of the
  Master Boot Record, and how a device loads them (\<open>load_partition_table\<close> of
  \<open>src/drivers/ide/ata_pio.rs\<close> and \<open>src/drivers/ahci/device.rs\<close>, which are the same
  code). The disk is an argument: what a completed read request returns, the number
  of its last sector and its identifier. The messages written to the log are left
  out.
\<close>

subsection \<open>Disks\<close>

datatype sata_device_type = IDE | AHCI

record ata_device_identifier =
  disk_type :: sata_device_type
  ide_controller :: u64
  device_id :: u64

record disk =
  d_read :: "u64 \<Rightarrow> u16 \<Rightarrow> u8 list option"
  d_max_sector :: u64
  d_id :: ata_device_identifier

definition internal_identifier :: "ata_device_identifier \<Rightarrow> u64" where
  "internal_identifier i = ide_controller i * 4 + device_id i"

text \<open>Documented behaviour of a disk with sectors of 512 bytes: a successful request
  returns as many bytes as were asked for.\<close>

definition sector_disk :: "disk \<Rightarrow> bool" where
  "sector_disk d \<longleftrightarrow>
    (\<forall>lba n bs. d_read d lba n = Some bs \<longrightarrow> length bs = 512 * unat n)"

subsection \<open>GPT entries\<close>

record gpt_partition_entry =
  type_guid :: u128
  partition_guid :: u128
  starting_lba :: u64
  last_lba :: u64
  gpt_attributes :: u64
  partition_name :: "u16 list"

definition gpt_entry_new_empty :: gpt_partition_entry where
  "gpt_entry_new_empty = \<lparr>type_guid = 0, partition_guid = 0, starting_lba = 0, last_lba = 0,
     gpt_attributes = 0, partition_name = replicate 36 0\<rparr>"

definition gpt_start_lba :: "gpt_partition_entry \<Rightarrow> u64" where
  "gpt_start_lba e = starting_lba e"

definition gpt_guid :: "gpt_partition_entry \<Rightarrow> u128" where
  "gpt_guid e = partition_guid e"

definition size_in_sectors :: "gpt_partition_entry \<Rightarrow> u64" where
  "size_in_sectors e = last_lba e - starting_lba e"

definition gpt_is_used :: "gpt_partition_entry \<Rightarrow> bool" where
  "gpt_is_used e \<longleftrightarrow> type_guid e \<noteq> 0"

definition is_required :: "gpt_partition_entry \<Rightarrow> bool" where
  "is_required e \<longleftrightarrow> gpt_attributes e AND 0x1 \<noteq> 0"

definition no_blockio_prot :: "gpt_partition_entry \<Rightarrow> bool" where
  "no_blockio_prot e \<longleftrightarrow> gpt_attributes e AND 0x2 \<noteq> 0"

definition legacy_bootable :: "gpt_partition_entry \<Rightarrow> bool" where
  "legacy_bootable e \<longleftrightarrow> gpt_attributes e AND 0x8 \<noteq> 0"

text \<open>\<open>String::from_utf16\<close> of the standard library: surrogates come in pairs, anything
  else is its own code point.\<close>

fun from_utf16 :: "u16 list \<Rightarrow> nat list option" where
  "from_utf16 [] = Some []"
| "from_utf16 [u] =
    (if 0xD800 \<le> u \<and> u \<le> 0xDFFF then None else Some [unat u])"
| "from_utf16 (u # v # us) =
    (if \<not> (0xD800 \<le> u \<and> u \<le> 0xDFFF) then map_option ((#) (unat u)) (from_utf16 (v # us))
     else if u \<le> 0xDBFF \<and> 0xDC00 \<le> v \<and> v \<le> 0xDFFF
     then map_option ((#) (0x10000 + (unat u - 0xD800) * 0x400 + (unat v - 0xDC00))) (from_utf16 us)
     else None)"

definition gpt_name :: "gpt_partition_entry \<Rightarrow> nat list option" where
  "gpt_name e = from_utf16 (filter (\<lambda>c. c \<noteq> 0) (partition_name e))"

definition read_gpt_entry :: "u8 list \<Rightarrow> gpt_partition_entry" where
  "read_gpt_entry bs = \<lparr>
     type_guid = get_le 16 0 bs,
     partition_guid = get_le 16 16 bs,
     starting_lba = get_le 8 32 bs,
     last_lba = get_le 8 40 bs,
     gpt_attributes = get_le 8 48 bs,
     partition_name = map (\<lambda>i. get_le 2 (56 + 2 * i) bs) [0..<36]\<rparr>"

subsection \<open>GPT headers\<close>

record gpt_header =
  sig :: u64
  revision :: u32
  header_size :: u32
  checksum :: u32
  reserved :: u32
  my_lba :: u64
  alternate_lba :: u64
  first_usable_lba :: u64
  last_usable_lba :: u64
  disk_guid :: u128
  part_entry_lba :: u64
  partitions_count :: u32
  part_entry_size :: u32
  part_entry_array_crc32 :: u32

definition gpt_header_new_empty :: gpt_header where
  "gpt_header_new_empty = \<lparr>sig = 0, revision = 0, header_size = 0, checksum = 0, reserved = 0,
     my_lba = 0, alternate_lba = 0, first_usable_lba = 0, last_usable_lba = 0, disk_guid = 0,
     part_entry_lba = 0, partitions_count = 0, part_entry_size = 0, part_entry_array_crc32 = 0\<rparr>"

definition read_gpt_header :: "u8 list \<Rightarrow> gpt_header" where
  "read_gpt_header bs = \<lparr>
     sig = get_le 8 0 bs,
     revision = get_le 4 8 bs,
     header_size = get_le 4 12 bs,
     checksum = get_le 4 16 bs,
     reserved = get_le 4 20 bs,
     my_lba = get_le 8 24 bs,
     alternate_lba = get_le 8 32 bs,
     first_usable_lba = get_le 8 40 bs,
     last_usable_lba = get_le 8 48 bs,
     disk_guid = get_le 16 56 bs,
     part_entry_lba = get_le 8 72 bs,
     partitions_count = get_le 4 80 bs,
     part_entry_size = get_le 4 84 bs,
     part_entry_array_crc32 = get_le 4 88 bs\<rparr>"

text \<open>The memory of a header, read as bytes.\<close>

definition gpt_header_bytes :: "gpt_header \<Rightarrow> u8 list" where
  "gpt_header_bytes h =
     to_le 8 (sig h) @ to_le 4 (revision h) @ to_le 4 (header_size h) @ to_le 4 (checksum h) @
     to_le 4 (reserved h) @ to_le 8 (my_lba h) @ to_le 8 (alternate_lba h) @
     to_le 8 (first_usable_lba h) @ to_le 8 (last_usable_lba h) @ to_le 16 (disk_guid h) @
     to_le 8 (part_entry_lba h) @ to_le 4 (partitions_count h) @ to_le 4 (part_entry_size h) @
     to_le 4 (part_entry_array_crc32 h)"

text \<open>The checksum field is zero while the checksum is computed and stays zero when the
  header is refused. A header size beyond the structure makes the slice reach
  outside of the object: \<open>None\<close>.\<close>

definition is_valid :: "gpt_header \<Rightarrow> (bool \<times> gpt_header) option" where
  "is_valid h =
    (if sig h \<noteq> 0x5452415020494645 then Some (False, h)
     else
       let crc_32 = checksum h;
           h = h\<lparr>checksum := 0\<rparr>
       in if unat (header_size h) > length (gpt_header_bytes h) then None
          else
            let new_crc32 = crc32_calc (take (unat (header_size h)) (gpt_header_bytes h))
            in if crc_32 \<noteq> new_crc32 then Some (False, h)
               else Some (True, h\<lparr>checksum := crc_32\<rparr>))"

subsection \<open>Partitions\<close>

datatype partition_metadata = Meta_MBR mbr_partition_entry | Meta_GPT gpt_partition_entry

datatype 'fs part_fs = FS_Ext4 'fs | FS_Unknown

record 'fs partition =
  p_id :: nat
  p_drive_id :: ata_device_identifier
  metadata :: partition_metadata
  p_fs :: "'fs part_fs"

definition from_metadata ::
  "nat \<Rightarrow> ata_device_identifier \<Rightarrow> partition_metadata \<Rightarrow> 'fs partition option" where
  "from_metadata part_id drive_id meta =
    Some \<lparr>p_id = part_id, p_drive_id = drive_id, metadata = meta, p_fs = FS_Unknown\<rparr>"

definition start_lba :: "'fs partition \<Rightarrow> u64" where
  "start_lba p = (case metadata p of
     Meta_MBR meta \<Rightarrow> ucast (mbr_start_lba meta)
   | Meta_GPT meta \<Rightarrow> gpt_start_lba meta)"

subsection \<open>The Master Boot Record of a drive\<close>

record mbr_partition_table =
  mbr_drive_id :: ata_device_identifier
  mbr_partitions :: "mbr_partition_entry list"

definition MBR_PART_OFFSET :: nat where
  "MBR_PART_OFFSET = 0x1BE"

definition load_drive_mbr :: "disk \<Rightarrow> u64 \<Rightarrow> mbr_partition_table option" where
  "load_drive_mbr d sectors_offset = do {
     first_sector \<leftarrow> d_read d sectors_offset 1;
     if MBR_PART_OFFSET + 4 * 16 > length first_sector then None
     else Some \<lparr>mbr_drive_id = d_id d,
       mbr_partitions = map (\<lambda>i. read_mbr_entry (drop (MBR_PART_OFFSET + 16 * i) first_sector)) [0..<4]\<rparr>
   }"

definition get_partition_metadata :: "mbr_partition_table \<Rightarrow> mbr_partition_entry list" where
  "get_partition_metadata t = mbr_partitions t"

fun collect_mbr ::
  "ata_device_identifier \<Rightarrow> nat \<Rightarrow> mbr_partition_entry list \<Rightarrow> 'fs partition list option" where
  "collect_mbr drive_id i [] = Some []"
| "collect_mbr drive_id i (e # es) =
    (if mbr_is_used e then do {
       partition \<leftarrow> from_metadata i drive_id (Meta_MBR e);
       partitions \<leftarrow> collect_mbr drive_id (i + 1) es;
       Some (partition # partitions)
     } else collect_mbr drive_id (i + 1) es)"

definition mbr_get_partitions :: "mbr_partition_table \<Rightarrow> 'fs partition list option" where
  "mbr_get_partitions t = collect_mbr (mbr_drive_id t) 0 (mbr_partitions t)"

definition is_pmbr :: "mbr_partition_table \<Rightarrow> bool option" where
  "is_pmbr t = do {
     (partitions :: unit partition list) \<leftarrow> mbr_get_partitions t;
     Some (length partitions = 1 \<and>
       (case metadata (partitions ! 0) of
          Meta_MBR meta \<Rightarrow> partition_type meta = PT_GPT
        | Meta_GPT _ \<Rightarrow> False))
   }"

subsection \<open>The GUID Partition Table of a drive\<close>

record gpt =
  gpt_drive_id :: ata_device_identifier
  gpt_hdr :: gpt_header
  gpt_partitions :: "gpt_partition_entry list"

definition gpt_new ::
  "ata_device_identifier \<Rightarrow> gpt_header \<Rightarrow> gpt_partition_entry list \<Rightarrow> gpt" where
  "gpt_new drive_id header partitions =
    \<lparr>gpt_drive_id = drive_id, gpt_hdr = header, gpt_partitions = partitions\<rparr>"

fun collect_gpt ::
  "ata_device_identifier \<Rightarrow> nat \<Rightarrow> gpt_partition_entry list \<Rightarrow> 'fs partition list option" where
  "collect_gpt drive_id i [] = Some []"
| "collect_gpt drive_id i (e # es) = do {
     part \<leftarrow> from_metadata i drive_id (Meta_GPT e);
     partitions \<leftarrow> collect_gpt drive_id (i + 1) es;
     Some (part # partitions)
   }"

definition gpt_get_partitions :: "gpt \<Rightarrow> 'fs partition list option" where
  "gpt_get_partitions t = collect_gpt (gpt_drive_id t) 0 (gpt_partitions t)"

text \<open>The loop over the entry array. The offsets are products of 32-bit numbers; a slice
  whose bounds are out of order or beyond the buffer panics, and the read of the
  entry itself must stay inside of the buffer.\<close>

fun load_entries ::
  "u8 list \<Rightarrow> u32 \<Rightarrow> u32 list \<Rightarrow> gpt_partition_entry list option" where
  "load_entries buffer esize [] = Some []"
| "load_entries buffer esize (i # is) =
    (let first = unat (i * esize); last = unat ((i + 1) * esize)
     in if first > last \<or> last > length buffer \<or> first + 128 > length buffer then None
        else do {
          rest \<leftarrow> load_entries buffer esize is;
          let partition = read_gpt_entry (drop first buffer);
          Some (if gpt_is_used partition then partition # rest else rest)
        })"

definition entry_buffer_sectors :: "gpt_header \<Rightarrow> u32" where
  "entry_buffer_sectors h = partitions_count h * part_entry_size h div 0x200 + 1"

text \<open>The header found in a sector, and what \<open>is_valid\<close> answers for it.\<close>

definition probe_header :: "u8 list \<Rightarrow> (bool \<times> gpt_header) option" where
  "probe_header bytes =
    (if length bytes < 92 then None else is_valid (read_gpt_header bytes))"

text \<open>The part of \<open>load_drive_gpt\<close> after a valid header was found. The inner option is
  the result of the function, the outer one is \<open>None\<close> for a panic. A checksum
  mismatch of the entry array is only logged.\<close>

definition load_gpt_entries :: "disk \<Rightarrow> gpt_header \<Rightarrow> gpt option option" where
  "load_gpt_entries d header =
    (case d_read d (part_entry_lba header) (ucast (entry_buffer_sectors header)) of
       None \<Rightarrow> Some None
     | Some buffer \<Rightarrow> do {
         partitions \<leftarrow> load_entries buffer (part_entry_size header)
           (map word_of_nat [0..<unat (partitions_count header)]);
         Some (Some (gpt_new (d_id d) header partitions))
       })"

definition load_drive_gpt :: "disk \<Rightarrow> gpt option option" where
  "load_drive_gpt d = do {
     pmbr \<leftarrow> load_drive_mbr d 0;
     protective \<leftarrow> is_pmbr pmbr;
     if \<not> protective then Some None
     else case d_read d 1 1 of
       None \<Rightarrow> Some None
     | Some raw \<Rightarrow> do {
         (valid, header) \<leftarrow> probe_header raw;
         if valid then load_gpt_entries d header
         else case d_read d (d_max_sector d - 1) 1 of
           None \<Rightarrow> Some None
         | Some raw \<Rightarrow> do {
             (valid, header) \<leftarrow> probe_header raw;
             if valid then load_gpt_entries d header else Some None
           }
       }
   }"

subsection \<open>Loading the partitions of a device\<close>

datatype mount_error = ME_Unknown | InvalidChecksum | BadSuperblock | ME_IOError

text \<open>The file system of a partition is found and mounted by \<open>identify\<close> and \<open>mount\<close> of
  the file-system code, arguments here. A partition type without support panics.\<close>

definition load_ext4 ::
  "(ata_device_identifier \<Rightarrow> u64 \<Rightarrow> ('io, bool) result) \<Rightarrow>
   (ata_device_identifier \<Rightarrow> nat \<Rightarrow> u64 \<Rightarrow> (mount_error, 'fs) result) \<Rightarrow>
   'fs partition \<Rightarrow> u64 \<Rightarrow> (mount_error, 'fs part_fs) result" where
  "load_ext4 identify mount p lba =
    (case identify (p_drive_id p) lba of
       Inl _ \<Rightarrow> Inl ME_IOError
     | Inr found \<Rightarrow>
         if found then (case mount (p_drive_id p) (p_id p) lba of
             Inl e \<Rightarrow> Inl e | Inr fs \<Rightarrow> Inr (FS_Ext4 fs))
         else Inr FS_Unknown)"

definition load_fs ::
  "(ata_device_identifier \<Rightarrow> u64 \<Rightarrow> ('io, bool) result) \<Rightarrow>
   (ata_device_identifier \<Rightarrow> nat \<Rightarrow> u64 \<Rightarrow> (mount_error, 'fs) result) \<Rightarrow>
   'fs partition \<Rightarrow> (mount_error, 'fs partition) result option" where
  "load_fs identify mount p =
    (let set_fs = map_sum id (\<lambda>fs. p\<lparr>p_fs := fs\<rparr>)
     in case metadata p of
       Meta_MBR meta \<Rightarrow>
         (case partition_type meta of
            PT_Empty \<Rightarrow> Some (set_fs (Inr FS_Unknown))
          | LinuxNative \<Rightarrow> Some (set_fs (load_ext4 identify mount p (ucast (mbr_start_lba meta))))
          | PT_GPT \<Rightarrow> Some (set_fs (Inr FS_Unknown))
          | PT_Unknown \<Rightarrow> Some (set_fs (Inr FS_Unknown))
          | _ \<Rightarrow> None)
     | Meta_GPT meta \<Rightarrow> Some (set_fs (load_ext4 identify mount p (gpt_start_lba meta))))"

fun load_all_fs ::
  "('fs partition \<Rightarrow> (mount_error, 'fs partition) result option) \<Rightarrow>
   'fs partition list \<Rightarrow> 'fs partition list option" where
  "load_all_fs load [] = Some []"
| "load_all_fs load (p # ps) = do {
     r \<leftarrow> load p;
     p \<leftarrow> (case r of Inl _ \<Rightarrow> None | Inr p \<Rightarrow> Some p);
     ps \<leftarrow> load_all_fs load ps;
     Some (p # ps)
   }"

text \<open>The linked list of extended boot records. It may be cyclic on a disk, and then the
  loop does not end.\<close>

partial_function (option) ebr_walk ::
  "disk \<Rightarrow> mbr_partition_entry \<Rightarrow> 'fs partition list \<Rightarrow> 'fs partition list option" where
  "ebr_walk d meta acc = do {
     table \<leftarrow> load_drive_mbr d (ucast (mbr_start_lba meta));
     let partitions = get_partition_metadata table;
     if mbr_is_used (partitions ! 1) \<or> mbr_is_used (partitions ! 0) then do {
       let ext_part = mbr_set_start_lba (mbr_start_lba (partitions ! 0) + mbr_start_lba meta)
                        (partitions ! 0);
       p \<leftarrow> from_metadata 0 (d_id d) (Meta_MBR ext_part);
       ebr_walk d (partitions ! 1) (acc @ [p])
     } else Some acc
   }"

fun walk_extended ::
  "disk \<Rightarrow> 'fs partition list \<Rightarrow> 'fs partition list \<Rightarrow> 'fs partition list option" where
  "walk_extended d [] acc = Some acc"
| "walk_extended d (p # ps) acc =
    (case metadata p of
       Meta_MBR meta \<Rightarrow>
         if partition_type meta = Extended \<or> partition_type meta = ExtendedLBA
         then do { acc \<leftarrow> ebr_walk d meta acc; walk_extended d ps acc }
         else walk_extended d ps acc
     | Meta_GPT _ \<Rightarrow> walk_extended d ps acc)"

datatype partition_table = Table_MBR mbr_partition_table | Table_GPT gpt | Table_Unknown

definition load_partition_table ::
  "(ata_device_identifier \<Rightarrow> u64 \<Rightarrow> ('io, bool) result) \<Rightarrow>
   (ata_device_identifier \<Rightarrow> nat \<Rightarrow> u64 \<Rightarrow> (mount_error, 'fs) result) \<Rightarrow>
   disk \<Rightarrow> ('fs partition list \<times> partition_table) option" where
  "load_partition_table identify mount d = do {
     mbr \<leftarrow> load_drive_mbr d 0;
     protective \<leftarrow> is_pmbr mbr;
     found \<leftarrow> (if protective then load_drive_gpt d else Some None);
     (case found of
        Some gpt \<Rightarrow> do {
          partitions \<leftarrow> gpt_get_partitions gpt;
          partitions \<leftarrow> load_all_fs (load_fs identify mount) partitions;
          Some (partitions, Table_GPT gpt)
        }
      | None \<Rightarrow> do {
          partitions \<leftarrow> mbr_get_partitions mbr;
          partitions \<leftarrow> walk_extended d partitions partitions;
          Some (partitions, Table_MBR mbr)
        })
   }"

text \<open>The AHCI driver has its own copy of the function, with the same statements.\<close>

definition ahci_load_partition_table ::
  "(ata_device_identifier \<Rightarrow> u64 \<Rightarrow> ('io, bool) result) \<Rightarrow>
   (ata_device_identifier \<Rightarrow> nat \<Rightarrow> u64 \<Rightarrow> (mount_error, 'fs) result) \<Rightarrow>
   disk \<Rightarrow> ('fs partition list \<times> partition_table) option" where
  "ahci_load_partition_table identify mount d = load_partition_table identify mount d"

subsection \<open>Headers\<close>

lemma to_le_get_le:
  assumes "off + n \<le> length bs" "8 * n \<le> LENGTH('a)"
  shows "to_le n (get_le n off bs :: 'a::len word) = take n (drop off bs)"
  using to_le_of_le [of "take n (drop off bs)", where 'a = 'a] assms by (simp add: get_le_def)

lemma take_drop_join:
  "b = a + n \<Longrightarrow> take n (drop a xs) @ take m (drop b xs) = take (n + m) (drop a xs)"
  by (simp add: take_add) (simp add: add.commute)

lemma take_drop_join_append:
  "b = a + n \<Longrightarrow> take n (drop a xs) @ take m (drop b xs) @ ys = take (n + m) (drop a xs) @ ys"
  by (metis append_assoc take_drop_join)

lemmas take_join = take_drop_join take_drop_join_append
  take_drop_join [of _ 0, simplified] take_drop_join_append [of _ 0, simplified]

definition blank_checksum :: "u8 list \<Rightarrow> u8 list" where
  "blank_checksum bs = take 16 bs @ [0, 0, 0, 0] @ drop 20 bs"

lemma header_bytes_read:
  assumes "92 \<le> length bs"
  shows "gpt_header_bytes ((read_gpt_header bs)\<lparr>checksum := 0\<rparr>) = take 92 (blank_checksum bs)"
proof -
  have z: "to_le 4 (0::u32) = [0, 0, 0, 0]" by (simp add: to_le_def upt_rec)
  show ?thesis
    using assms
    by (simp add: gpt_header_bytes_def read_gpt_header_def to_le_get_le z blank_checksum_def
      take_join)
qed

lemma probe_header_eq:
  assumes "92 \<le> length bs" "unat (header_size (read_gpt_header bs)) \<le> 92"
  shows "map_option fst (probe_header bs) = Some
    (sig (read_gpt_header bs) = 0x5452415020494645 \<and>
     checksum (read_gpt_header bs) =
       crc32_calc (take (unat (header_size (read_gpt_header bs))) (blank_checksum bs)))"
    and "probe_header bs = Some (True, h) \<Longrightarrow> h = read_gpt_header bs"
proof -
  have len: "length (blank_checksum bs) = length bs" using assms(1) by (simp add: blank_checksum_def)
  have t: "take n (take 92 (blank_checksum bs)) = take n (blank_checksum bs)" if "n \<le> 92" for n
    using that by (simp add: min_absorb1)
  show "map_option fst (probe_header bs) = Some
    (sig (read_gpt_header bs) = 0x5452415020494645 \<and>
     checksum (read_gpt_header bs) =
       crc32_calc (take (unat (header_size (read_gpt_header bs))) (blank_checksum bs)))"
    using assms by (simp add: probe_header_def is_valid_def Let_def header_bytes_read len t)
  show "h = read_gpt_header bs" if "probe_header bs = Some (True, h)"
    using that by (auto simp: probe_header_def is_valid_def Let_def split: if_splits)
qed

lemma probe_header_total:
  assumes "92 \<le> length bs" "unat (header_size (read_gpt_header bs)) \<le> 92"
  shows "\<exists>valid h. probe_header bs = Some (valid, h)"
  using probe_header_eq(1) [OF assms] by auto

subsection \<open>Tables\<close>

definition new_partition :: "ata_device_identifier \<Rightarrow> nat \<Rightarrow> partition_metadata \<Rightarrow> 'fs partition" where
  "new_partition drive_id k meta =
    \<lparr>p_id = k, p_drive_id = drive_id, metadata = meta, p_fs = FS_Unknown\<rparr>"

lemma collect_gpt_eq:
  "collect_gpt drive_id i es =
    Some (map (\<lambda>x. new_partition drive_id (fst x) (Meta_GPT (snd x))) (zip [i..<i + length es] es))"
  by (induction es arbitrary: i)
    (simp_all add: from_metadata_def new_partition_def upt_conv_Cons del: upt_Suc)

lemma collect_mbr_eq:
  "collect_mbr drive_id i es =
    Some (map (\<lambda>x. new_partition drive_id (fst x) (Meta_MBR (snd x)))
      (filter (\<lambda>x. mbr_is_used (snd x)) (zip [i..<i + length es] es)))"
  by (induction es arbitrary: i)
    (simp_all add: from_metadata_def new_partition_def upt_conv_Cons del: upt_Suc)

lemma filter_zip_snd:
  "length ks = length es \<Longrightarrow> map snd (filter (\<lambda>x. P (snd x)) (zip ks es)) = filter P es"
  by (induction ks es rule: list_induct2) auto

lemma metadata_new_partition [simp]: "metadata (new_partition drive_id k m) = m"
  by (simp add: new_partition_def)

lemma is_pmbr_eq:
  "is_pmbr t = Some (\<exists>e. filter mbr_is_used (mbr_partitions t) = [e] \<and> partition_type e = PT_GPT)"
proof -
  let ?z = "filter (\<lambda>x. mbr_is_used (snd x)) (zip [0..<length (mbr_partitions t)] (mbr_partitions t))"
  have "map snd ?z = filter mbr_is_used (mbr_partitions t)"
    by (rule filter_zip_snd) simp
  then show ?thesis
    by (cases ?z) (auto simp: is_pmbr_def mbr_get_partitions_def collect_mbr_eq dest: sym)
qed

lemma unat_index_mult:
  assumes "i * unat (m::u32) < 2 ^ 32"
  shows "unat (word_of_nat i * m) = i * unat m"
proof (cases "unat m = 0")
  case True
  then show ?thesis by (simp add: unat_eq_0)
next
  case False
  then have "i \<le> i * unat m" by simp
  then have "i < 2 ^ 32" using assms by linarith
  then show ?thesis using assms by (simp add: unat_word_ariths unat_of_nat)
qed

lemma load_entries_eq:
  assumes "128 \<le> unat esize" "n * unat esize < 2 ^ 32" "n * unat esize \<le> length buffer"
  shows "\<forall>i\<in>set is. i < n \<Longrightarrow> load_entries buffer esize (map word_of_nat is) =
    Some (filter gpt_is_used (map (\<lambda>i. read_gpt_entry (drop (i * unat esize) buffer)) is))"
proof (induction "is")
  case (Cons i "is")
  have "Suc i * unat esize \<le> n * unat esize" using Cons.prems by (intro mult_le_mono1) auto
  then have b: "Suc i * unat esize < 2 ^ 32" "Suc i * unat esize \<le> length buffer"
    using assms by linarith+
  have f: "unat (word_of_nat i * esize) = i * unat esize"
    using b(1) by (intro unat_index_mult) simp
  have l: "unat ((word_of_nat i + 1) * esize) = Suc i * unat esize"
    using unat_index_mult [of "Suc i" esize] b(1) by (simp add: add.commute)
  show ?case using Cons assms(1) b(2) by (simp add: f l Let_def)
qed simp

subsection \<open>Extended boot records\<close>

definition ebr_used :: "mbr_partition_entry list \<Rightarrow> bool" where
  "ebr_used ps \<longleftrightarrow> mbr_is_used (ps ! 1) \<or> mbr_is_used (ps ! 0)"

definition logical_entry :: "mbr_partition_entry \<Rightarrow> mbr_partition_entry list \<Rightarrow> mbr_partition_entry" where
  "logical_entry meta ps = mbr_set_start_lba (mbr_start_lba (ps ! 0) + mbr_start_lba meta) (ps ! 0)"

lemma ebr_walk_step:
  "ebr_walk d meta acc = do {
     t \<leftarrow> load_drive_mbr d (ucast (mbr_start_lba meta));
     if ebr_used (mbr_partitions t)
     then ebr_walk d (mbr_partitions t ! 1)
       (acc @ [new_partition (d_id d) 0 (Meta_MBR (logical_entry meta (mbr_partitions t)))])
     else Some acc
   }"
  by (subst ebr_walk.simps, cases "load_drive_mbr d (ucast (mbr_start_lba meta))")
    (simp_all add: ebr_used_def logical_entry_def new_partition_def get_partition_metadata_def
      from_metadata_def Let_def)

definition is_extended :: "mbr_partition_entry \<Rightarrow> bool" where
  "is_extended e \<longleftrightarrow> partition_type e = Extended \<or> partition_type e = ExtendedLBA"

lemma walk_extended_none:
  "\<forall>p\<in>set ps. \<forall>e. metadata p = Meta_MBR e \<longrightarrow> \<not> is_extended e \<Longrightarrow> walk_extended d ps acc = Some acc"
  by (induction ps) (auto simp: is_extended_def split: partition_metadata.split)

lemma walk_extended_stuck:
  fixes ps :: "'fs partition list"
  assumes "Meta_MBR e \<in> metadata ` set ps" "is_extended e" "\<And>acc :: 'fs partition list. ebr_walk d e acc = None"
  shows "walk_extended d ps acc = None"
  using assms(1)
proof (induction ps arbitrary: acc)
  case (Cons p ps)
  show ?case
  proof (cases "metadata p = Meta_MBR e")
    case True
    then show ?thesis using assms(2,3) by (simp add: is_extended_def)
  next
    case False
    then have "walk_extended d ps acc = None" for acc using Cons by auto
    then show ?thesis by (auto split: partition_metadata.split simp: bind_eq_None_conv)
  qed
qed simp

text \<open>A set of sectors that the walk never leaves: every record there has a used entry and
  a link into the set.\<close>

definition ebr_trap :: "disk \<Rightarrow> u32 set \<Rightarrow> bool" where
  "ebr_trap d S \<longleftrightarrow> (\<forall>lba\<in>S. \<exists>t. load_drive_mbr d (ucast lba) = Some t \<and>
     ebr_used (mbr_partitions t) \<and> mbr_start_lba (mbr_partitions t ! 1) \<in> S)"

lemma ebr_walk_trapped:
  assumes "ebr_walk d meta acc = Some r" "ebr_trap d S"
  shows "mbr_start_lba meta \<notin> S"
proof -
  have "ebr_trap d S \<longrightarrow> mbr_start_lba meta \<notin> S"
  proof (rule ebr_walk.raw_induct [of "\<lambda>d meta acc r. ebr_trap d S \<longrightarrow> mbr_start_lba meta \<notin> S",
        OF _ assms(1)], intro impI notI)
    fix walk :: "disk \<Rightarrow> mbr_partition_entry \<Rightarrow> 'a partition list \<Rightarrow> 'a partition list option"
      and d meta acc r
    assume ih: "\<And>d meta acc r. walk d meta acc = Some r \<Longrightarrow>
        ebr_trap d S \<longrightarrow> mbr_start_lba meta \<notin> S"
      and body: "load_drive_mbr d (ucast (mbr_start_lba meta)) \<bind>
        (\<lambda>table. let partitions = get_partition_metadata table
           in if mbr_is_used (partitions ! 1) \<or> mbr_is_used (partitions ! 0)
              then let ext_part = mbr_set_start_lba
                         (mbr_start_lba (partitions ! 0) + mbr_start_lba meta) (partitions ! 0)
                   in from_metadata 0 (d_id d) (Meta_MBR ext_part) \<bind>
                      (\<lambda>p. walk d (partitions ! 1) (acc @ [p]))
              else Some acc) = Some r"
      and trap: "ebr_trap d S" and "mbr_start_lba meta \<in> S"
    then obtain t where t: "load_drive_mbr d (ucast (mbr_start_lba meta)) = Some t"
      "ebr_used (mbr_partitions t)" "mbr_start_lba (mbr_partitions t ! 1) \<in> S"
      by (auto simp: ebr_trap_def)
    from body t obtain acc' where "walk d (mbr_partitions t ! 1) acc' = Some r"
      by (auto simp: get_partition_metadata_def Let_def ebr_used_def from_metadata_def)
    with ih trap t(3) show False by blast
  qed
  with assms(2) show ?thesis by simp
qed

lemma ebr_walk_diverges:
  "ebr_trap d S \<Longrightarrow> mbr_start_lba meta \<in> S \<Longrightarrow> ebr_walk d meta acc = None"
  using ebr_walk_trapped by (cases "ebr_walk d meta acc") blast+

text \<open>A list of used boot records, given by their sectors: each links to the next one, and the link of the
  last is empty, its sector number zero.\<close>

inductive boot_records :: "disk \<Rightarrow> u32 \<Rightarrow> u32 list \<Rightarrow> bool" for d where
  last_record: "load_drive_mbr d (ucast lba) = Some t \<Longrightarrow> ebr_used (mbr_partitions t) \<Longrightarrow>
    mbr_start_lba (mbr_partitions t ! 1) = 0 \<Longrightarrow> boot_records d lba [lba]"
| next_record: "load_drive_mbr d (ucast lba) = Some t \<Longrightarrow> ebr_used (mbr_partitions t) \<Longrightarrow>
    mbr_start_lba (mbr_partitions t ! 1) = lba' \<Longrightarrow> boot_records d lba' ls \<Longrightarrow> boot_records d lba (lba # ls)"

lemma boot_records_links:
  assumes "boot_records d lba ls"
  shows "lba \<in> set ls \<and> (\<forall>l\<in>set ls. \<exists>t. load_drive_mbr d (ucast l) = Some t \<and> ebr_used (mbr_partitions t) \<and>
    mbr_start_lba (mbr_partitions t ! 1) \<in> insert 0 (set ls))"
  using assms by (induction rule: boot_records.induct) auto

subsection \<open>Properties\<close>

lemma length_gpt_header_bytes [simp]: "length (gpt_header_bytes h) = 92"
  by (simp add: gpt_header_bytes_def)

lemma read_gpt_header_bytes [simp]: "read_gpt_header (gpt_header_bytes h @ rest) = h"
  by (simp add: read_gpt_header_def gpt_header_bytes_def)

lemma blank_checksum_low:
  "length pre + length w \<le> 16 \<Longrightarrow> blank_checksum (pre @ w @ post) =
    pre @ w @ take (16 - length pre - length w) post @ [0, 0, 0, 0] @
    drop (20 - length pre - length w) post"
  by (simp add: blank_checksum_def)

lemma blank_checksum_high:
  "20 \<le> length pre \<Longrightarrow> blank_checksum (pre @ w @ post) = blank_checksum pre @ w @ post"
  by (simp add: blank_checksum_def)

lemma length_blank_checksum: "20 \<le> length bs \<Longrightarrow> length (blank_checksum bs) = length bs"
  by (simp add: blank_checksum_def)

lemma get_le_outside:
  assumes "length w = length w'" "off + n \<le> length pre \<or> length pre + length w \<le> off"
  shows "get_le n off (pre @ w' @ post) = get_le n off (pre @ w @ post)"
  using assms by (auto simp: get_le_def)

text \<open>The changed window is inside of the bytes that are summed and outside of the
  header size and the checksum.\<close>

definition summed_window :: "nat \<Rightarrow> nat \<Rightarrow> nat \<Rightarrow> bool" where
  "summed_window hsize p n \<longleftrightarrow> (p + n \<le> 12 \<and> p + n \<le> hsize) \<or> (20 \<le> p \<and> p + n \<le> hsize)"

lemma window_sum_differs:
  assumes "summed_window hsize (length pre) (length w)" "length w' = length w" "length w \<le> 4" "w' \<noteq> w"
  shows "crc32_calc (take hsize (blank_checksum (pre @ w' @ post))) \<noteq>
    crc32_calc (take hsize (blank_checksum (pre @ w @ post)))"
proof -
  have "\<exists>a b. \<forall>v. length v = length w \<longrightarrow> take hsize (blank_checksum (pre @ v @ post)) = a @ v @ b"
  proof (cases "20 \<le> length pre")
    case True
    have "take hsize (blank_checksum (pre @ v @ post)) =
        blank_checksum pre @ v @ take (hsize - length pre - length w) post" if "length v = length w" for v
      using True assms(1) that by (simp add: blank_checksum_high length_blank_checksum summed_window_def)
    then show ?thesis by blast
  next
    case False
    then have l: "length pre + length w \<le> 12" "length pre + length w \<le> hsize"
      using assms(1) by (auto simp: summed_window_def)
    have "take hsize (blank_checksum (pre @ v @ post)) =
        pre @ v @ take (hsize - length pre - length w) (take (16 - length pre - length w) post @
          [0, 0, 0, 0] @ drop (20 - length pre - length w) post)" if "length v = length w" for v
      using l that blank_checksum_low [of pre v post] by simp
    then show ?thesis by blast
  qed
  then show ?thesis using assms crc32.window_detected [of w' w] unfolding crc32_calc_def
    by (metis bit.double_compl)
qed

text \<open>C16. A GPT header that spans at most the 92 bytes of the structure is accepted
  exactly when its signature is \<open>EFI PART\<close> and its checksum is the CRC-32 of its first
  \<open>header_size\<close> bytes with the checksum field zeroed; checking it cannot fail.\<close>

theorem gpt_header_valid_iff:
  assumes "92 \<le> length bs" "unat (header_size (read_gpt_header bs)) \<le> 92"
  shows "map_option fst (probe_header bs) = Some
    (sig (read_gpt_header bs) = 0x5452415020494645 \<and>
     checksum (read_gpt_header bs) =
       crc32_calc (take (unat (header_size (read_gpt_header bs))) (blank_checksum bs)))"
  by (rule probe_header_eq(1) [OF assms])

text \<open>C17. Corruption of an accepted GPT header is detected: when up to four consecutive
  bytes of it change, inside of the checksummed part and outside of the size and
  checksum fields, the changed header is refused.\<close>

theorem gpt_corruption_detected:
  assumes "92 \<le> length (pre @ w @ post)"
    and "probe_header (pre @ w @ post) = Some (True, h)" "unat (header_size h) \<le> 92"
    and "summed_window (unat (header_size h)) (length pre) (length w)"
    and "length w' = length w" "length w \<le> 4" "w' \<noteq> w"
  shows "\<exists>h'. probe_header (pre @ w' @ post) = Some (False, h')"
proof -
  let ?bs = "pre @ w @ post" and ?cs = "pre @ w' @ post"
  have h: "h = read_gpt_header ?bs"
    using probe_header_eq(2) [OF assms(1)] assms(2,3) probe_header_def
    by (auto simp: probe_header_def is_valid_def Let_def split: if_splits)
  have len: "92 \<le> length ?cs" using assms(1,5) by simp
  have out: "12 + 4 \<le> length pre \<or> length pre + length w \<le> 12"
    "16 + 4 \<le> length pre \<or> length pre + length w \<le> 16"
    using assms(4) by (auto simp: summed_window_def)
  have hs: "header_size (read_gpt_header ?cs) = header_size h"
    and ck: "checksum (read_gpt_header ?cs) = checksum h"
    unfolding h read_gpt_header_def
    by (simp_all add: get_le_outside [OF assms(5) [symmetric] out(1)]
        get_le_outside [OF assms(5) [symmetric] out(2)])
  have "checksum h = crc32_calc (take (unat (header_size h)) (blank_checksum ?bs))"
    using probe_header_eq(1) [OF assms(1)] assms(2,3) h by simp
  then have "checksum h \<noteq> crc32_calc (take (unat (header_size h)) (blank_checksum ?cs))"
    using window_sum_differs [OF assms(4-7)] by metis
  then have "map_option fst (probe_header ?cs) = Some False"
    using probe_header_eq(1) [OF len] hs ck assms(3) by simp
  then show ?thesis by auto
qed

lemma unat_sectors:
  assumes "unat (partitions_count h) * unat (part_entry_size h) < 2 ^ 24"
  shows "unat (partitions_count h) * unat (part_entry_size h) \<le>
    512 * unat (ucast (entry_buffer_sectors h) :: u16)"
proof -
  let ?m = "unat (partitions_count h) * unat (part_entry_size h)"
  have p: "unat (partitions_count h * part_entry_size h) = ?m"
    using assms by (simp add: unat_word_ariths)
  have "unat (entry_buffer_sectors h) = ?m div 512 + 1"
    using assms by (simp add: entry_buffer_sectors_def unat_word_ariths unat_div p)
  then have "unat (ucast (entry_buffer_sectors h) :: u16) = ?m div 512 + 1"
    using assms by (simp add: unat_ucast_mod)
  then show ?thesis by simp
qed

text \<open>C18. On a drive whose reads give whole sectors, with a protective MBR and a valid primary header, when the header and
  the entry array can be read, an entry has at least 128 bytes and the array less than 16 MiB,
  \<open>load_drive_gpt\<close> returns the table without panicking, and its partitions are the used entries of
  the entry array, in order, each read at its index times the entry size.\<close>

theorem load_drive_gpt_correct:
  assumes "sector_disk d" "load_drive_mbr d 0 = Some t" "is_pmbr t = Some True"
    and "d_read d 1 1 = Some raw" "probe_header raw = Some (True, h)"
    and "d_read d (part_entry_lba h) (ucast (entry_buffer_sectors h)) = Some buffer"
    and "128 \<le> unat (part_entry_size h)"
    and "unat (partitions_count h) * unat (part_entry_size h) < 2 ^ 24"
  shows "load_drive_gpt d = Some (Some \<lparr>gpt_drive_id = d_id d, gpt_hdr = h,
    gpt_partitions = filter gpt_is_used
      (map (\<lambda>i. read_gpt_entry (drop (i * unat (part_entry_size h)) buffer))
        [0..<unat (partitions_count h)])\<rparr>)"
proof -
  have "length buffer = 512 * unat (ucast (entry_buffer_sectors h) :: u16)"
    using assms(1,6) by (auto simp: sector_disk_def)
  then have "unat (partitions_count h) * unat (part_entry_size h) \<le> length buffer"
    using unat_sectors [OF assms(8)] by simp
  then have "load_entries buffer (part_entry_size h) (map word_of_nat [0..<unat (partitions_count h)]) =
      Some (filter gpt_is_used (map (\<lambda>i. read_gpt_entry (drop (i * unat (part_entry_size h)) buffer))
        [0..<unat (partitions_count h)]))"
    using assms(7,8) by (intro load_entries_eq) auto
  then show ?thesis
    using assms(2-6) by (simp add: load_drive_gpt_def load_gpt_entries_def gpt_new_def)
qed

text \<open>The bound on the array is needed: the number of sectors is narrowed to 16 bits, so that for
  an array of 32 MiB a single sector is read and the fifth entry is out of its bounds.\<close>

lemma load_entries_out_of_bounds:
  "i \<in> set is \<Longrightarrow> length buffer < unat ((i + 1) * esize) \<Longrightarrow> load_entries buffer esize is = None"
  by (induction "is") (auto simp: Let_def)

lemma gpt_large_array_panics:
  assumes "sector_disk d" "partitions_count h = 0x40000" "part_entry_size h = 128"
    and "d_read d (part_entry_lba h) (ucast (entry_buffer_sectors h)) = Some buffer"
  shows "load_gpt_entries d h = None"
proof -
  have "ucast (entry_buffer_sectors h) = (1 :: u16)" using assms(2,3) by (simp add: entry_buffer_sectors_def)
  then have "length buffer = 512" using assms(1,4) by (auto simp: sector_disk_def)
  moreover have "(word_of_nat 4 :: u32) \<in> word_of_nat ` {0..<unat (partitions_count h)}"
    by (rule imageI) (simp add: assms(2))
  then have "4 \<in> set (map word_of_nat [0..<unat (partitions_count h)] :: u32 list)" by simp
  ultimately have "load_entries buffer (part_entry_size h) (map word_of_nat [0..<unat (partitions_count h)]) = None"
    using assms(3) by (intro load_entries_out_of_bounds [of 4]) simp_all
  then show ?thesis using assms(4) by (simp add: load_gpt_entries_def)
qed

text \<open>The four entries of a boot sector, and the partitions made of the used ones.\<close>

definition sector_entries :: "u8 list \<Rightarrow> mbr_partition_entry list" where
  "sector_entries sec = map (\<lambda>i. read_mbr_entry (drop (0x1BE + 16 * i) sec)) [0..<4]"

definition primary_partitions :: "ata_device_identifier \<Rightarrow> mbr_partition_entry list \<Rightarrow> 'fs partition list" where
  "primary_partitions drive_id es = map (\<lambda>(k, e). new_partition drive_id k (Meta_MBR e))
    (filter (\<lambda>(k, e). mbr_is_used e) (zip [0..<length es] es))"

lemma mbr_get_partitions_eq: "mbr_get_partitions t = Some (primary_partitions (mbr_drive_id t) (mbr_partitions t))"
  by (simp add: mbr_get_partitions_def collect_mbr_eq primary_partitions_def case_prod_beta')

lemma metadata_primary_partitions:
  "map metadata (primary_partitions drive_id es) = map Meta_MBR (filter mbr_is_used es)"
proof -
  let ?z = "filter (\<lambda>x. mbr_is_used (snd x)) (zip [0..<length es] es)"
  have "map snd ?z = filter mbr_is_used es" by (rule filter_zip_snd) simp
  then have "map (Meta_MBR \<circ> snd) ?z = map Meta_MBR (filter mbr_is_used es)" by (simp flip: map_map)
  then show ?thesis by (simp add: primary_partitions_def case_prod_beta' comp_def)
qed

lemma load_partition_table_fallback:
  assumes "load_drive_mbr d 0 = Some t" "is_pmbr t = Some False \<or> load_drive_gpt d = Some None"
  shows "load_partition_table identify mount d = do {
    partitions \<leftarrow> mbr_get_partitions t;
    partitions \<leftarrow> walk_extended d partitions partitions;
    Some (partitions, Table_MBR t) }"
  using assms unfolding load_partition_table_def by (cases "is_pmbr t = Some True") (auto simp: is_pmbr_eq)

text \<open>C19. A drive without a usable GPT, because its MBR is not protective or no table could be loaded, and without an
  extended partition falls back to its MBR: the partitions loaded are exactly the used ones of the four entries
  in its first sector, in the order of the table and numbered by their slots, and the table recorded is the MBR.\<close>

theorem load_partition_table_mbr:
  fixes mount :: "ata_device_identifier \<Rightarrow> nat \<Rightarrow> u64 \<Rightarrow> (mount_error, 'fs) result"
  assumes "d_read d 0 1 = Some sec" "length sec = 512" "es = sector_entries sec"
    and "(\<nexists>e. filter mbr_is_used es = [e] \<and> partition_type e = PT_GPT) \<or> load_drive_gpt d = Some None"
    and "\<forall>e\<in>set es. partition_type e \<noteq> Extended \<and> partition_type e \<noteq> ExtendedLBA"
  shows "load_partition_table identify mount d = Some (primary_partitions (d_id d) es,
    Table_MBR \<lparr>mbr_drive_id = d_id d, mbr_partitions = es\<rparr>)"
proof -
  define t where "t = \<lparr>mbr_drive_id = d_id d, mbr_partitions = es\<rparr>"
  let ?ps = "primary_partitions (d_id d) es :: 'fs partition list"
  have t: "load_drive_mbr d 0 = Some t"
    using assms(1,2) by (simp add: load_drive_mbr_def MBR_PART_OFFSET_def t_def assms(3) sector_entries_def)
  have f: "is_pmbr t = Some False \<or> load_drive_gpt d = Some None" using assms(4) by (auto simp: is_pmbr_eq t_def)
  have "metadata ` set ?ps = Meta_MBR ` set (filter mbr_is_used es)"
    using metadata_primary_partitions [of "d_id d" es] by (metis list.set_map)
  then have "e \<in> set es" if "p \<in> set ?ps" "metadata p = Meta_MBR e" for p e
    using imageI [OF that(1), of metadata] that(2) by auto
  then have "\<forall>p\<in>set ?ps. \<forall>e. metadata p = Meta_MBR e \<longrightarrow> \<not> is_extended e"
    using assms(5) unfolding is_extended_def by blast
  from walk_extended_none [OF this] show ?thesis
    by (simp add: load_partition_table_fallback [OF t f] mbr_get_partitions_eq t_def)
qed

text \<open>C20. The code follows the link of a boot record as the number of a sector, and an empty link leads it to sector 0,
  the MBR. Take a drive without a usable GPT, with an extended partition in any slot of the MBR, whose boot records, linked by
  sector numbers, are a list of any length that ends with an empty link. If the first or the second entry of the MBR
  is used, and the second one has start sector 0 or links into the list, as it does when it is the extended
  partition itself, then loading the partitions of the drive does not return.\<close>

theorem load_partition_table_extended_hangs:
  fixes mount :: "ata_device_identifier \<Rightarrow> nat \<Rightarrow> u64 \<Rightarrow> (mount_error, 'fs) result"
  assumes "load_drive_mbr d 0 = Some t" "is_pmbr t = Some False \<or> load_drive_gpt d = Some None"
    and "e \<in> set (mbr_partitions t)" "partition_type e = Extended \<or> partition_type e = ExtendedLBA"
    and "boot_records d (mbr_start_lba e) ls"
    and "mbr_is_used (mbr_partitions t ! 0) \<or> mbr_is_used (mbr_partitions t ! 1)"
    and "mbr_start_lba (mbr_partitions t ! 1) = 0 \<or> mbr_start_lba (mbr_partitions t ! 1) \<in> set ls"
  shows "load_partition_table identify mount d = None"
proof -
  have "ebr_trap d (insert 0 (set ls))"
    using assms(1,6,7) boot_records_links [OF assms(5)] by (auto simp: ebr_trap_def ebr_used_def)
  then have stuck: "ebr_walk d e acc = None" for acc :: "'fs partition list"
    using boot_records_links [OF assms(5)] by (intro ebr_walk_diverges) auto
  let ?ps = "primary_partitions (mbr_drive_id t) (mbr_partitions t) :: 'fs partition list"
  have "mbr_is_used e" using assms(4)
    by (auto simp: mbr_is_used_def partition_type_def partition_type_of_u8_def)
  then have "Meta_MBR e \<in> set (map metadata ?ps)" using assms(3) unfolding metadata_primary_partitions by simp
  then have "walk_extended d ?ps ?ps = None"
    using stuck assms(4) by (intro walk_extended_stuck [of e]) (simp_all add: is_extended_def)
  then show ?thesis by (simp add: load_partition_table_fallback [OF assms(1,2)] mbr_get_partitions_eq)
qed

subsection \<open>A drive with both tables\<close>

definition demo_id :: ata_device_identifier where
  "demo_id = \<lparr>disk_type = AHCI, ide_controller = 0, device_id = 0\<rparr>"

definition demo_protective :: mbr_partition_entry where
  "demo_protective = \<lparr>mbr_attributes = 0, chs_start = \<lparr>chs0 = 0, chs1 = 2, chs2 = 0\<rparr>, part_type = 0xEE,
     chs_last = \<lparr>chs0 = 0xFF, chs1 = 0xFF, chs2 = 0xFF\<rparr>, lba_start = 1, mbr_sectors = 100\<rparr>"

definition demo_unused :: mbr_partition_entry where
  "demo_unused = \<lparr>mbr_attributes = 0, chs_start = \<lparr>chs0 = 0, chs1 = 0, chs2 = 0\<rparr>, part_type = 0,
     chs_last = \<lparr>chs0 = 0, chs1 = 0, chs2 = 0\<rparr>, lba_start = 0, mbr_sectors = 0\<rparr>"

definition boot_sector :: "mbr_partition_entry list \<Rightarrow> u8 list" where
  "boot_sector es = replicate 0x1BE 0 @ concat (map mbr_entry_bytes es) @ [0x55, 0xAA]"

text \<open>A header whose checksum covers its first 24 bytes.\<close>

definition demo_header :: gpt_header where
  "demo_header = gpt_header_new_empty\<lparr>sig := 0x5452415020494645, revision := 0x00010000,
     header_size := 24, checksum := 0x06F965F2, part_entry_lba := 2, partitions_count := 1,
     part_entry_size := 128\<rparr>"

definition demo_disk :: disk where
  "demo_disk = \<lparr>
     d_read = (\<lambda>lba n. if n \<noteq> 1 then None
       else if lba = 0 then Some (boot_sector [demo_protective, demo_unused, demo_unused, demo_unused])
       else if lba = 1 then Some (gpt_header_bytes demo_header @ replicate 420 0)
       else if lba = 2 then Some (to_le 16 (0x1234 :: u128) @ replicate 496 0)
       else Some (boot_sector [demo_unused, demo_unused, demo_unused, demo_unused])),
     d_max_sector = 100, d_id = demo_id\<rparr>"

lemma length_boot_sector [simp]: "length (boot_sector [a, b, c, e]) = 512"
  by (simp add: boot_sector_def)

lemma read_mbr_entry_bytes' [simp]: "read_mbr_entry (mbr_entry_bytes e) = e"
  using read_mbr_entry_bytes [of e "[]"] by simp

lemma load_boot_sector:
  assumes "d_read d lba 1 = Some (boot_sector [a, b, c, e])"
  shows "load_drive_mbr d lba = Some \<lparr>mbr_drive_id = d_id d, mbr_partitions = [a, b, c, e]\<rparr>"
  unfolding load_drive_mbr_def assms
  by (simp add: MBR_PART_OFFSET_def boot_sector_def upt_rec)

lemma demo_sector_disk: "sector_disk demo_disk"
  by (simp add: sector_disk_def demo_disk_def split: if_splits)

lemma demo_sum: "crc32_calc (take 24 (blank_checksum (gpt_header_bytes demo_header @ rest))) = 0x06F965F2"
proof -
  have "take 24 (blank_checksum (gpt_header_bytes demo_header @ rest)) =
    [0x45, 0x46, 0x49, 0x20, 0x50, 0x41, 0x52, 0x54, 0, 0, 1, 0, 24, 0, 0, 0, 0, 0, 0, 0, 0, 0, 0, 0]"
    by (simp add: blank_checksum_def gpt_header_bytes_def demo_header_def gpt_header_new_empty_def
      to_le_def upt_rec)
  then show ?thesis
    by (simp only:) code_simp
qed

lemma demo_header_fields:
  "sig demo_header = 0x5452415020494645" "header_size demo_header = 24"
  "checksum demo_header = 0x06F965F2" "part_entry_lba demo_header = 2"
  "partitions_count demo_header = 1" "part_entry_size demo_header = 128"
  by (simp_all add: demo_header_def)

theorem gpt_header_valid_iff_witness:
  "map_option fst (probe_header (gpt_header_bytes demo_header @ replicate 420 0)) = Some True"
  using gpt_header_valid_iff [of "gpt_header_bytes demo_header @ replicate 420 0"]
  by (simp add: demo_header_fields demo_sum)

lemma demo_probe: "probe_header (gpt_header_bytes demo_header @ replicate 420 0) = Some (True, demo_header)"
proof -
  let ?bs = "gpt_header_bytes demo_header @ replicate 420 (0::u8)"
  have "map_option fst (probe_header ?bs) = Some True"
    using probe_header_eq(1) [of ?bs] by (simp add: demo_header_fields demo_sum)
  then obtain h where "probe_header ?bs = Some (True, h)" by auto
  moreover have "h = demo_header" using probe_header_eq(2) [OF _ _ calculation]
    by (simp add: demo_header_fields)
  ultimately show ?thesis by simp
qed

lemma demo_header_split:
  "gpt_header_bytes demo_header @ replicate 420 0 =
    take 20 (gpt_header_bytes demo_header) @ [0, 0, 0, 0] @ drop 24 (gpt_header_bytes demo_header) @ replicate 420 0"
  by (simp add: gpt_header_bytes_def demo_header_def gpt_header_new_empty_def to_le_def upt_rec)

theorem gpt_corruption_detected_witness:
  "\<exists>h'. probe_header (take 20 (gpt_header_bytes demo_header) @ [1, 0, 0, 0] @
     drop 24 (gpt_header_bytes demo_header) @ replicate 420 0) = Some (False, h')"
proof (rule gpt_corruption_detected)
  show "probe_header (take 20 (gpt_header_bytes demo_header) @ [0, 0, 0, 0] @
      drop 24 (gpt_header_bytes demo_header) @ replicate 420 0) = Some (True, demo_header)"
    unfolding demo_header_split [symmetric] by (rule demo_probe)
qed (simp_all add: demo_header_fields summed_window_def)

lemma demo_disk_reads:
  "d_read demo_disk 0 1 = Some (boot_sector [demo_protective, demo_unused, demo_unused, demo_unused])"
  "d_read demo_disk 1 1 = Some (gpt_header_bytes demo_header @ replicate 420 0)"
  "d_read demo_disk 2 1 = Some (to_le 16 (0x1234 :: u128) @ replicate 496 0)"
  "d_id demo_disk = demo_id"
  by (simp_all add: demo_disk_def)

theorem load_drive_gpt_correct_witness:
  "\<exists>g. load_drive_gpt demo_disk = Some (Some g) \<and> map type_guid (gpt_partitions g) = [0x1234]"
proof -
  have sec: "entry_buffer_sectors demo_header = 1"
    by (simp add: entry_buffer_sectors_def demo_header_fields)
  have "load_drive_gpt demo_disk = Some (Some \<lparr>gpt_drive_id = d_id demo_disk, gpt_hdr = demo_header,
    gpt_partitions = filter gpt_is_used
      (map (\<lambda>i. read_gpt_entry (drop (i * unat (part_entry_size demo_header))
        (to_le 16 (0x1234 :: u128) @ replicate 496 0))) [0..<unat (partitions_count demo_header)])\<rparr>)"
  proof (rule load_drive_gpt_correct [OF demo_sector_disk _ _ demo_disk_reads(2) demo_probe])
    show "load_drive_mbr demo_disk 0 = Some \<lparr>mbr_drive_id = d_id demo_disk,
        mbr_partitions = [demo_protective, demo_unused, demo_unused, demo_unused]\<rparr>"
      by (rule load_boot_sector) (rule demo_disk_reads)
  qed (simp_all add: demo_sector_disk demo_disk_reads demo_probe sec demo_header_fields is_pmbr_eq
      mbr_is_used_def demo_protective_def demo_unused_def partition_type_def partition_type_of_u8_def)
  then show ?thesis
    by (simp add: demo_header_fields gpt_is_used_def read_gpt_entry_def)
qed

definition demo_extended :: mbr_partition_entry where
  "demo_extended = demo_unused\<lparr>part_type := 5, lba_start := 10, mbr_sectors := 50\<rparr>"

definition demo_linux :: mbr_partition_entry where
  "demo_linux = demo_unused\<lparr>part_type := 0x83, lba_start := 1, mbr_sectors := 49\<rparr>"

text \<open>A drive with the given MBR and two boot records, in the sectors 10 and 30.\<close>

definition demo_mbr_disk :: "mbr_partition_entry list \<Rightarrow> disk" where
  "demo_mbr_disk es = \<lparr>
     d_read = (\<lambda>lba n. if lba = 0 then Some (boot_sector es)
       else if lba = 10
       then Some (boot_sector [demo_linux, demo_extended\<lparr>lba_start := 30\<rparr>, demo_unused, demo_unused])
       else Some (boot_sector [demo_linux, demo_unused, demo_unused, demo_unused])),
     d_max_sector = 100, d_id = demo_id\<rparr>"

lemma demo_mbr_reads:
  "load_drive_mbr (demo_mbr_disk [a, b, c, e]) 0 =
    Some \<lparr>mbr_drive_id = demo_id, mbr_partitions = [a, b, c, e]\<rparr>"
  "load_drive_mbr (demo_mbr_disk [a, b, c, e]) 10 = Some \<lparr>mbr_drive_id = demo_id,
    mbr_partitions = [demo_linux, demo_extended\<lparr>lba_start := 30\<rparr>, demo_unused, demo_unused]\<rparr>"
  "load_drive_mbr (demo_mbr_disk [a, b, c, e]) 30 =
    Some \<lparr>mbr_drive_id = demo_id, mbr_partitions = [demo_linux, demo_unused, demo_unused, demo_unused]\<rparr>"
  "d_id (demo_mbr_disk es) = demo_id"
  by (simp_all add: demo_mbr_disk_def load_boot_sector)

lemma demo_entries:
  "mbr_start_lba demo_extended = 10" "mbr_start_lba demo_unused = 0" "mbr_start_lba demo_linux = 1"
  "mbr_start_lba (demo_extended\<lparr>lba_start := 30\<rparr>) = 30"
  "mbr_is_used demo_linux" "mbr_is_used demo_extended" "\<not> mbr_is_used demo_unused"
  "partition_type demo_extended = Extended" "partition_type demo_linux = LinuxNative"
  "partition_type demo_unused = PT_Empty"
  by (simp_all add: demo_extended_def demo_linux_def demo_unused_def mbr_start_lba_def mbr_is_used_def
    partition_type_def partition_type_of_u8_def)

theorem load_partition_table_mbr_witness:
  "\<exists>ps. load_partition_table (\<lambda>_ _. Inl ()) (\<lambda>_ _ _. Inr ())
      (demo_mbr_disk [demo_unused, demo_linux, demo_unused, demo_linux]) = Some (ps, Table_MBR
        \<lparr>mbr_drive_id = demo_id, mbr_partitions = [demo_unused, demo_linux, demo_unused, demo_linux]\<rparr>) \<and>
    map p_id ps = [1, 3] \<and> map metadata ps = [Meta_MBR demo_linux, Meta_MBR demo_linux]"
proof -
  let ?es = "[demo_unused, demo_linux, demo_unused, demo_linux]"
  have es: "sector_entries (boot_sector ?es) = ?es" by (simp add: sector_entries_def boot_sector_def upt_rec)
  have "load_partition_table (\<lambda>_ _. Inl ()) (\<lambda>_ _ _. Inr ()) (demo_mbr_disk ?es) =
    Some (primary_partitions (d_id (demo_mbr_disk ?es)) ?es,
      Table_MBR \<lparr>mbr_drive_id = d_id (demo_mbr_disk ?es), mbr_partitions = ?es\<rparr>)"
    by (rule load_partition_table_mbr [of _ "boot_sector ?es"])
      (simp_all add: demo_entries es, simp_all add: demo_mbr_disk_def)
  then show ?thesis by (simp add: demo_mbr_reads primary_partitions_def demo_entries upt_rec new_partition_def)
qed

theorem load_partition_table_extended_hangs_witness:
  "load_partition_table (\<lambda>_ _. Inl ()) (\<lambda>_ _ _. Inr ())
     (demo_mbr_disk [demo_linux, demo_unused, demo_extended, demo_unused]) = None"
proof -
  let ?d = "demo_mbr_disk [demo_linux, demo_unused, demo_extended, demo_unused]"
  note r = demo_mbr_reads(1-3) [of demo_linux demo_unused demo_extended demo_unused]
  have l: "boot_records ?d 30 [30]"
    using last_record [of ?d 30] r(3) by (simp add: demo_entries ebr_used_def)
  have "boot_records ?d (mbr_start_lba demo_extended) [10, 30]"
    using next_record [OF _ _ _ l, of 10] r(2) by (simp add: demo_entries ebr_used_def)
  from load_partition_table_extended_hangs [OF r(1) _ _ _ this] show ?thesis
    by (simp add: demo_entries is_pmbr_eq)
qed

end
