(* ===== verification/Datetime.thy ===== *)
theory Datetime
  imports Prelude
begin

text \<open>
  Dates and times: \<open>src/fzboot/time/mod.rs\<close> and the real-time clock of
  \<open>src/fzboot/time/rtc.rs\<close>. The signed 64-bit seconds of the source are integers: the
  timestamps have 34 bits, so that nothing overflows. The registers of the clock
  chip are an argument, a function of the number of accesses made before.
\<close>

subsection \<open>Dates\<close>

datatype weekday = Monday | Tuesday | Wednesday | Thursday | Friday | Saturday | Sunday

record date_time =
  seconds :: u8
  minutes :: u8
  hours :: u8
  week_day :: weekday
  month_day :: u8
  month :: u8
  year :: u16

definition LINUX_EPOCH :: date_time where
  "LINUX_EPOCH = \<lparr>seconds = 0, minutes = 0, hours = 0, week_day = Thursday, month_day = 1,
     month = 1, year = 1970\<rparr>"

subsection \<open>Formats\<close>

fun decimal :: "nat \<Rightarrow> string" where
  "decimal n = (if n < 10 then [char_of (48 + n)] else decimal (n div 10) @ [char_of (48 + n mod 10)])"

declare decimal.simps [simp del]

text \<open>The formatting directive with a minimal width of two, padded with zeros.\<close>

definition padded2 :: "nat \<Rightarrow> string" where
  "padded2 n = (if n < 10 then ''0'' @ decimal n else decimal n)"

definition format_datetime_iso8601 :: "date_time \<Rightarrow> string" where
  "format_datetime_iso8601 t = decimal (unat (year t)) @ ''-'' @ padded2 (unat (month t)) @ ''-'' @
     padded2 (unat (month_day t)) @ ''T'' @ padded2 (unat (hours t)) @ '':'' @
     padded2 (unat (minutes t)) @ '':'' @ padded2 (unat (seconds t)) @ ''Z''"

definition format_time_iso8601 :: "date_time \<Rightarrow> string" where
  "format_time_iso8601 t = ''T'' @ padded2 (unat (hours t)) @ '':'' @
     padded2 (unat (minutes t)) @ '':'' @ padded2 (unat (seconds t))"

definition format_date_iso8601 :: "date_time \<Rightarrow> string" where
  "format_date_iso8601 t = decimal (unat (year t)) @ ''-'' @ padded2 (unat (month t)) @ ''-'' @
     padded2 (unat (month_day t))"

fun weekday_name :: "weekday \<Rightarrow> string" where
  "weekday_name Monday = ''Monday''"
| "weekday_name Tuesday = ''Tuesday''"
| "weekday_name Wednesday = ''Wednesday''"
| "weekday_name Thursday = ''Thursday''"
| "weekday_name Friday = ''Friday''"
| "weekday_name Saturday = ''Saturday''"
| "weekday_name Sunday = ''Sunday''"

definition month_name :: "u8 \<Rightarrow> string" where
  "month_name m =
    (if m = 1 then ''January'' else if m = 2 then ''February'' else if m = 3 then ''March''
     else if m = 4 then ''April'' else if m = 5 then ''May'' else if m = 6 then ''June''
     else if m = 7 then ''July'' else if m = 8 then ''August'' else if m = 9 then ''September''
     else if m = 10 then ''October'' else if m = 11 then ''November''
     else if m = 12 then ''December'' else [])"

definition format_longdate :: "date_time \<Rightarrow> string" where
  "format_longdate t = weekday_name (week_day t) @ '', '' @ month_name (month t) @ '' '' @
     decimal (unat (month_day t)) @ '', '' @ decimal (unat (year t))"

definition format_shortdate :: "date_time \<Rightarrow> string" where
  "format_shortdate t = padded2 (unat (month t)) @ ''/'' @ padded2 (unat (month_day t)) @ ''/'' @
     decimal (unat (year t))"

text \<open>The third directive of the source is \<open>{02}\<close>, the argument at position 2 without a
  width.\<close>

definition format_longtime :: "date_time \<Rightarrow> string" where
  "format_longtime t = padded2 (unat (hours t)) @ '':'' @ padded2 (unat (minutes t)) @ '':'' @
     decimal (unat (seconds t))"

definition format_shorttime :: "date_time \<Rightarrow> string" where
  "format_shorttime t = padded2 (unat (hours t)) @ '':'' @ padded2 (unat (minutes t))"

subsection \<open>Timestamps\<close>

definition SECS_PER_DAY :: int where "SECS_PER_DAY = 86400"
definition SECS_PER_HOUR :: int where "SECS_PER_HOUR = 3600"
definition SECS_PER_MINUTE :: int where "SECS_PER_MINUTE = 60"
definition FOUR_YEARS_LEN_IN_SECS :: int where "FOUR_YEARS_LEN_IN_SECS = 126230400"

definition DAYS_PER_MONTH :: "nat list" where
  "DAYS_PER_MONTH = [
    31, 28, 31, 30, 31, 30, 31, 31, 30, 31, 30, 31, 31, 28, 31, 30, 31, 30, 31, 31, 30, 31, 30, 31,
    31, 29, 31, 30, 31, 30, 31, 31, 30, 31, 30, 31, 31, 28, 31, 30, 31, 30, 31, 31, 30, 31, 30, 31]"

datatype unix_timestamp = UnixTimestamp (ts_raw: u64)

definition raw_seconds :: "unix_timestamp \<Rightarrow> int" where
  "raw_seconds ts =
    (let t_val_s = uint (ts_raw ts AND (2 ^ 32 - 1));
         adjustement_bits = uint (drop_bit 32 (ts_raw ts) AND 3)
     in t_val_s + 2 ^ 32 * adjustement_bits)"

definition raw_ns :: "unix_timestamp \<Rightarrow> u32" where
  "raw_ns ts = ucast (drop_bit 34 (ts_raw ts) AND (2 ^ 30 - 1))"

definition INITIAL_TIMESTAMP :: unix_timestamp where
  "INITIAL_TIMESTAMP = UnixTimestamp 0"

definition saturating_sub :: "u64 \<Rightarrow> u64 \<Rightarrow> u64" where
  "saturating_sub a b = (if a < b then 0 else a - b)"

definition ts_sub :: "unix_timestamp \<Rightarrow> unix_timestamp \<Rightarrow> unix_timestamp" where
  "ts_sub a b = UnixTimestamp (saturating_sub (ts_raw a) (ts_raw b))"

definition ts_sub_u64 :: "unix_timestamp \<Rightarrow> u64 \<Rightarrow> unix_timestamp" where
  "ts_sub_u64 a b = UnixTimestamp (saturating_sub (ts_raw a) b)"

text \<open>Division by zero panics.\<close>

definition ts_div :: "unix_timestamp \<Rightarrow> u64 \<Rightarrow> u64 option" where
  "ts_div a b = (if b = 0 then None else Some (ts_raw a div b))"

definition ts_rem :: "unix_timestamp \<Rightarrow> u64 \<Rightarrow> u64 option" where
  "ts_rem a b = (if b = 0 then None else Some (ts_raw a mod b))"

function date_walk :: "nat \<Rightarrow> int \<Rightarrow> (nat \<times> int) option" where
  "date_walk curr_month day_counter =
    (if day_counter > 0 then
       if curr_month \<ge> length DAYS_PER_MONTH then None
       else if day_counter \<le> int (DAYS_PER_MONTH ! curr_month) then Some (curr_month, day_counter)
       else date_walk (curr_month + 1) (day_counter - int (DAYS_PER_MONTH ! curr_month))
     else Some (curr_month, day_counter))"
  by auto
termination
  by (relation "measure (\<lambda>(m, d). length DAYS_PER_MONTH - m)") auto

declare date_walk.simps [simp del]

definition get_current_date_in_block :: "int \<Rightarrow> (u16 \<times> u16 \<times> u64) option" where
  "get_current_date_in_block days_passed = do {
     (curr_month, day_counter) \<leftarrow> date_walk 0 days_passed;
     if day_counter + 1 < 0 then None
     else Some (word_of_nat (curr_month div 12), word_of_nat (curr_month mod 12 + 1),
                word_of_int (day_counter + 1))
   }"

text \<open>\<open>try_into().expect(\<dots>)\<close> to an unsigned type of the given width.\<close>

definition try_into :: "int \<Rightarrow> 'a::len word option" where
  "try_into i = (if 0 \<le> i \<and> i < 2 ^ LENGTH('a) then Some (word_of_int i) else None)"

definition date_time_from :: "unix_timestamp \<Rightarrow> date_time option" where
  "date_time_from value = do {
     let full_year_blk_count = raw_seconds value div FOUR_YEARS_LEN_IN_SECS;
     let remaining_secs = raw_seconds value mod FOUR_YEARS_LEN_IN_SECS;
     let days_passed = remaining_secs div SECS_PER_DAY;
     (year_offset, mon, day) \<leftarrow> get_current_date_in_block days_passed;
     let years = uint (year LINUX_EPOCH) + uint year_offset + 4 * full_year_blk_count;
     let secs = raw_seconds value mod SECS_PER_DAY;
     let hrs = secs div SECS_PER_HOUR;
     let mins = secs mod SECS_PER_HOUR div SECS_PER_MINUTE;
     let remaining_secs = secs mod SECS_PER_HOUR mod SECS_PER_MINUTE;
     s \<leftarrow> try_into remaining_secs;
     mi \<leftarrow> try_into mins;
     h \<leftarrow> try_into hrs;
     d \<leftarrow> try_into (uint day);
     mo \<leftarrow> try_into (uint mon);
     y \<leftarrow> try_into years;
     Some \<lparr>seconds = s, minutes = mi, hours = h, week_day = Monday, month_day = d, month = mo, year = y\<rparr>
   }"

subsection \<open>The real-time clock\<close>

text \<open>The value of a register at the given number of accesses. Every read is an access.\<close>

type_synonym cmos = "nat \<Rightarrow> u8 \<Rightarrow> u8"

definition cmos_read :: "cmos \<Rightarrow> u8 \<Rightarrow> nat \<Rightarrow> u8 \<times> nat" where
  "cmos_read c registry n = (c n registry, n + 1)"

definition rtc_update :: "cmos \<Rightarrow> nat \<Rightarrow> bool \<times> nat" where
  "rtc_update c n = (let (stat_reg_a, n) = cmos_read c 0xA n in (stat_reg_a AND 2 ^ 7 \<noteq> 0, n))"

definition cmos_rtc_read :: "cmos \<Rightarrow> nat \<Rightarrow> u8 list \<times> nat" where
  "cmos_rtc_read c n =
    (let (secs, n) = cmos_read c 0 n;
         (mins, n) = cmos_read c 2 n;
         (hrs, n) = cmos_read c 4 n;
         (wday, n) = cmos_read c 6 n;
         (mday, n) = cmos_read c 7 n;
         (mon, n) = cmos_read c 8 n;
         (yr, n) = cmos_read c 9 n
     in ([secs, mins, hrs, wday, mday, mon, yr], n))"

text \<open>\<open>while __rtc_update() {}\<close>; it does not end while an update is reported.\<close>

partial_function (option) wait_update :: "cmos \<Rightarrow> nat \<Rightarrow> nat option" where
  "wait_update c n = (case rtc_update c n of (busy, n) \<Rightarrow> if busy then wait_update c n else Some n)"

partial_function (option) read_stable :: "cmos \<Rightarrow> u8 list \<Rightarrow> u8 list \<Rightarrow> nat \<Rightarrow> (u8 list \<times> nat) option" where
  "read_stable c last_time time n =
    (if last_time \<noteq> time then do {
       n \<leftarrow> wait_update c n;
       (case cmos_rtc_read c n of (t, n) \<Rightarrow> read_stable c time t n)
     } else Some (time, n))"

definition bcd_to_binary :: "u8 \<Rightarrow> u8" where
  "bcd_to_binary x = drop_bit 4 x * 10 + (x AND 0x0F)"

definition decode_bcd :: "u8 \<Rightarrow> u8 list \<Rightarrow> u8 list" where
  "decode_bcd stat_b time =
    (if stat_b AND 4 = 0
     then time[0 := bcd_to_binary (time ! 0), 1 := bcd_to_binary (time ! 1),
               2 := bcd_to_binary (time ! 2), 4 := bcd_to_binary (time ! 4),
               5 := bcd_to_binary (time ! 5), 6 := bcd_to_binary (time ! 6)]
     else time)"

definition decode_12h :: "u8 \<Rightarrow> u8 list \<Rightarrow> u8 list" where
  "decode_12h stat_b time =
    (if stat_b AND 2 = 0 \<and> time ! 2 AND 0x80 \<noteq> 0
     then time[2 := ((time ! 2 AND 0x7F) + 12) mod 24] else time)"

definition rtc_weekday :: "u8 \<Rightarrow> weekday" where
  "rtc_weekday w =
    (if w = 1 then Sunday else if w = 2 then Monday else if w = 3 then Tuesday
     else if w = 4 then Wednesday else if w = 5 then Thursday else if w = 6 then Friday
     else if w = 7 then Saturday else Monday)"

definition rtc_read :: "cmos \<Rightarrow> nat \<Rightarrow> (date_time \<times> nat) option" where
  "rtc_read c n = do {
     n \<leftarrow> wait_update c n;
     let (time, n) = cmos_rtc_read c n;
     (time, n) \<leftarrow> read_stable c (replicate 7 0) time n;
     let (stat_b, n) = cmos_read c 0xB n;
     let time = decode_bcd stat_b time;
     let (stat_b, n) = cmos_read c 0xB n;
     let time = decode_12h stat_b time;
     Some (\<lparr>seconds = time ! 0, minutes = time ! 1, hours = time ! 2,
            week_day = rtc_weekday (time ! 3), month_day = time ! 4, month = time ! 5,
            year = 2000 + ucast (time ! 6)\<rparr>, n)
   }"

subsection \<open>The calendar\<close>

text \<open>The Gregorian calendar, counted day by day from the epoch.\<close>

definition leap_year :: "int \<Rightarrow> bool" where
  "leap_year y \<longleftrightarrow> 4 dvd y \<and> (100 dvd y \<longrightarrow> 400 dvd y)"

definition month_length :: "int \<Rightarrow> int \<Rightarrow> int" where
  "month_length y m =
    (if m = 4 \<or> m = 6 \<or> m = 9 \<or> m = 11 then 30
     else if m = 2 then (if leap_year y then 29 else 28) else 31)"

fun next_day :: "int \<times> int \<times> int \<Rightarrow> int \<times> int \<times> int" where
  "next_day (y, m, d) =
    (if d < month_length y m then (y, m, d + 1)
     else if m < 12 then (y, m + 1, 1) else (y + 1, 1, 1))"

definition gregorian :: "nat \<Rightarrow> int \<times> int \<times> int" where
  "gregorian n = (next_day ^^ n) (1970, 1, 1)"

text \<open>The seconds of a timestamp as the comment on the type describes them: the low 32 bits are
  a signed integer, to which the two next bits add multiples of \<open>2 ^ 32\<close>.\<close>

definition documented_seconds :: "unix_timestamp \<Rightarrow> int" where
  "documented_seconds ts =
    sint (ucast (ts_raw ts) :: u32) + 2 ^ 32 * uint (ucast (drop_bit 32 (ts_raw ts)) :: 2 word)"

text \<open>The days before a month of a four-year block.\<close>

definition days_before :: "nat \<Rightarrow> int" where
  "days_before m = int (sum_list (take m DAYS_PER_MONTH))"

lemma length_DAYS_PER_MONTH [simp]: "length DAYS_PER_MONTH = 48"
  by (simp add: DAYS_PER_MONTH_def)

lemma days_before_0 [simp]: "days_before 0 = 0"
  by (simp add: days_before_def)

lemma days_before_Suc: "m < 48 \<Longrightarrow> days_before (Suc m) = days_before m + int (DAYS_PER_MONTH ! m)"
  by (simp add: days_before_def take_Suc_conv_app_nth)

lemma days_before_block: "days_before 48 = 1461"
  by (simp add: days_before_def DAYS_PER_MONTH_def)

lemma month_length_bounds: "m < 48 \<Longrightarrow> 28 \<le> DAYS_PER_MONTH ! m \<and> DAYS_PER_MONTH ! m \<le> 31"
proof -
  have "list_all (\<lambda>d. 28 \<le> d \<and> d \<le> 31) DAYS_PER_MONTH" by (simp add: DAYS_PER_MONTH_def)
  then show "m < 48 \<Longrightarrow> ?thesis" by (simp add: list_all_length)
qed

lemma days_before_less: "m < k \<Longrightarrow> k \<le> 48 \<Longrightarrow> days_before m < days_before k"
proof (induction k)
  case (Suc k)
  then show ?case using days_before_Suc [of k] month_length_bounds [of k] by (cases "m = k") auto
qed simp

lemma days_before_mono: "m \<le> k \<Longrightarrow> k \<le> 48 \<Longrightarrow> days_before m \<le> days_before k"
  using days_before_less [of m k] by (cases "m = k") auto

lemma date_walk_spec:
  assumes "0 < d" "m \<le> 48" "days_before m + d \<le> 1461"
  shows "\<exists>m' d'. date_walk m d = Some (m', d') \<and> m' < 48 \<and> 0 < d' \<and>
    d' \<le> int (DAYS_PER_MONTH ! m') \<and> days_before m' + d' = days_before m + d"
  using assms
proof (induction m d rule: date_walk.induct)
  case (1 m d)
  have m: "m < 48" using 1(2-4) days_before_block by (cases "m = 48") auto
  show ?case
  proof (cases "d \<le> int (DAYS_PER_MONTH ! m)")
    case True
    then show ?thesis using 1(2) m by (simp add: date_walk.simps [of m d])
  next
    case False
    then show ?thesis using 1(1) 1(2,4) m days_before_Suc [OF m]
      by (simp add: date_walk.simps [of m d])
  qed
qed

lemma block_day:
  assumes "0 \<le> d" "d < 1461"
  shows "\<exists>m dc. date_walk 0 d = Some (m, dc) \<and> m < 48 \<and> 0 \<le> dc \<and> dc \<le> int (DAYS_PER_MONTH ! m) \<and>
    days_before m + dc = d \<and> (dc = int (DAYS_PER_MONTH ! m) \<longleftrightarrow> (\<exists>k>0. k < 48 \<and> d = days_before k))"
proof (cases "d = 0")
  case True
  have "days_before k \<noteq> 0" if "0 < k" "k < 48" for k
    using days_before_less [of 0 k] that by simp
  then have "\<not> (\<exists>k>0. k < 48 \<and> 0 = days_before k)" by metis
  moreover have "DAYS_PER_MONTH ! 0 = 31" by (simp add: DAYS_PER_MONTH_def)
  ultimately show ?thesis using True by (simp add: date_walk.simps [of 0 0])
next
  case False
  then obtain m dc where w: "date_walk 0 d = Some (m, dc)" "m < 48" "0 < dc"
    "dc \<le> int (DAYS_PER_MONTH ! m)" "days_before m + dc = d"
    using date_walk_spec [of d 0] assms by auto
  have "dc = int (DAYS_PER_MONTH ! m) \<longleftrightarrow> (\<exists>k>0. k < 48 \<and> d = days_before k)"
  proof
    assume "dc = int (DAYS_PER_MONTH ! m)"
    then have "d = days_before (Suc m)" using w(2,5) days_before_Suc by simp
    moreover have "Suc m < 48" using calculation assms(2) days_before_block w(2)
      by (cases "Suc m = 48") auto
    ultimately show "\<exists>k>0. k < 48 \<and> d = days_before k" by blast
  next
    assume "\<exists>k>0. k < 48 \<and> d = days_before k"
    then obtain k where k: "0 < k" "k < 48" "d = days_before k" by blast
    have "m < k" using days_before_mono [of k m] k w(2,3,5) by (cases "m < k") auto
    then have "days_before (Suc m) \<le> d" using days_before_mono [of "Suc m" k] k by simp
    then show "dc = int (DAYS_PER_MONTH ! m)" using w(2,4,5) days_before_Suc [of m] by simp
  qed
  then show ?thesis using w by (auto intro: less_imp_le)
qed

lemma raw_seconds_bounds: "0 \<le> raw_seconds ts" "raw_seconds ts < 2 ^ 34"
proof -
  have m: "(2 ^ 32 - 1 :: u64) = mask 32" "(3 :: u64) = mask 2"
    by (simp_all add: mask_eq_exp_minus_1)
  have "uint (ts_raw ts AND mask 32) < 2 ^ 32" "uint (drop_bit 32 (ts_raw ts) AND mask 2) < 2 ^ 2"
    using take_bit_int_less_exp [of 32 "uint (ts_raw ts)"]
      take_bit_int_less_exp [of 2 "uint (drop_bit 32 (ts_raw ts))"]
    by (simp_all add: take_bit_eq_mask [symmetric] unsigned_take_bit_eq)
  then show "raw_seconds ts < 2 ^ 34" unfolding raw_seconds_def Let_def m by simp
  show "0 \<le> raw_seconds ts" by (simp add: raw_seconds_def)
qed

lemma try_into_Some: "0 \<le> i \<Longrightarrow> i < 2 ^ LENGTH('a) \<Longrightarrow> try_into i = Some (word_of_int i :: 'a::len word)"
  by (simp add: try_into_def)

lemma uint_word_of_nat_small: "n < 2 ^ LENGTH('a) \<Longrightarrow> uint (word_of_nat n :: 'a::len word) = int n"
  by (simp add: unsigned_of_nat take_bit_nat_eq_self_iff)

lemma uint_word_of_int_small: "0 \<le> i \<Longrightarrow> i < 2 ^ LENGTH('a) \<Longrightarrow> uint (word_of_int i :: 'a::len word) = i"
  by (simp add: uint_word_of_int)

lemma date_time_from_eq:
  assumes "r = raw_seconds ts" "date_walk 0 (r mod 126230400 div 86400) = Some (m, dc)"
    and "m < 48" "0 \<le> dc" "dc < 32"
  shows "date_time_from ts = Some \<lparr>
     seconds = word_of_int (r mod 86400 mod 3600 mod 60),
     minutes = word_of_int (r mod 86400 mod 3600 div 60),
     hours = word_of_int (r mod 86400 div 3600),
     week_day = Monday,
     month_day = word_of_int (dc + 1),
     month = word_of_int (int (m mod 12) + 1),
     year = word_of_int (1970 + int (m div 12) + 4 * (r div 126230400))\<rparr>"
proof -
  have r: "0 \<le> r" "r < 2 ^ 34" using raw_seconds_bounds by (auto simp: assms(1))
  define yo mo dy where "yo = (word_of_nat (m div 12) :: u16)"
    and "mo = (word_of_nat (m mod 12 + 1) :: u16)" and "dy = (word_of_int (dc + 1) :: u64)"
  have blk: "get_current_date_in_block (r mod 126230400 div 86400) = Some (yo, mo, dy)"
    unfolding yo_def mo_def dy_def using assms by (simp add: get_current_date_in_block_def)
  have u: "uint yo = int (m div 12)" "uint mo = int (m mod 12) + 1" "uint dy = dc + 1"
    unfolding yo_def mo_def dy_def
    using uint_word_of_nat_small [of "m div 12", where 'a = 16] assms(3-5)
      uint_word_of_nat_small [of "m mod 12 + 1", where 'a = 16]
      uint_word_of_int_small [of "dc + 1", where 'a = 64] by auto
  define sc mi hr q where "sc = r mod 86400 mod 3600 mod 60" and "mi = r mod 86400 mod 3600 div 60"
    and "hr = r mod 86400 div 3600" and "q = r div 126230400"
  have b: "0 \<le> sc" "sc < 60" "0 \<le> mi" "mi < 60" "0 \<le> hr" "hr < 24" "0 \<le> q" "q < 137"
    "0 \<le> int (m div 12)" "int (m div 12) < 4" "0 \<le> int (m mod 12)" "int (m mod 12) < 12"
    using r assms(3) by (auto simp: sc_def mi_def hr_def q_def)
  have t: "try_into sc = Some (word_of_int sc :: u8)" "try_into mi = Some (word_of_int mi :: u8)"
    "try_into hr = Some (word_of_int hr :: u8)" "try_into (dc + 1) = Some (word_of_int (dc + 1) :: u8)"
    "try_into (int (m mod 12) + 1) = Some (word_of_int (int (m mod 12) + 1) :: u8)"
    "try_into (1970 + int (m div 12) + 4 * q) = Some (word_of_int (1970 + int (m div 12) + 4 * q) :: u16)"
    by (rule try_into_Some, use b assms(4,5) in simp, use b assms(4,5) in simp)+
  have e: "uint (year LINUX_EPOCH) = 1970" by (simp add: LINUX_EPOCH_def)
  show ?thesis
    unfolding sc_def [symmetric] mi_def [symmetric] hr_def [symmetric] q_def [symmetric]
    by (simp only: date_time_from_def assms(1) [symmetric] FOUR_YEARS_LEN_IN_SECS_def SECS_PER_DAY_def
      SECS_PER_HOUR_def SECS_PER_MINUTE_def Let_def blk u bind.bind_lunit case_prod_conv e
      sc_def [symmetric] mi_def [symmetric] hr_def [symmetric] q_def [symmetric] t)
qed

lemma date_time_from_fields:
  assumes "r = raw_seconds ts" "date_walk 0 (r mod 126230400 div 86400) = Some (m, dc)"
    and "m < 48" "0 \<le> dc" "dc < 32"
  shows "\<exists>t. date_time_from ts = Some t \<and> uint (seconds t) = r mod 86400 mod 3600 mod 60 \<and>
    uint (minutes t) = r mod 86400 mod 3600 div 60 \<and> uint (hours t) = r mod 86400 div 3600 \<and>
    uint (month_day t) = dc + 1 \<and> uint (month t) = int (m mod 12) + 1 \<and>
    uint (year t) = 1970 + int (m div 12) + 4 * (r div 126230400)"
proof -
  have r: "0 \<le> r" "r < 2 ^ 34" using raw_seconds_bounds by (auto simp: assms(1))
  define sc mi hr y where "sc = r mod 86400 mod 3600 mod 60" and "mi = r mod 86400 mod 3600 div 60"
    and "hr = r mod 86400 div 3600" and "y = 1970 + int (m div 12) + 4 * (r div 126230400)"
  have b: "0 \<le> sc" "sc < 60" "0 \<le> mi" "mi < 60" "0 \<le> hr" "hr < 24"
    by (auto simp: sc_def mi_def hr_def)
  have "0 \<le> r div 126230400" "r div 126230400 < 137" "int (m div 12) < 4" using r assms(3) by auto
  then have y: "0 \<le> y" "y < 65536" unfolding y_def by linarith+
  have small: "uint (word_of_int i :: u8) = i" if "0 \<le> i" "i < 256" for i
    using that uint_word_of_int_small [of i, where 'a = 8] by simp
  show ?thesis
    unfolding date_time_from_eq [OF assms] option.inject sc_def [symmetric] mi_def [symmetric]
      hr_def [symmetric] y_def [symmetric]
    using b y assms(4,5) uint_word_of_int_small [of y, where 'a = 16] small [of sc] small [of mi]
      small [of hr] small [of "dc + 1"] small [of "int (m mod 12) + 1"]
    by (intro exI conjI) (rule refl, auto)
qed

text \<open>Months of four-year blocks are months of the Gregorian calendar, as long as no century
  year without a leap day is met.\<close>

definition block_year :: "nat \<Rightarrow> nat \<Rightarrow> int" where
  "block_year b m = 1970 + 4 * int b + int (m div 12)"

lemma month_length_block:
  assumes "b < 32" "m < 48"
  shows "month_length (block_year b m) (int (m mod 12) + 1) = int (DAYS_PER_MONTH ! m)"
proof -
  have "list_all (\<lambda>b. list_all (\<lambda>m. month_length (block_year b m) (int (m mod 12) + 1) = int (DAYS_PER_MONTH ! m)) [0..<48]) [0..<32]"
    by code_simp
  then show ?thesis using assms by (simp add: list_all_iff)
qed

lemma next_days_in_month:
  "int j < month_length y m \<Longrightarrow> (next_day ^^ j) (y, m, 1) = (y, m, int j + 1)"
  by (induction j) auto

lemma gregorian_add: "gregorian (n + k) = (next_day ^^ k) (gregorian n)"
  by (simp add: gregorian_def add.commute [of n k] funpow_add)

lemma gregorian_in_month:
  assumes "gregorian n = (y, m, 1)" "int j < month_length y m"
  shows "gregorian (n + j) = (y, m, int j + 1)"
  using next_days_in_month [OF assms(2)] assms(1) by (simp add: gregorian_add)

lemma gregorian_next_month:
  assumes "gregorian n = (y, m, 1)" "int k = month_length y m" "0 < k"
  shows "gregorian (n + k) = (if m < 12 then (y, m + 1, 1) else (y + 1, 1, 1))"
proof -
  obtain j where j: "k = Suc j" using assms(3) by (cases k) auto
  then have "gregorian (n + j) = (y, m, int k)" using gregorian_in_month [OF assms(1), of j] assms(2) by simp
  then show ?thesis using gregorian_add [of "n + j" 1] assms(2) j by simp
qed

definition block_day_number :: "nat \<Rightarrow> nat \<Rightarrow> nat" where
  "block_day_number b m = 1461 * b + nat (days_before m)"

lemma gregorian_block_month:
  "b < 32 \<Longrightarrow> m < 48 \<Longrightarrow> gregorian (block_day_number b 0) = (block_year b 0, 1, 1) \<Longrightarrow>
    gregorian (block_day_number b m) = (block_year b m, int (m mod 12) + 1, 1)"
proof (induction m)
  case (Suc m)
  let ?k = "DAYS_PER_MONTH ! m"
  have "gregorian (block_day_number b m) = (block_year b m, int (m mod 12) + 1, 1)" using Suc by simp
  moreover have "int ?k = month_length (block_year b m) (int (m mod 12) + 1)" "0 < ?k"
    using month_length_block [of b m] month_length_bounds [of m] Suc.prems by simp_all
  ultimately have "gregorian (block_day_number b m + ?k) =
      (if int (m mod 12) + 1 < 12 then (block_year b m, int (m mod 12) + 1 + 1, 1) else (block_year b m + 1, 1, 1))"
    by (rule gregorian_next_month)
  moreover have "block_day_number b (Suc m) = block_day_number b m + ?k"
    using days_before_Suc [of m] Suc.prems days_before_mono [of 0 m] by (simp add: block_day_number_def nat_add_distrib)
  moreover have "int (m mod 12) + 1 < 12 \<longleftrightarrow> Suc m mod 12 \<noteq> 0" by (auto simp: mod_Suc)
  ultimately show ?case by (auto simp: block_year_def mod_Suc div_Suc split: if_splits)
qed simp

lemma gregorian_block: "b < 32 \<Longrightarrow> gregorian (block_day_number b 0) = (block_year b 0, 1, 1)"
proof (induction b)
  case 0
  then show ?case by (simp add: block_day_number_def gregorian_def block_year_def)
next
  case (Suc b)
  have m: "gregorian (block_day_number b 47) = (block_year b 47, 12, 1)"
    using gregorian_block_month [of b 47] Suc by simp
  have l: "month_length (block_year b 47) 12 = 31" "DAYS_PER_MONTH ! 47 = 31"
    by (simp_all add: month_length_def DAYS_PER_MONTH_def)
  have "block_day_number (Suc b) 0 = block_day_number b 47 + 31"
    using days_before_Suc [of 47] days_before_block l(2) by (simp add: block_day_number_def)
  then show ?case using gregorian_next_month [OF m, of 31] l by (simp add: block_year_def)
qed

lemma gregorian_block_day:
  assumes "b < 32" "m < 48" "j < DAYS_PER_MONTH ! m"
  shows "gregorian (block_day_number b m + j) = (block_year b m, int (m mod 12) + 1, int j + 1)"
  using gregorian_in_month [OF gregorian_block_month [OF assms(1,2) gregorian_block [OF assms(1)]]]
    month_length_block [OF assms(1,2)] assms(3) by simp

lemma raw_seconds_documented:
  assumes "0 \<le> documented_seconds ts" "documented_seconds ts < 2 ^ 31"
  shows "raw_seconds ts = documented_seconds ts"
proof -
  define low :: u32 where "low = ucast (ts_raw ts)"
  define e where "e = uint (ucast (drop_bit 32 (ts_raw ts)) :: 2 word)"
  have m: "(2 ^ 32 - 1 :: u64) = mask 32" "(3 :: u64) = mask 2" by (simp_all add: mask_eq_exp_minus_1)
  have r: "raw_seconds ts = uint low + 2 ^ 32 * e"
    unfolding raw_seconds_def Let_def m low_def e_def
    by (simp add: take_bit_eq_mask [symmetric] unsigned_take_bit_eq unsigned_ucast_eq)
  have d: "documented_seconds ts = sint low + 2 ^ 32 * e" by (simp add: documented_seconds_def low_def e_def)
  have e: "0 \<le> e" by (simp add: e_def)
  have g: "- (2 ^ 31) \<le> sint low" "sint low < 2 ^ 31" using sint_ge [of low] sint_lt [of low] by simp_all
  then have "0 \<le> sint low" using d assms e by (cases "e = 0") auto
  moreover have "uint low = take_bit 32 (sint low)" using uint_sint [of low] by simp
  ultimately have "uint low = sint low" using g(2) take_bit_int_eq_self [of "sint low" 32] by simp
  then show ?thesis using r d by simp
qed

text \<open>The date the code answers for a day: on the first of a month other than the first of a
  four-year block, it is the day after the last of the month before.\<close>

definition answered_date :: "int \<times> int \<times> int \<Rightarrow> int \<times> int \<times> int" where
  "answered_date = (\<lambda>(y, m, d).
    if d = 1 \<and> \<not> (m = 1 \<and> 4 dvd (y - 1970))
    then if m = 1 then (y - 1, 12, 32) else (y, m - 1, month_length y (m - 1) + 1)
    else (y, m, d))"

lemma answered_block_day:
  assumes b: "b < 32" and d: "0 \<le> d" "d < 1461" and w: "date_walk 0 d = Some (m, dc)"
  shows "m < 48 \<and> 0 \<le> dc \<and> dc < 32 \<and>
    answered_date (gregorian (1461 * b + nat d)) = (block_year b m, int (m mod 12) + 1, dc + 1)"
proof -
  have f: "m < 48" "0 \<le> dc" "dc \<le> int (DAYS_PER_MONTH ! m)" "days_before m + dc = d"
    "dc = int (DAYS_PER_MONTH ! m) \<longleftrightarrow> (\<exists>k>0. k < 48 \<and> d = days_before k)"
    using block_day [OF d] w by auto
  have l: "28 \<le> DAYS_PER_MONTH ! m" "DAYS_PER_MONTH ! m \<le> 31" using month_length_bounds [OF f(1)] by auto
  have n: "1461 * b + nat d = block_day_number b m + nat dc"
    using f(2,4) days_before_mono [of 0 m] f(1) by (auto simp: block_day_number_def nat_add_distrib [symmetric])
  have "answered_date (gregorian (1461 * b + nat d)) = (block_year b m, int (m mod 12) + 1, dc + 1)"
  proof (cases "dc = int (DAYS_PER_MONTH ! m)")
    case False
    then have g: "gregorian (1461 * b + nat d) = (block_year b m, int (m mod 12) + 1, dc + 1)"
      unfolding n using f(2,3) by (subst gregorian_block_day [OF b f(1)]) auto
    have "m = 0" if "dc = 0"
      using that f(4,5) False f(1) by (metis add.right_neutral gr0I)
    then show ?thesis unfolding g by (auto simp: answered_date_def block_year_def)
  next
    case True
    then have s: "d = days_before (Suc m)" using f(1,4) days_before_Suc by simp
    then have m: "Suc m < 48" using d(2) days_before_block f(1) by (cases "Suc m = 48") auto
    have g: "gregorian (1461 * b + nat d) = (block_year b (Suc m), int (Suc m mod 12) + 1, 1)"
      using gregorian_block_day [OF b m, of 0] month_length_bounds [OF m] by (simp add: block_day_number_def s)
    have ml: "month_length (block_year b m) (int (m mod 12) + 1) = dc" using month_length_block [OF b f(1)] True by simp
    show ?thesis
    proof (cases "Suc m mod 12 = 0")
      case first: True
      then have j: "m mod 12 = 11" "Suc m div 12 = Suc (m div 12)" by (auto simp: mod_Suc div_Suc split: if_splits)
      then have "dc = 31" using ml by (simp add: month_length_def)
      moreover have "m div 12 < 3" using m j by linarith
      then have "\<not> 4 dvd (1 + (4 * int b + int (m div 12)))" by presburger
      ultimately show ?thesis unfolding g using first j by (simp add: answered_date_def block_year_def)
    next
      case False
      then have "Suc m mod 12 = Suc (m mod 12)" "Suc m div 12 = m div 12" by (auto simp: mod_Suc div_Suc split: if_splits)
      then show ?thesis unfolding g using ml by (simp add: answered_date_def block_year_def add.commute)
    qed
  qed
  then show ?thesis using f l by auto
qed

text \<open>C21. Every timestamp converts without a panic, and the time of day is that of the seconds
  the code reads. Up to the end of 2097, where every fourth year is a leap year, the date is that day in the
  Gregorian calendar, with one exception: on the first of every month other than the January that
  starts a four-year block (1970, 1974, ...) the code answers the day after the last of the month
  before, such as January 32 for the first of February. From 1970 to 2038 the seconds read are those the
  comment on the type defines.\<close>

theorem date_time_from_correct:
  "\<exists>t. date_time_from ts = Some t \<and>
    uint (hours t) < 24 \<and> uint (minutes t) < 60 \<and> uint (seconds t) < 60 \<and>
    uint (hours t) * 3600 + uint (minutes t) * 60 + uint (seconds t) = raw_seconds ts mod 86400 \<and>
    (raw_seconds ts < 32 * 126230400 \<longrightarrow>
      (uint (year t), uint (month t), uint (month_day t)) =
        answered_date (gregorian (nat (raw_seconds ts div 86400)))) \<and>
    (0 \<le> documented_seconds ts \<and> documented_seconds ts < 2 ^ 31 \<longrightarrow>
      raw_seconds ts = documented_seconds ts)"
proof -
  define r where "r = raw_seconds ts"
  have r: "0 \<le> r" using raw_seconds_bounds by (simp add: r_def)
  define d b where "d = r mod 126230400 div 86400" and "b = nat (r div 126230400)"
  have dm: "d = r div 86400 mod 1461"
    using zmod_zmult2_eq [of 1461 r 86400] by (simp add: d_def)
  then have d: "0 \<le> d" "d < 1461" by auto
  have b: "int b = r div 126230400" using r by (auto simp: b_def)
  obtain m dc where w: "date_walk 0 d = Some (m, dc)" "m < 48" "0 \<le> dc" "dc \<le> int (DAYS_PER_MONTH ! m)"
    using block_day [OF d] by blast
  have dc: "dc < 32" using w(2,4) month_length_bounds [of m] by linarith
  have "int (1461 * b + nat d) = r div 86400"
    using dm d div_mult_mod_eq [of "r div 86400" 1461] zdiv_zmult2_eq [of 1461 r 86400] b by simp
  then have n: "1461 * b + nat d = nat (r div 86400)" by linarith
  obtain t where t: "date_time_from ts = Some t" "uint (seconds t) = r mod 86400 mod 3600 mod 60"
    "uint (minutes t) = r mod 86400 mod 3600 div 60" "uint (hours t) = r mod 86400 div 3600"
    "uint (month_day t) = dc + 1" "uint (month t) = int (m mod 12) + 1"
    "uint (year t) = 1970 + int (m div 12) + 4 * (r div 126230400)"
    using date_time_from_fields [OF r_def w(1) [unfolded d_def] w(2,3) dc] by blast
  have "uint (hours t) * 3600 + uint (minutes t) * 60 + uint (seconds t) = r mod 86400"
    by (simp only: t add.assoc div_mult_mod_eq)
  moreover have "uint (hours t) < 24 \<and> uint (minutes t) < 60 \<and> uint (seconds t) < 60" by (auto simp: t)
  moreover have "(uint (year t), uint (month t), uint (month_day t)) = answered_date (gregorian (nat (r div 86400)))"
    if "r < 32 * 126230400"
  proof -
    have "b < 32" using that r by (simp add: b_def)
    from answered_block_day [OF this d w(1)] b show ?thesis unfolding n by (simp add: t block_year_def)
  qed
  ultimately show ?thesis using t(1) raw_seconds_documented [of ts] by (intro exI [of _ t]) (simp add: r_def)
qed

theorem date_time_from_correct_witness:
  "\<exists>t. date_time_from (UnixTimestamp 951782400) = Some t \<and>
    (uint (year t), uint (month t), uint (month_day t)) = answered_date (gregorian 11016) \<and>
    raw_seconds (UnixTimestamp 951782400) = documented_seconds (UnixTimestamp 951782400)"
proof -
  have "documented_seconds (UnixTimestamp 951782400) = 951782400" by (simp add: documented_seconds_def)
  moreover have "raw_seconds (UnixTimestamp 951782400) = 951782400" by code_simp
  ultimately show ?thesis using date_time_from_correct [of "UnixTimestamp 951782400"] by auto
qed

subsection \<open>Reading the clock\<close>

definition quiet :: "cmos \<Rightarrow> nat \<Rightarrow> bool" where
  "quiet c n \<longleftrightarrow> c n 0xA AND 128 = 0"

definition registers :: "cmos \<Rightarrow> nat \<Rightarrow> u8 list" where
  "registers c n = [c n 0, c (n + 1) 2, c (n + 2) 4, c (n + 3) 6, c (n + 4) 7, c (n + 5) 8, c (n + 6) 9]"

text \<open>The seven registers read from access \<open>a + 1\<close> on, after access \<open>a\<close> saw no update.\<close>

definition quiet_read :: "cmos \<Rightarrow> nat \<Rightarrow> u8 list \<Rightarrow> bool" where
  "quiet_read c a time \<longleftrightarrow> quiet c a \<and> registers c (a + 1) = time"

lemma cmos_rtc_read_eq: "cmos_rtc_read c n = (registers c n, n + 7)"
  by (simp add: cmos_rtc_read_def cmos_read_def registers_def eval_nat_numeral)

lemma wait_update_step: "wait_update c n = (if quiet c n then Some (n + 1) else wait_update c (n + 1))"
  by (subst wait_update.simps) (simp add: rtc_update_def cmos_read_def quiet_def)

lemma wait_update_returns:
  "n \<le> N \<Longrightarrow> quiet c N \<Longrightarrow>
    \<exists>k\<ge>n. k \<le> N \<and> quiet c k \<and> (\<forall>j. n \<le> j \<and> j < k \<longrightarrow> \<not> quiet c j) \<and> wait_update c n = Some (k + 1)"
proof (induction "N - n" arbitrary: n)
  case 0
  then show ?case by (intro exI [of _ n]) (auto simp: wait_update_step [of c n])
next
  case (Suc d)
  show ?case
  proof (cases "quiet c n")
    case True
    then show ?thesis using Suc.prems(1) by (intro exI [of _ n]) (auto simp: wait_update_step [of c n])
  next
    case False
    then have "n + 1 \<le> N" using Suc.prems by (cases "n = N") auto
    moreover have "d = N - (n + 1)" using Suc.hyps(2) by simp
    ultimately obtain k where k: "n + 1 \<le> k" "k \<le> N" "quiet c k" "\<forall>j. n + 1 \<le> j \<and> j < k \<longrightarrow> \<not> quiet c j"
      "wait_update c (n + 1) = Some (k + 1)"
      using Suc.hyps(1) [of "n + 1"] Suc.prems(2) by blast
    have "\<forall>j. n \<le> j \<and> j < k \<longrightarrow> \<not> quiet c j" using k(4) False
      by (metis Suc_eq_plus1 Suc_leI le_neq_implies_less)
    then show ?thesis using False k by (intro exI [of _ k]) (simp add: wait_update_step [of c n])
  qed
qed

text \<open>A calm stretch of the clock: for 23 accesses no update is reported and the seven
  time registers keep their values. The chip changes them once a second, during an
  update that it reports.\<close>

definition calm :: "cmos \<Rightarrow> nat \<Rightarrow> bool" where
  "calm c N \<longleftrightarrow> (\<forall>i<23. quiet c (N + i) \<and> (\<forall>r\<in>{0, 2, 4, 6, 7, 8, 9}. c (N + i) r = c N r))"

lemma calm_quiet: "calm c N \<Longrightarrow> N \<le> k \<Longrightarrow> k < N + 23 \<Longrightarrow> quiet c k"
  unfolding calm_def by (metis add_less_cancel_left le_Suc_ex)

lemma calm_registers:
  assumes "calm c N" "N \<le> a" "a < N + 17"
  shows "registers c a = [c N 0, c N 2, c N 4, c N 6, c N 7, c N 8, c N 9]"
proof -
  obtain j where j: "a = N + j" "j < 17" using assms(2,3) by (metis add_less_cancel_left le_Suc_ex)
  have "\<forall>r\<in>{0, 2, 4, 6, 7, 8, 9}. c (N + (j + i)) r = c N r" if "i < 7" for i
  proof -
    have "j + i < 23" using j(2) that by simp
    then show ?thesis using assms(1) unfolding calm_def by blast
  qed
  from this [of 0] this [of 1] this [of 2] this [of 3] this [of 4] this [of 5] this [of 6]
  show ?thesis by (simp add: registers_def j(1) add.assoc)
qed

lemma read_stable_returns:
  assumes "calm c N"
  shows "quiet_read c a time \<Longrightarrow> last_time \<noteq> time \<Longrightarrow> a < N + 8 \<Longrightarrow>
    \<exists>time' b b'. read_stable c last_time time (a + 8) = Some (time', b' + 8) \<and>
      a \<le> b \<and> b < b' \<and> quiet_read c b time' \<and> quiet_read c b' time'"
proof (induction "N + 8 - a" arbitrary: a time last_time rule: less_induct)
  case less
  have "quiet c (max N (a + 8))" using less.prems(3) by (intro calm_quiet [OF assms]) auto
  then obtain k where k: "a + 8 \<le> k" "k \<le> max N (a + 8)" "quiet c k" "wait_update c (a + 8) = Some (k + 1)"
    using wait_update_returns [of "a + 8" "max N (a + 8)" c] by auto
  define t where "t = registers c (k + 1)"
  have q: "quiet_read c k t" using k(3) by (simp add: quiet_read_def t_def)
  have step: "read_stable c last_time time (a + 8) = read_stable c time t (k + 8)"
    by (subst read_stable.simps) (simp add: less.prems(2) k(4) cmos_rtc_read_eq t_def add.commute)
  show ?case
  proof (cases "time = t")
    case True
    then have "read_stable c time t (k + 8) = Some (t, k + 8)" by (subst read_stable.simps) simp
    moreover have "a < k" using k(1) by simp
    ultimately show ?thesis using step True q less.prems(1) by (metis le_refl)
  next
    case False
    have "a < N"
    proof (rule ccontr)
      assume "\<not> a < N"
      then have "registers c (a + 1) = registers c (k + 1)"
        using calm_registers [OF assms, of "a + 1"] calm_registers [OF assms, of "k + 1"] k(1,2) less.prems(3)
        by simp
      then show False using False less.prems(1) by (simp add: quiet_read_def t_def)
    qed
    then have "k < N + 8" "N + 8 - k < N + 8 - a" using k(1,2) by auto
    from less.hyps [OF this(2) q False this(1)] show ?thesis unfolding step using k(1) by (meson add_leD1 le_trans)
  qed
qed

definition decode_time :: "u8 \<Rightarrow> u8 \<Rightarrow> u8 list \<Rightarrow> date_time" where
  "decode_time b b' time =
    (let time = decode_12h b' (decode_bcd b time)
     in \<lparr>seconds = time ! 0, minutes = time ! 1, hours = time ! 2, week_day = rtc_weekday (time ! 3),
         month_day = time ! 4, month = time ! 5, year = 2000 + ucast (time ! 6)\<rparr>)"

text \<open>C22. Reading the real-time clock ends when the clock has a calm stretch of 23 accesses, whatever it
  reports before and after. The first access that sees no update starts the first read. If all seven
  registers of that read are zero the code answers it without a second read; otherwise what it answers was
  read from the registers twice with equal results, each time after an access that saw no update, and the second of
  these reads is the last one before the format register is consulted.\<close>

theorem rtc_read_consistent:
  assumes "n0 \<le> N" "calm c N"
  shows "\<exists>k time n. n0 \<le> k \<and> k \<le> N \<and> quiet c k \<and> (\<forall>j. n0 \<le> j \<and> j < k \<longrightarrow> \<not> quiet c j) \<and>
    rtc_read c n0 = Some (decode_time (c n 0xB) (c (n + 1) 0xB) time, n + 2) \<and>
    (if registers c (k + 1) = replicate 7 0 then time = replicate 7 0 \<and> n = k + 8
     else \<exists>a b. k \<le> a \<and> a < b \<and> n = b + 8 \<and> quiet_read c a time \<and> quiet_read c b time)"
proof -
  obtain k where k: "n0 \<le> k" "k \<le> N" "quiet c k" "\<forall>j. n0 \<le> j \<and> j < k \<longrightarrow> \<not> quiet c j"
    "wait_update c n0 = Some (k + 1)"
    using wait_update_returns [OF assms(1) calm_quiet [OF assms(2)]] by auto
  define t where "t = registers c (k + 1)"
  have q: "quiet_read c k t" using k(3) by (simp add: quiet_read_def t_def)
  have r: "rtc_read c n0 = Some (decode_time (c n 0xB) (c (n + 1) 0xB) time, n + 2)"
    if "read_stable c (replicate 7 0) t (k + 8) = Some (time, n)" for time n
    using that by (simp add: rtc_read_def k(5) cmos_rtc_read_eq t_def cmos_read_def decode_time_def Let_def
      add.commute)
  show ?thesis
  proof (cases "t = replicate 7 0")
    case True
    then have "read_stable c (replicate 7 0) t (k + 8) = Some (replicate 7 0, k + 8)" by (subst read_stable.simps) simp
    from r [OF this] k(1-4) True show ?thesis unfolding t_def by (metis (no_types, lifting))
  next
    case False
    have "k < N + 8" using k(2) by simp
    from read_stable_returns [OF assms(2) q False [symmetric] this]
    obtain time a b where "read_stable c (replicate 7 0) t (k + 8) = Some (time, b + 8)" "k \<le> a" "a < b"
      "quiet_read c a time" "quiet_read c b time" by blast
    with r [OF this(1)] k(1-4) False show ?thesis unfolding t_def by (metis (no_types, lifting))
  qed
qed

text \<open>A clock that reports an update at its first accesses and ticks every 500 accesses.\<close>

definition demo_clock :: cmos where
  "demo_clock n r = (if r = 0xA then (if n mod 500 < 3 then 0x80 else 0) else if r = 0xB then 6
     else if r = 9 then 23 else if r = 0 then word_of_nat (n div 500 mod 60) else 5)"

theorem rtc_read_consistent_witness:
  "calm demo_clock 3 \<and> (\<exists>t n. rtc_read demo_clock 0 = Some (t, n))"
proof
  show s: "calm demo_clock 3"
    by (auto simp: calm_def quiet_def demo_clock_def)
  show "\<exists>t n. rtc_read demo_clock 0 = Some (t, n)"
    using rtc_read_consistent [OF _ s, of 0] by auto
qed

text \<open>Two-digit values are decoded from their BCD form.\<close>

lemma bcd_to_binary_correct:
  assumes "n < 100"
  shows "bcd_to_binary (word_of_nat (16 * (n div 10) + n mod 10)) = word_of_nat n"
proof -
  have "list_all (\<lambda>n. bcd_to_binary (word_of_nat (16 * (n div 10) + n mod 10)) = word_of_nat n) [0..<100]"
    by code_simp
  then show ?thesis using assms by (auto simp: list_all_iff)
qed

text \<open>In 12-hour mode the hour register of a BCD clock carries the afternoon flag in bit 7,
  which the conversion from BCD destroys: one o'clock in the afternoon reads as 81.\<close>

lemma rtc_pm_lost:
  "hours (decode_time 0 0 [0, 0, 0x81, 1, 1, 1, 23]) = 81"
  by code_simp

lemma rtc_noon_is_midnight:
  "hours (decode_time 4 4 [0, 0, 0x8C, 1, 1, 1, 23]) = 0"
  by code_simp

subsection \<open>Printing and reading a date\<close>

definition digit :: "char \<Rightarrow> nat" where
  "digit c = of_char c - 48"

definition number :: "string \<Rightarrow> nat" where
  "number cs = foldl (\<lambda>n c. 10 * n + digit c) 0 cs"

definition parse_iso8601 :: "string \<Rightarrow> nat list" where
  "parse_iso8601 s = [number (take 4 s), number (take 2 (drop 5 s)), number (take 2 (drop 8 s)),
     number (take 2 (drop 11 s)), number (take 2 (drop 14 s)), number (take 2 (drop 17 s))]"

lemma digit_char: "d < 10 \<Longrightarrow> digit (char_of (48 + d)) = d"
  by (simp add: digit_def)

lemma char_zero: "char_of (48 :: nat) = CHR ''0''"
  by code_simp

lemma padded2_digits:
  assumes "n < 100"
  shows "padded2 n = [char_of (48 + n div 10), char_of (48 + n mod 10)]"
proof (cases "n < 10")
  case True
  then show ?thesis by (simp add: padded2_def decimal.simps [of n] char_zero)
next
  case False
  then have "n div 10 < 10" using assms by simp
  then show ?thesis using False by (simp add: padded2_def decimal.simps [of n] decimal.simps [of "n div 10"])
qed

lemma decimal_digits4:
  assumes "1000 \<le> n" "n < 10000"
  shows "decimal n = [char_of (48 + n div 1000), char_of (48 + n div 100 mod 10),
     char_of (48 + n div 10 mod 10), char_of (48 + n mod 10)]"
proof -
  have "\<not> n < 10" "\<not> n div 10 < 10" "\<not> n div 100 < 10" "n div 1000 < 10" using assms by simp_all
  then show ?thesis
    by (simp add: decimal.simps [of n] decimal.simps [of "n div 10"] decimal.simps [of "n div 100"]
      decimal.simps [of "n div 1000"] div_mult2_eq [symmetric])
qed

text \<open>C23. The ISO 8601 text of a date with a four-digit year and two-digit fields has 20
  characters, is the date text and the time text joined, and reads back as the same
  six numbers.\<close>

theorem iso8601_roundtrip:
  assumes "1000 \<le> year t" "year t < 10000" "month t < 100" "month_day t < 100" "hours t < 100"
    "minutes t < 100" "seconds t < 100"
  shows "format_datetime_iso8601 t = format_date_iso8601 t @ format_time_iso8601 t @ ''Z'' \<and>
    length (format_datetime_iso8601 t) = 20 \<and>
    parse_iso8601 (format_datetime_iso8601 t) =
      [unat (year t), unat (month t), unat (month_day t), unat (hours t), unat (minutes t), unat (seconds t)]"
proof -
  have u: "1000 \<le> unat (year t)" "unat (year t) < 10000" "unat (month t) < 100"
    "unat (month_day t) < 100" "unat (hours t) < 100" "unat (minutes t) < 100" "unat (seconds t) < 100"
    using assms by (simp_all add: word_less_nat_alt word_le_nat_alt)
  have two: "10 * (n div 10) + n mod 10 = n" for n :: nat by simp
  have four: "1000 * (n div 1000) + 100 * (n div 100 mod 10) + 10 * (n div 10 mod 10) + n mod 10 = n"
    for n :: nat
  proof -
    have "10 * (n div 100) + n div 10 mod 10 = n div 10" "10 * (n div 1000) + n div 100 mod 10 = n div 100"
      using two [of "n div 10"] two [of "n div 100"] by (simp_all add: div_mult2_eq [symmetric])
    then show ?thesis using two [of n] by linarith
  qed
  show ?thesis
    using u
    by (simp add: format_datetime_iso8601_def format_date_iso8601_def format_time_iso8601_def
      parse_iso8601_def number_def padded2_digits decimal_digits4 digit_char two four)
qed

theorem iso8601_roundtrip_witness:
  "parse_iso8601 (format_datetime_iso8601 (LINUX_EPOCH\<lparr>hours := 9, minutes := 43, seconds := 18\<rparr>)) =
    [1970, 1, 1, 9, 43, 18]"
  using iso8601_roundtrip [THEN conjunct2, THEN conjunct2, of "LINUX_EPOCH\<lparr>hours := 9, minutes := 43, seconds := 18\<rparr>"]
  by (simp add: LINUX_EPOCH_def)

end
