(* ===== verification/Buddy_Spec.thy ===== *)
theory Buddy_Spec
  imports Prelude
begin

text \<open>
  What a buddy allocator promises, independently of the code of the two allocators of
  the program: the pool is tiled by blocks whose sizes are powers of two, splitting
  and merging blocks keeps the tiling, and the buddy of a block is the other half of
  the block one level up. A block is the pair of its address and its level; the
  smallest blocks have \<open>2 ^ k\<close> bytes, a block of level \<open>l\<close> has \<open>2 ^ (k + l)\<close>, and the
  only block of level \<open>T\<close> is the pool, which starts at \<open>B\<close>.
\<close>

type_synonym block = "nat \<times> nat"

subsection \<open>Tilings\<close>

definition rng :: "nat \<Rightarrow> block \<Rightarrow> nat set" where
  "rng k b = {fst b..<fst b + 2 ^ (k + snd b)}"

definition valid_block :: "nat \<Rightarrow> nat \<Rightarrow> nat \<Rightarrow> block \<Rightarrow> bool" where
  "valid_block k T B b \<longleftrightarrow> snd b \<le> T \<and> 2 ^ (k + snd b) dvd fst b \<and> B \<le> fst b \<and>
    fst b + 2 ^ (k + snd b) \<le> B + 2 ^ (k + T)"

definition tiling :: "nat \<Rightarrow> nat \<Rightarrow> nat \<Rightarrow> block set \<Rightarrow> bool" where
  "tiling k T B S \<longleftrightarrow> (\<forall>b\<in>S. valid_block k T B b) \<and>
    (\<forall>b\<in>S. \<forall>c\<in>S. b \<noteq> c \<longrightarrow> rng k b \<inter> rng k c = {}) \<and>
    (\<Union>b\<in>S. rng k b) = {B..<B + 2 ^ (k + T)}"

definition buddy_of :: "nat \<Rightarrow> block \<Rightarrow> nat" where
  "buddy_of k b = (if even (fst b div 2 ^ (k + snd b)) then fst b + 2 ^ (k + snd b)
     else fst b - 2 ^ (k + snd b))"

lemma rng_nonempty: "fst b \<in> rng k b"
  by (simp add: rng_def)

lemma tiling_valid: "tiling k T B S \<Longrightarrow> b \<in> S \<Longrightarrow> valid_block k T B b"
  by (simp add: tiling_def)

lemma tiling_disjoint: "tiling k T B S \<Longrightarrow> b \<in> S \<Longrightarrow> c \<in> S \<Longrightarrow> b \<noteq> c \<Longrightarrow> rng k b \<inter> rng k c = {}"
  by (simp add: tiling_def)

lemma tiling_unique_start: "tiling k T B S \<Longrightarrow> (a, l) \<in> S \<Longrightarrow> (a, m) \<in> S \<Longrightarrow> l = m"
  using tiling_disjoint [of k T B S "(a, l)" "(a, m)"] rng_nonempty [of "(a, l)" k] rng_nonempty [of "(a, m)" k]
  by fastforce

lemma tiling_start: "tiling k T B {(B, T)}" if "2 ^ (k + T) dvd B"
  using that by (simp add: tiling_def valid_block_def rng_def)

text \<open>Exchanging blocks for others with the same extent.\<close>

lemma tiling_exchange:
  assumes t: "tiling k T B S" and sub: "X \<subseteq> S"
    and val: "\<And>b. b \<in> Y \<Longrightarrow> valid_block k T B b"
    and dis: "\<And>b c. b \<in> Y \<Longrightarrow> c \<in> Y \<Longrightarrow> b \<noteq> c \<Longrightarrow> rng k b \<inter> rng k c = {}"
    and ext: "(\<Union>b\<in>Y. rng k b) = (\<Union>b\<in>X. rng k b)"
  shows "tiling k T B (S - X \<union> Y)"
proof -
  have sep: "rng k b \<inter> rng k c = {}" if "b \<in> S - X" "c \<in> Y" for b c
  proof -
    have "rng k c \<subseteq> (\<Union>b\<in>X. rng k b)" using that(2) ext by blast
    moreover have "rng k b \<inter> rng k x = {}" if "x \<in> X" for x
      using tiling_disjoint [OF t, of b x] \<open>b \<in> S - X\<close> that sub by blast
    ultimately show ?thesis by blast
  qed
  have un: "(\<Union>b\<in>S - X \<union> Y. rng k b) = (\<Union>b\<in>S. rng k b)"
    using sub ext by blast
  have dd: "rng k b \<inter> rng k c = {}" if "b \<in> S - X \<union> Y" "c \<in> S - X \<union> Y" "b \<noteq> c" for b c
    using that dis sep [of b c] sep [of c b] tiling_disjoint [OF t] by blast
  have vv: "valid_block k T B b" if "b \<in> S - X \<union> Y" for b
    using that val tiling_valid [OF t] by blast
  have "(\<Union>b\<in>S - X \<union> Y. rng k b) = {B..<B + 2 ^ (k + T)}"
    using t un by (simp only: tiling_def)
  with vv dd show ?thesis unfolding tiling_def by (simp only: simp_thms ball_simps) blast
qed

lemma rng_halves: "rng k (a, Suc l) = rng k (a, l) \<union> rng k (a + 2 ^ (k + l), l)"
  by (auto simp: rng_def)

lemma halves_disjoint: "rng k (a, l) \<inter> rng k (a + 2 ^ (k + l), l) = {}"
  by (auto simp: rng_def)

lemma tiling_split:
  assumes "tiling k T B S" "(a, Suc l) \<in> S"
  shows "tiling k T B (S - {(a, Suc l)} \<union> {(a, l), (a + 2 ^ (k + l), l)})"
proof (rule tiling_exchange [OF assms(1)])
  have v: "valid_block k T B (a, Suc l)" using assms tiling_valid by blast
  then have d: "2 ^ (k + Suc l) dvd a" by (simp add: valid_block_def)
  then have "2 ^ (k + l) dvd a" by (rule dvd_trans [rotated]) (simp add: le_imp_power_dvd)
  then show "valid_block k T B b" if "b \<in> {(a, l), (a + 2 ^ (k + l), l)}" for b
    using v that by (auto simp: valid_block_def)
qed (use assms(2) rng_halves [of k a l] halves_disjoint [of k a l] in auto)

lemma tiling_merge:
  assumes "tiling k T B S" "(a, l) \<in> S" "(a + 2 ^ (k + l), l) \<in> S" "2 ^ (k + Suc l) dvd a" "l < T"
  shows "tiling k T B (S - {(a, l), (a + 2 ^ (k + l), l)} \<union> {(a, Suc l)})"
proof (rule tiling_exchange [OF assms(1)])
  have "valid_block k T B (a, l)" "valid_block k T B (a + 2 ^ (k + l), l)"
    using assms tiling_valid by blast+
  then show "valid_block k T B b" if "b \<in> {(a, Suc l)}" for b
    using that assms(4,5) by (auto simp: valid_block_def)
qed (use assms(2,3) rng_halves [of k a l] in auto)

subsection \<open>Buddies\<close>

lemma even_index_iff: "2 ^ (k + l) dvd a \<Longrightarrow> even (a div 2 ^ (k + l)) \<longleftrightarrow> 2 ^ (k + Suc l) dvd (a::nat)"
  by (auto elim!: dvdE simp: mult.assoc [symmetric] mult.commute)

lemma buddy_of_valid:
  assumes "valid_block k T B (a, l)" "l < T" "2 ^ (k + T) dvd B"
  shows "valid_block k T B (buddy_of k (a, l), l)"
    and "(if even (a div 2 ^ (k + l)) then buddy_of k (a, l) = a + 2 ^ (k + l) \<and> 2 ^ (k + Suc l) dvd a
          else a = buddy_of k (a, l) + 2 ^ (k + l) \<and> 2 ^ (k + Suc l) dvd buddy_of k (a, l))"
proof -
  let ?s = "2 ^ (k + l) :: nat"
  have d: "?s dvd a" and lo: "B \<le> a" and hi: "a + ?s \<le> B + 2 ^ (k + T)"
    using assms(1) by (auto simp: valid_block_def)
  have dB: "2 ^ (k + Suc l) dvd B" "2 ^ (k + Suc l) dvd B + 2 ^ (k + T)"
    using assms(2,3) le_imp_power_dvd [of "k + Suc l" "k + T" "2::nat"] by (auto intro: dvd_trans)
  have double: "(2::nat) ^ (k + Suc l) = 2 * ?s" by simp
  show "(if even (a div ?s) then buddy_of k (a, l) = a + ?s \<and> 2 ^ (k + Suc l) dvd a
          else a = buddy_of k (a, l) + ?s \<and> 2 ^ (k + Suc l) dvd buddy_of k (a, l))"
    and "valid_block k T B (buddy_of k (a, l), l)"
  proof -
    obtain i where i: "a = ?s * i" using d by (elim dvdE)
    obtain j where j: "B = 2 * ?s * j" using dB(1) double by (metis dvdE)
    obtain t where t: "B + 2 ^ (k + T) = 2 * ?s * t" using dB(2) double by (metis dvdE)
    have "even (a div ?s) \<Longrightarrow> ?s * (i + 2) \<le> 2 * ?s * t"
    proof -
      assume e: "even (a div ?s)"
      have "?s * (i + 1) \<le> ?s * (2 * t)" using hi t i by (simp add: algebra_simps)
      then have "i + 1 \<le> 2 * t" by (simp del: mult_Suc_right)
      then have "i + 2 \<le> 2 * t" using e i by (auto elim!: evenE) presburger
      then show ?thesis by (metis mult.assoc mult.commute mult_le_mono2)
    qed
    then have up: "even (a div ?s) \<Longrightarrow> a + 2 * ?s \<le> B + 2 ^ (k + T)"
      using i t by (simp add: algebra_simps)
    have down: "odd (a div ?s) \<Longrightarrow> B + ?s \<le> a"
    proof -
      assume e: "odd (a div ?s)"
      have "?s * (2 * j) \<le> ?s * i" using lo i j by (simp add: algebra_simps)
      then have "2 * j \<le> i" by simp
      then have "2 * j + 1 \<le> i" using e i by (auto elim!: oddE)
      then have "?s * (2 * j + 1) \<le> ?s * i" by (rule mult_le_mono2)
      then show ?thesis using i j by (simp add: algebra_simps)
    qed
    show a: "(if even (a div ?s) then buddy_of k (a, l) = a + ?s \<and> 2 ^ (k + Suc l) dvd a
          else a = buddy_of k (a, l) + ?s \<and> 2 ^ (k + Suc l) dvd buddy_of k (a, l))"
    proof (cases "even (a div ?s)")
      case True
      then show ?thesis using even_index_iff [OF d] by (simp add: buddy_of_def)
    next
      case False
      then have "?s \<le> a" using down by linarith
      then have "buddy_of k (a, l) = a - ?s" "?s dvd a - ?s" "odd (a div ?s)"
        using False d by (auto simp: buddy_of_def)
      moreover have "even ((a - ?s) div ?s)"
        using False \<open>?s \<le> a\<close> i by (cases i) (auto simp: algebra_simps)
      ultimately show ?thesis using even_index_iff [of k l "a - ?s"] \<open>?s \<le> a\<close> by simp
    qed
    show "valid_block k T B (buddy_of k (a, l), l)"
      using a up down d lo hi assms(2) by (auto simp: valid_block_def split: if_splits)
  qed
qed

lemma buddy_of_cases:
  assumes "valid_block k T B (a, l)" "l < T" "2 ^ (k + T) dvd B"
  obtains "buddy_of k (a, l) = a + 2 ^ (k + l)" "2 ^ (k + Suc l) dvd a"
  | "a = buddy_of k (a, l) + 2 ^ (k + l)" "2 ^ (k + Suc l) dvd buddy_of k (a, l)"
  using buddy_of_valid(2) [OF assms] by (cases "even (a div 2 ^ (k + l))") (simp_all only: if_True if_False)

lemma buddy_of_neq:
  assumes "valid_block k T B (a, l)" "l < T" "2 ^ (k + T) dvd B"
  shows "buddy_of k (a, l) \<noteq> a"
proof -
  have "(0::nat) < 2 ^ (k + l)" by simp
  with assms show ?thesis by (auto elim: buddy_of_cases)
qed

lemma buddy_of_involution:
  assumes "valid_block k T B (a, l)" "l < T" "2 ^ (k + T) dvd B"
  shows "buddy_of k (buddy_of k (a, l), l) = a"
  using assms
proof (rule buddy_of_cases)
  assume b: "buddy_of k (a, l) = a + 2 ^ (k + l)" and d: "2 ^ (k + Suc l) dvd a"
  from d have "even (a div 2 ^ (k + l))" by (auto elim!: dvdE simp: mult.assoc)
  then have "odd ((a + 2 ^ (k + l)) div 2 ^ (k + l))" by (subst div_add_self2) simp_all
  then show ?thesis unfolding b by (simp add: buddy_of_def)
next
  let ?b = "buddy_of k (a, l)"
  assume b: "a = ?b + 2 ^ (k + l)" and d: "2 ^ (k + Suc l) dvd ?b"
  from d have "even (?b div 2 ^ (k + l))" by (auto elim!: dvdE simp: mult.assoc)
  then have "buddy_of k (?b, l) = ?b + 2 ^ (k + l)" by (simp add: buddy_of_def [of k "(?b, l)"])
  with b show ?thesis by simp
qed

subsection \<open>Room for a block\<close>

lemma aligned_nested:
  fixes a b :: nat
  assumes "2 ^ m dvd a" "2 ^ n dvd b" "m \<le> n" "x \<in> {a..<a + 2 ^ m}" "x \<in> {b..<b + 2 ^ n}"
  shows "{a..<a + 2 ^ m} \<subseteq> {b..<b + 2 ^ n}"
proof -
  define u where "u = (2::nat) ^ m"
  obtain s where s: "(2::nat) ^ n = u * s" using assms(3) by (metis le_imp_power_dvd dvdE u_def)
  obtain i where i: "a = u * i" using assms(1) by (auto simp: u_def)
  obtain j where j: "b = u * (s * j)" using assms(2) unfolding s by (metis dvdE mult.assoc)
  have "u * (s * j) < u * (i + 1)" "u * i < u * (s * j + s)"
    using assms(4,5) i j s by (auto simp: u_def [symmetric] algebra_simps)
  then have "s * j < i + 1" "i < s * j + s" by (simp_all only: mult_less_cancel1)
  then have le: "s * j \<le> i" "i + 1 \<le> s * j + s" by auto
  have "u * (s * j) \<le> u * i" "u * (i + 1) \<le> u * (s * j + s)"
    using le by (auto intro!: mult_le_mono2 simp del: mult_Suc_right)
  then have "b \<le> a" "a + u \<le> b + 2 ^ n" using i j s by (auto simp: algebra_simps)
  then show ?thesis by (auto simp: u_def)
qed

lemma rng_nested:
  assumes "valid_block k T B (a, l)" "valid_block k T B (b, m)" "l \<le> m" "rng k (a, l) \<inter> rng k (b, m) \<noteq> {}"
  shows "rng k (a, l) \<subseteq> rng k (b, m)"
proof -
  obtain x where "x \<in> {a..<a + 2 ^ (k + l)}" "x \<in> {b..<b + 2 ^ (k + m)}"
    using assms(4) unfolding rng_def fst_conv snd_conv by blast
  then show ?thesis
    using aligned_nested [of "k + l" a "k + m" b x] assms(1-3) by (simp add: valid_block_def rng_def)
qed

lemma parent_valid:
  assumes "valid_block k T B (a, l)" "l < T" "2 ^ (k + T) dvd B"
  shows "\<exists>p. valid_block k T B (p, Suc l) \<and>
    rng k (p, Suc l) = rng k (a, l) \<union> rng k (buddy_of k (a, l), l)"
proof -
  note b = buddy_of_valid(1) [OF assms]
  from assms show ?thesis
  proof (cases rule: buddy_of_cases)
    case 1
    then show ?thesis using assms(1,2) b rng_halves [of k a l]
      by (intro exI [of _ a]) (auto simp: valid_block_def)
  next
    case 2
    obtain c where c: "buddy_of k (a, l) = c" by simp
    have e: "a = c + 2 ^ (k + l)" "2 ^ (k + Suc l) dvd c" using 2 unfolding c by simp_all
    have "valid_block k T B (c, Suc l)" using e b assms(1,2) unfolding c by (simp add: valid_block_def)
    moreover have "rng k (c, Suc l) = rng k (a, l) \<union> rng k (c, l)"
      using rng_halves [of k c l] e(1) by blast
    ultimately show ?thesis unfolding c by blast
  qed
qed

text \<open>When no two free blocks are buddies, a free stretch of the pool that has the shape of
  a block is contained in one free block.\<close>

lemma no_room:
  assumes t: "tiling k T B (F \<union> A)" and dv: "2 ^ (k + T) dvd B"
    and co: "\<And>a l. (a, l) \<in> F \<Longrightarrow> l < T \<Longrightarrow> (buddy_of k (a, l), l) \<notin> F"
    and small: "\<And>a l. (a, l) \<in> F \<Longrightarrow> rng k (a, l) \<inter> rng k (x, r) \<noteq> {} \<Longrightarrow> l < r" and x: "valid_block k T B (x, r)"
  shows "rng k (x, r) \<inter> (\<Union>b\<in>A. rng k b) \<noteq> {}"
proof
  assume free: "rng k (x, r) \<inter> (\<Union>b\<in>A. rng k b) = {}"
  have cover: "\<exists>b\<in>F. y \<in> rng k b" if "y \<in> rng k (x, r)" for y
  proof -
    have "y \<in> {B..<B + 2 ^ (k + T)}" using x that by (auto simp: valid_block_def rng_def)
    then show ?thesis using t free that unfolding tiling_def by blast
  qed
  define G where "G = {b \<in> F. rng k b \<inter> rng k (x, r) \<noteq> {}}"
  have "\<exists>l a. (a, l) \<in> G" using cover [OF rng_nonempty [of "(x, r)" k, simplified]] rng_nonempty [of "(x, r)" k]
    by (auto simp: G_def)
  then obtain l a where g: "(a, l) \<in> G" and min: "\<And>l' a'. (a', l') \<in> G \<Longrightarrow> l \<le> l'"
    using exists_least_iff [of "\<lambda>l. \<exists>a. (a, l) \<in> G"] by (metis not_less)
  have F: "(a, l) \<in> F" and l: "l < r" "r \<le> T" using g small x by (auto simp: G_def valid_block_def)
  have va: "valid_block k T B (a, l)" using t F by (auto intro: tiling_valid)
  define c where "c = buddy_of k (a, l)"
  obtain p where p: "valid_block k T B (p, Suc l)" "rng k (p, Suc l) = rng k (a, l) \<union> rng k (c, l)"
    using parent_valid [OF va _ dv] l by (auto simp: c_def)
  have vc: "valid_block k T B (c, l)" using buddy_of_valid(1) [OF va _ dv] l by (simp add: c_def)
  have "rng k (p, Suc l) \<subseteq> rng k (x, r)"
    using g p l by (intro rng_nested [OF p(1) x]) (auto simp: G_def)
  then have cx: "c \<in> rng k (x, r)" using p(2) rng_nonempty [of "(c, l)" k] by auto
  then obtain a' l' where b': "(a', l') \<in> F" "c \<in> rng k (a', l')" using cover by fastforce
  then have l': "l \<le> l'" using cx min by (auto simp: G_def)
  have vb: "valid_block k T B (a', l')" using t b'(1) by (auto intro: tiling_valid)
  show False
  proof (cases "l' = l")
    case True
    then have "rng k (c, l) \<subseteq> rng k (a', l)" "rng k (a', l) \<subseteq> rng k (c, l)"
      using rng_nested [OF vc vb] rng_nested [OF vb vc] b'(2) rng_nonempty [of "(c, l)" k] by auto
    then have "c = a'" using rng_nonempty [of "(c, l)" k] rng_nonempty [of "(a', l)" k]
      by (auto simp: rng_def)
    then show False using co [OF F] b'(1) True l by (simp add: c_def)
  next
    case False
    then have "rng k (p, Suc l) \<subseteq> rng k (a', l')"
      using l' p(2) b'(2) rng_nonempty [of "(c, l)" k] by (intro rng_nested [OF p(1) vb]) auto
    then have "a \<in> rng k (a', l') \<inter> rng k (a, l)" using p(2) rng_nonempty [of "(a, l)" k] by auto
    then show False using tiling_disjoint [OF t, of "(a', l')" "(a, l)"] b'(1) F False by blast
  qed
qed

text \<open>The held blocks determine the free ones.\<close>

definition free_tiling :: "nat \<Rightarrow> nat \<Rightarrow> nat \<Rightarrow> block set \<Rightarrow> block set \<Rightarrow> bool" where
  "free_tiling k T B F A \<longleftrightarrow> tiling k T B (F \<union> A) \<and> F \<inter> A = {} \<and>
    (\<forall>a l. (a, l) \<in> F \<longrightarrow> l < T \<longrightarrow> (buddy_of k (a, l), l) \<notin> F)"

lemma free_block_maximal:
  assumes F: "free_tiling k T B F A" and F': "free_tiling k T B F' A" and dv: "2 ^ (k + T) dvd B"
    and b: "(a, l) \<in> F" "(b, m) \<in> F'" "m < l" "rng k (a, l) \<inter> rng k (b, m) \<noteq> {}"
  shows False
proof -
  have t: "tiling k T B (F \<union> A)" and t': "tiling k T B (F' \<union> A)"
    using F F' by (auto simp: free_tiling_def)
  have va: "valid_block k T B (a, l)" and vb: "valid_block k T B (b, m)"
    using t t' b by (auto intro: tiling_valid)
  have sub: "rng k (b, m) \<subseteq> rng k (a, l)" using rng_nested [OF vb va] b by auto
  have "rng k (a, l) \<inter> (\<Union>b\<in>A. rng k b) \<noteq> {}"
  proof (rule no_room [OF t' dv])
    fix a' l' assume g: "(a', l') \<in> F'" "rng k (a', l') \<inter> rng k (a, l) \<noteq> {}"
    show "l' < l"
    proof (rule ccontr)
      assume "\<not> l' < l"
      then have "rng k (a, l) \<subseteq> rng k (a', l')"
        using g t' by (intro rng_nested [OF va]) (auto intro: tiling_valid)
      then have "b \<in> rng k (a', l') \<inter> rng k (b, m)" using sub rng_nonempty [of "(b, m)" k] by auto
      then show False using tiling_disjoint [OF t', of "(a', l')" "(b, m)"] g(1) b \<open>\<not> l' < l\<close> by blast
    qed
  qed (use F' va in \<open>auto simp: free_tiling_def\<close>)
  then show False
    using tiling_disjoint [OF t, of "(a, l)"] b(1) F by (fastforce simp: free_tiling_def)
qed

lemma free_tiling_subset:
  assumes F: "free_tiling k T B F A" and F': "free_tiling k T B F' A" and dv: "2 ^ (k + T) dvd B"
  shows "F \<subseteq> F'"
proof (clarify)
  fix a l assume a: "(a, l) \<in> F"
  have t: "tiling k T B (F \<union> A)" and t': "tiling k T B (F' \<union> A)" and "F \<inter> A = {}"
    using F F' by (auto simp: free_tiling_def)
  then have va: "valid_block k T B (a, l)" using a by (auto intro: tiling_valid)
  have "a \<in> (\<Union>b\<in>F \<union> A. rng k b)" using a rng_nonempty [of "(a, l)" k] by (intro UN_I [of "(a, l)"]) auto
  then have "a \<in> (\<Union>b\<in>F' \<union> A. rng k b)" using t t' by (simp only: tiling_def)
  then obtain b m where c: "(b, m) \<in> F' \<union> A" "a \<in> rng k (b, m)" by auto
  have meet: "rng k (a, l) \<inter> rng k (b, m) \<noteq> {}" using c(2) rng_nonempty [of "(a, l)" k] by auto
  have "(b, m) \<notin> A"
    using tiling_disjoint [OF t, of "(a, l)" "(b, m)"] a meet \<open>F \<inter> A = {}\<close> by blast
  with c have b: "(b, m) \<in> F'" by blast
  have vb: "valid_block k T B (b, m)" using t' b by (auto intro: tiling_valid)
  have "\<not> m < l" using free_block_maximal [OF F F' dv a b _ meet] by blast
  moreover have "\<not> l < m" using free_block_maximal [OF F' F dv b a] meet by (auto simp: Int_commute)
  ultimately have "m = l" by simp
  moreover have "a = b"
    using rng_nested [OF va vb] rng_nested [OF vb va] meet \<open>m = l\<close>
      rng_nonempty [of "(a, l)" k] rng_nonempty [of "(b, l)" k]
    by (auto simp: Int_commute rng_def)
  ultimately show "(a, l) \<in> F'" using b by simp
qed

lemma free_tiling_unique:
  "free_tiling k T B F A \<Longrightarrow> free_tiling k T B F' A \<Longrightarrow> 2 ^ (k + T) dvd B \<Longrightarrow> F = F'"
  using free_tiling_subset by blast

subsection \<open>The contract\<close>

text \<open>What an allocator promises, over the set of blocks its clients hold. A request for a
  block of a level is answered with a block that no held block meets, or with zero,
  and then every place for such a block in the pool is taken.\<close>

inductive alloc_spec :: "nat \<Rightarrow> nat \<Rightarrow> nat \<Rightarrow> nat \<Rightarrow> block set \<Rightarrow> nat \<Rightarrow> block set \<Rightarrow> bool" for k T B r A where
  served: "valid_block k T B (a, r) \<Longrightarrow> a \<noteq> 0 \<Longrightarrow> \<forall>b\<in>A. rng k (a, r) \<inter> rng k b = {} \<Longrightarrow>
    alloc_spec k T B r A a (insert (a, r) A)"
| full: "\<forall>x. valid_block k T B (x, r) \<longrightarrow> (\<exists>b\<in>A. rng k (x, r) \<inter> rng k b \<noteq> {}) \<Longrightarrow> alloc_spec k T B r A 0 A"

inductive free_spec :: "nat \<Rightarrow> nat \<Rightarrow> block set \<Rightarrow> block set \<Rightarrow> bool" for r a A where
  "(a, r) \<in> A \<Longrightarrow> free_spec r a A (A - {(a, r)})"

inductive_cases alloc_specE: "alloc_spec k T B r A a A'"

inductive_simps free_spec_iff: "free_spec r a A A'"

text \<open>Held blocks keep apart under both.\<close>

definition apart :: "nat \<Rightarrow> block set \<Rightarrow> bool" where
  "apart k A \<longleftrightarrow> (\<forall>b\<in>A. \<forall>c\<in>A. b \<noteq> c \<longrightarrow> rng k b \<inter> rng k c = {})"

lemma alloc_spec_apart: "alloc_spec k T B r A a A' \<Longrightarrow> apart k A \<Longrightarrow> apart k A'"
  unfolding apart_def by (elim alloc_specE) (simp_all add: Int_commute)

lemma free_spec_apart: "free_spec r a A A' \<Longrightarrow> apart k A \<Longrightarrow> apart k A'"
  by (auto simp: apart_def free_spec_iff)

text \<open>An allocator that is only asked for blocks.\<close>

locale block_source =
  fixes inv :: "'s \<Rightarrow> block set \<Rightarrow> bool"
    and k :: nat and T :: nat and B :: nat
    and ok :: "'q \<Rightarrow> bool"
    and level :: "'q \<Rightarrow> nat"
    and get :: "'q \<Rightarrow> 's \<Rightarrow> ('s \<times> nat) option"
  assumes get_law: "inv s A \<Longrightarrow> ok q \<Longrightarrow>
      \<exists>s' a A'. get q s = Some (s', a) \<and> alloc_spec k T B (level q) A a A' \<and> inv s' A'"
begin

text \<open>Serving a list of requests, collecting the answers.\<close>

fun gets :: "'q list \<Rightarrow> 's \<Rightarrow> ('s \<times> nat list) option" where
  "gets [] s = Some (s, [])"
| "gets (q # qs) s = do { (s', a) \<leftarrow> get q s; (s'', as) \<leftarrow> gets qs s'; Some (s'', a # as) }"

text \<open>All requests of a list are answered, and the blocks among the answers are disjoint from
  each other and from what was held before.\<close>

definition granted :: "'q list \<Rightarrow> nat list \<Rightarrow> block set" where
  "granted qs as = {(a, level q) | a q. (q, a) \<in> set (zip qs as) \<and> a \<noteq> 0}"

lemma granted_Cons: "granted (q # qs) (a # as) = (if a = 0 then {} else {(a, level q)}) \<union> granted qs as"
  by (auto simp: granted_def)

lemma gets_inv:
  "inv s A \<Longrightarrow> apart k A \<Longrightarrow> \<forall>q\<in>set qs. ok q \<Longrightarrow>
    \<exists>s' as. gets qs s = Some (s', as) \<and> length as = length qs \<and> inv s' (A \<union> granted qs as) \<and>
      apart k (A \<union> granted qs as)"
proof (induction qs arbitrary: s A)
  case Nil
  then show ?case by (simp add: granted_def)
next
  case (Cons q qs)
  then obtain s1 a A1 where g: "get q s = Some (s1, a)" "alloc_spec k T B (level q) A a A1" "inv s1 A1"
    using get_law [of s A q] by auto
  then have A1: "A1 = A \<union> (if a = 0 then {} else {(a, level q)})" by (auto elim: alloc_specE)
  obtain s2 as where "gets qs s1 = Some (s2, as)" "length as = length qs"
    "inv s2 (A1 \<union> granted qs as)" "apart k (A1 \<union> granted qs as)"
    using Cons g alloc_spec_apart [OF g(2)] by (metis list.set_intros(2))
  then show ?case using g(1) unfolding A1 by (auto simp: granted_Cons Un_assoc)
qed

text \<open>No address is answered twice, and none that was held before.\<close>

lemma gets_distinct:
  "inv s A \<Longrightarrow> \<forall>q\<in>set qs. ok q \<Longrightarrow> gets qs s = Some (s', as) \<Longrightarrow>
    distinct (filter (\<lambda>a. a \<noteq> 0) as) \<and> (\<forall>a\<in>set as. a \<noteq> 0 \<longrightarrow> a \<notin> fst ` A)"
proof (induction qs arbitrary: s A as)
  case (Cons q qs)
  obtain s1 a A1 where g: "get q s = Some (s1, a)" "alloc_spec k T B (level q) A a A1" "inv s1 A1"
    using get_law [of s A q] Cons.prems by auto
  obtain as' where as: "gets qs s1 = Some (s', as')" "as = a # as'"
    using Cons.prems(3) g(1) by (auto simp: bind_eq_Some_conv)
  have "distinct (filter (\<lambda>a. a \<noteq> 0) as') \<and> (\<forall>a\<in>set as'. a \<noteq> 0 \<longrightarrow> a \<notin> fst ` A1)"
    using Cons.IH [OF g(3) _ as(1)] Cons.prems(2) by simp
  moreover have "A1 = (if a = 0 then A else insert (a, level q) A)" "a \<noteq> 0 \<longrightarrow> a \<notin> fst ` A"
    using g(2) by (auto elim!: alloc_specE simp: rng_def)
  ultimately show ?case using as(2) by (auto split: if_splits)
qed simp

end

text \<open>An allocator that also takes blocks back.\<close>

locale block_allocator = block_source inv k T B ok level get
  for inv :: "'s \<Rightarrow> block set \<Rightarrow> bool" and k T B and ok :: "'q \<Rightarrow> bool" and level get +
  fixes put :: "nat \<Rightarrow> 'q \<Rightarrow> 's \<Rightarrow> 's option"
  assumes put_law: "inv s A \<Longrightarrow> ok q \<Longrightarrow> (a, level q) \<in> A \<Longrightarrow>
      \<exists>s' A'. put a q s = Some s' \<and> free_spec (level q) a A A' \<and> inv s' A'"
begin

text \<open>The clients allocate and release in any order; they only release what they hold.\<close>

inductive runs :: "'s \<Rightarrow> 's \<Rightarrow> block set \<Rightarrow> bool" for s where
  start: "runs s s {}"
| get: "runs s s' A \<Longrightarrow> ok q \<Longrightarrow> get q s' = Some (s'', a) \<Longrightarrow>
    runs s s'' (if a = 0 then A else insert (a, level q) A)"
| put: "runs s s' A \<Longrightarrow> ok q \<Longrightarrow> (a, level q) \<in> A \<Longrightarrow> put a q s' = Some s'' \<Longrightarrow>
    runs s s'' (A - {(a, level q)})"

lemma runs_inv: "runs s s' A \<Longrightarrow> inv s {} \<Longrightarrow> inv s' A \<and> apart k A"
proof (induction rule: runs.induct)
  case start
  then show ?case by (simp add: apart_def)
next
  case (get s' A q s'' a)
  then obtain A' where A': "alloc_spec k T B (level q) A a A'" "inv s'' A'"
    using get_law [of s' A q] by auto
  moreover have "A' = (if a = 0 then A else insert (a, level q) A)"
    using A'(1) by (cases rule: alloc_spec.cases) auto
  ultimately show ?case using get alloc_spec_apart [of k T B "level q" A a A'] by auto
next
  case (put s' A q a s'')
  then obtain A' where A': "free_spec (level q) a A A'" "inv s'' A'"
    using put_law [of s' A q a] by auto
  then have "A' = A - {(a, level q)}" by (simp add: free_spec_iff)
  then show ?case using A' put free_spec_apart [of "level q" a A A' k] by auto
qed

lemma runs_get:
  "runs s s' A \<Longrightarrow> inv s {} \<Longrightarrow> ok q \<Longrightarrow>
    \<exists>s'' a A'. get q s' = Some (s'', a) \<and> alloc_spec k T B (level q) A a A'"
  using runs_inv get_law by blast

lemma runs_put:
  "runs s s' A \<Longrightarrow> inv s {} \<Longrightarrow> ok q \<Longrightarrow> (a, level q) \<in> A \<Longrightarrow> \<exists>s''. put a q s' = Some s''"
  using runs_inv put_law by blast

end

end
