(* ===== verification/Buddy.thy ===== *)
theory Buddy
  imports Buddy_Spec
begin

text \<open>
  The allocator of the bootloader, \<open>src/mem/bmalloc/heap.rs\<close>. Addresses and sizes are
  words of the width of \<open>usize\<close>, which the type variable stands for: 32 bits in the
  bootloader. A free block holds the pointer to the next free block of its level in
  its first bytes; that memory is a function from addresses to pointers and is passed
  through the operations. \<open>None\<close> is a failed assertion or an index out of range, and
  for the walk over a list also that it does not end. The pointers wrapped in
  \<open>NullLock\<close> and the mutex around the allocator add nothing to a single thread of
  execution.
\<close>

subsection \<open>The code\<close>

type_synonym 'a headers = "'a word \<Rightarrow> 'a word"

record 'usize buddy_allocator =
  base_addr :: 'usize
  max_blk_size :: 'usize
  min_blk_size :: 'usize
  log2_min_blk_size :: 'usize
  free_lists :: "'usize list"

definition MIN_HEAP_ALIGN :: "'a::len word" where
  "MIN_HEAP_ALIGN = 8192"

text \<open>The loop of \<open>log2\<close>: shift until the number is zero and count.\<close>

function log2_loop :: "'a::len word \<Rightarrow> 'b::len word \<Rightarrow> 'b word" where
  "log2_loop a pow = (if a \<noteq> 0 then log2_loop (drop_bit 1 a) (pow + 1) else pow)"
  by auto
termination
proof (relation "measure (\<lambda>(a, pow). unat a)")
  show "((drop_bit 1 a, pow + 1), a, pow) \<in> measure (\<lambda>(a, pow). unat a)"
    if "a \<noteq> 0" for a :: "'a word" and pow :: "'b word"
    using that by (simp add: unat_drop_bit div_less_dividend unat_gt_0)
qed simp

declare log2_loop.simps [simp del]

definition log2 :: "'a::len word \<Rightarrow> 'a word" where
  "log2 a = log2_loop a 0"

text \<open>\<open>usize::next_power_of_two\<close> for a result that fits.\<close>

definition next_power_of_two :: "'a::len word \<Rightarrow> 'a word" where
  "next_power_of_two n = (if n \<le> 1 then 1 else 2 ^ unat (log2 (n - 1)))"

definition is_power_of_two :: "'a::len word \<Rightarrow> bool" where
  "is_power_of_two n \<longleftrightarrow> n \<noteq> 0 \<and> n AND (n - 1) = 0"

text \<open>The size of the header of a free block is that of a pointer.\<close>

definition FREE_BLOCK_SIZE :: "'a::len word" where
  "FREE_BLOCK_SIZE = word_of_nat (LENGTH('a) div 8)"

definition from_base_unchecked :: "nat \<Rightarrow> 'a::len word \<Rightarrow> 'a word \<Rightarrow> 'a word buddy_allocator" where
  "from_base_unchecked N base max_sz =
    (let min_blk = wrapping_shr max_sz (N - 1)
     in \<lparr>base_addr = base, max_blk_size = max_sz, min_blk_size = min_blk,
         log2_min_blk_size = log2 min_blk,
         free_lists = (replicate N 0)[N - 1 := base]\<rparr>)"

definition buddy_new :: "nat \<Rightarrow> 'a::len word \<Rightarrow> 'a word \<Rightarrow> 'a word buddy_allocator option" where
  "buddy_new N base max_sz =
    (let min_blk = wrapping_shr max_sz (N - 1)
     in if min_blk < FREE_BLOCK_SIZE \<or> max_sz AND (MIN_HEAP_ALIGN - 1) \<noteq> 0 then None
        else Some (from_base_unchecked N base max_sz))"

definition resize :: "'a::len word \<Rightarrow> 'a word \<Rightarrow> 'a word buddy_allocator \<Rightarrow> 'a word buddy_allocator option" where
  "resize base max_sz s =
    (let N = length (free_lists s);
         min_blk = wrapping_shr max_sz (N - 1)
     in if min_blk < FREE_BLOCK_SIZE then None
        else
          let max_sz = max_sz AND NOT (MIN_HEAP_ALIGN - 1)
          in if max_sz AND (MIN_HEAP_ALIGN - 1) \<noteq> 0 then None
             else Some (s\<lparr>base_addr := base, max_blk_size := max_sz, min_blk_size := min_blk,
               free_lists := (replicate N 0)[N - 1 := base], log2_min_blk_size := log2 min_blk\<rparr>))"

definition allocation_level :: "'a::len word buddy_allocator \<Rightarrow> 'a word \<Rightarrow> 'a word \<Rightarrow> u8 option" where
  "allocation_level s sz align =
    (if \<not> sz < max_blk_size s \<or> \<not> is_power_of_two align \<or> \<not> align < MIN_HEAP_ALIGN then None
     else
       let sz = max sz align;
           sz = max sz (min_blk_size s);
           sz = next_power_of_two sz
       in Some (ucast (log2 sz - log2_min_blk_size s)))"

definition level_size :: "'a::len word buddy_allocator \<Rightarrow> u8 \<Rightarrow> 'a word" where
  "level_size s level = wrapping_shl (min_blk_size s) (unat level)"

definition buddy :: "'a::len word buddy_allocator \<Rightarrow> 'a word \<Rightarrow> u8 \<Rightarrow> 'a word option option" where
  "buddy s block level =
    (if \<not> base_addr s \<le> block \<or> \<not> block \<le> base_addr s + max_blk_size s then None
     else if level_size s level = max_blk_size s then Some None
     else Some (Some (block XOR
       wrapping_shl 1 (unat (level - 1 + ucast (log2_min_blk_size s))))))"

text \<open>The loop of \<open>remove_blk\<close>. The position in the list is where the pointer to the
  current block is stored: the head of the list or the header of the block before.\<close>

partial_function (option) remove_walk ::
  "'a::len word \<Rightarrow> 'a headers \<Rightarrow> 'a word option \<Rightarrow> 'a word \<Rightarrow> ('a word option \<times> bool) option" where
  "remove_walk block mem prev curr_blk =
    (if curr_blk = 0 then Some (prev, False)
     else if curr_blk = block then Some (prev, True)
     else remove_walk block mem (Some curr_blk) (mem curr_blk))"

definition remove_blk ::
  "'a::len word \<Rightarrow> u8 \<Rightarrow> 'a word buddy_allocator \<times> 'a headers \<Rightarrow> (('a word buddy_allocator \<times> 'a headers) \<times> bool) option" where
  "remove_blk block level = (\<lambda>(s, mem).
    if \<not> unat level < length (free_lists s) then None
    else do {
      (pred, found) \<leftarrow> remove_walk block mem None (free_lists s ! unat level);
      Some (if \<not> found then ((s, mem), False)
            else case pred of
              None \<Rightarrow> ((s\<lparr>free_lists := (free_lists s)[unat level := mem block]\<rparr>, mem), True)
            | Some p \<Rightarrow> ((s, mem(p := mem block)), True))
    })"

definition pop_blk_with_level ::
  "u8 \<Rightarrow> 'a::len word buddy_allocator \<times> 'a headers \<Rightarrow> ('a word buddy_allocator \<times> 'a word option) option" where
  "pop_blk_with_level level = (\<lambda>(s, mem).
    if \<not> unat level < length (free_lists s) then None
    else
      let head = free_lists s ! unat level
      in Some (if head \<noteq> 0 then
           (s\<lparr>free_lists := (free_lists s)[unat level :=
               if unat level = length (free_lists s) - 1 then 0 else mem head]\<rparr>, Some head)
         else (s, None)))"

definition free_blk ::
  "'a::len word \<Rightarrow> u8 \<Rightarrow> 'a word buddy_allocator \<times> 'a headers \<Rightarrow> ('a word buddy_allocator \<times> 'a headers) option" where
  "free_blk block level = (\<lambda>(s, mem).
    if \<not> unat level < length (free_lists s) then None
    else Some (s\<lparr>free_lists := (free_lists s)[unat level := block]\<rparr>,
               mem(block := free_lists s ! unat level)))"

function split_loop ::
  "'a::len word \<Rightarrow> u8 \<Rightarrow> u8 \<Rightarrow> 'a word buddy_allocator \<times> 'a headers \<Rightarrow> ('a word buddy_allocator \<times> 'a headers) option" where
  "split_loop block level new_level st =
    (if new_level < level then do {
       b \<leftarrow> buddy (fst st) block (level - 1);
       b \<leftarrow> b;
       st \<leftarrow> free_blk b (level - 1) st;
       split_loop block (level - 1) new_level st
     } else Some st)"
  by auto
termination
  by (relation "measure (\<lambda>(block, level, new_level, st). unat level)")
    (auto simp: word_less_nat_alt unat_sub_if')

declare split_loop.simps [simp del]

definition split_blk ::
  "'a::len word \<Rightarrow> u8 \<Rightarrow> u8 \<Rightarrow> 'a word buddy_allocator \<times> 'a headers \<Rightarrow> ('a word buddy_allocator \<times> 'a headers) option" where
  "split_blk block level new_level st =
    (if \<not> new_level \<le> level then None else split_loop block level new_level st)"

text \<open>The loop of \<open>allocate\<close>. The number of levels is below 256, so that the level does
  not wrap around.\<close>

function allocate_loop ::
  "nat \<Rightarrow> u8 \<Rightarrow> 'a::len word buddy_allocator \<times> 'a headers \<Rightarrow> (('a word buddy_allocator \<times> 'a headers) \<times> 'a word) option" where
  "allocate_loop level level_req st =
    (if level < length (free_lists (fst st)) then do {
       (s, blk) \<leftarrow> pop_blk_with_level (word_of_nat level) st;
       (case blk of
          Some blk \<Rightarrow> do {
            st \<leftarrow> (if level_req < word_of_nat level
                   then split_blk blk (word_of_nat level) level_req (s, snd st) else Some (s, snd st));
            Some (st, blk)
          }
        | None \<Rightarrow> allocate_loop (level + 1) level_req st)
     } else Some (st, 0))"
  by auto
termination
  by (relation "measure (\<lambda>(level, level_req, st). length (free_lists (fst st)) - level)") auto

declare allocate_loop.simps [simp del]

definition allocate ::
  "'a::len word \<Rightarrow> 'a word \<Rightarrow> 'a word buddy_allocator \<times> 'a headers \<Rightarrow> (('a word buddy_allocator \<times> 'a headers) \<times> 'a word) option" where
  "allocate sz align st = do {
     level_req \<leftarrow> allocation_level (fst st) sz align;
     allocate_loop (unat level_req) level_req st
   }"

text \<open>The loop of \<open>deallocate\<close> over the levels, given as the list of them.\<close>

fun deallocate_loop ::
  "nat list \<Rightarrow> 'a::len word \<Rightarrow> 'a word buddy_allocator \<times> 'a headers \<Rightarrow> ('a word buddy_allocator \<times> 'a headers) option" where
  "deallocate_loop [] full_block st = Some st"
| "deallocate_loop (level # levels) full_block st = do {
     b \<leftarrow> buddy (fst st) full_block (word_of_nat level);
     (case b of
        None \<Rightarrow> free_blk full_block (word_of_nat level) st
      | Some b \<Rightarrow> do {
          (st, removed) \<leftarrow> remove_blk b (word_of_nat level) st;
          if removed then deallocate_loop levels (min b full_block) st
          else free_blk full_block (word_of_nat level) st
        })
   }"

definition deallocate ::
  "'a::len word \<Rightarrow> 'a word \<Rightarrow> 'a word \<Rightarrow> 'a word buddy_allocator \<times> 'a headers \<Rightarrow> ('a word buddy_allocator \<times> 'a headers) option" where
  "deallocate block sz align st = do {
     alloc_level \<leftarrow> allocation_level (fst st) sz align;
     deallocate_loop [unat alloc_level..<length (free_lists (fst st))] block st
   }"

subsection \<open>Sizes and levels\<close>

lemma log2_loop_eq:
  "2 ^ j \<le> unat a \<Longrightarrow> unat a < 2 ^ Suc j \<Longrightarrow> log2_loop a p = p + word_of_nat (Suc j)"
proof (induction j arbitrary: a p)
  case 0
  then have "unat a = 1" by simp
  then have "a \<noteq> 0" "drop_bit 1 a = 0" by (auto intro!: unat_eqI simp: unat_drop_bit)
  then show ?case by (simp add: log2_loop.simps [of a] log2_loop.simps [of 0])
next
  case (Suc j)
  have "2 ^ j \<le> unat (drop_bit 1 a)" "unat (drop_bit 1 a) < 2 ^ Suc j" "a \<noteq> 0"
    using Suc.prems by (auto simp: unat_drop_bit)
  then show ?case using Suc.IH [of "drop_bit 1 a" "p + 1"] by (simp add: log2_loop.simps [of a] ac_simps)
qed

lemma unat_of_small:
  "n \<le> LENGTH('a) \<Longrightarrow> unat (word_of_nat n :: 'a::len word) = n"
proof -
  assume "n \<le> LENGTH('a)"
  then have "n < 2 ^ LENGTH('a)" using less_exp [of "LENGTH('a)"] by (rule le_less_trans)
  then show ?thesis by (simp add: unat_of_nat)
qed

lemma log2_eq:
  "2 ^ j \<le> unat a \<Longrightarrow> unat a < 2 ^ Suc j \<Longrightarrow> j < LENGTH('a) \<Longrightarrow> unat (log2 (a :: 'a::len word)) = Suc j"
  by (simp add: log2_def log2_loop_eq unat_of_small Suc_le_eq del: of_nat_Suc)

lemma log2_pow: "j < LENGTH('a) \<Longrightarrow> unat (log2 (2 ^ j :: 'a::len word)) = Suc j"
  by (rule log2_eq) (simp_all add: unat_two_pow)

lemma log2_pow_word: "j < LENGTH('a) \<Longrightarrow> log2 (2 ^ j :: 'a::len word) = word_of_nat (Suc j)"
  using log2_pow [of j, where 'a = 'a] by (intro unat_eqI) (simp add: unat_of_small Suc_le_eq del: of_nat_Suc)

text \<open>A well-formed pool: sizes are powers of two, and the base is a multiple of the size
  of the pool.\<close>

definition pool :: "nat \<Rightarrow> nat \<Rightarrow> 'a::len word buddy_allocator \<Rightarrow> bool" where
  "pool k T s \<longleftrightarrow> length (free_lists s) = Suc T \<and> min_blk_size s = 2 ^ k \<and>
    max_blk_size s = 2 ^ (k + T) \<and> log2_min_blk_size s = word_of_nat (Suc k) \<and>
    2 ^ (k + T) dvd unat (base_addr s) \<and> 0 < base_addr s \<and>
    unat (base_addr s) + 2 ^ (k + T) < 2 ^ LENGTH('a) \<and> 13 \<le> k + T \<and> k + T < 255 \<and> 2 \<le> k"

lemma pool_width: "pool k T (s :: 'a::len word buddy_allocator) \<Longrightarrow> k + T < LENGTH('a) \<and> k + T < 255"
proof -
  assume p: "pool k T s"
  then have "(2::nat) ^ (k + T) < 2 ^ LENGTH('a)" unfolding pool_def by linarith
  then have "k + T < LENGTH('a)" by (rule power_less_imp_less_exp [rotated]) simp
  then show ?thesis using p by (simp add: pool_def)
qed

lemma next_power_of_two_spec:
  fixes n :: "'a::len word"
  assumes "0 < unat n" "unat n \<le> 2 ^ m" "m < LENGTH('a)"
  shows "\<exists>j\<le>m. next_power_of_two n = 2 ^ j \<and> unat n \<le> 2 ^ j \<and> (j = 0 \<or> 2 ^ (j - 1) < unat n)"
proof (cases "unat n = 1")
  case True
  then have "n = 1" by (auto intro: unat_eqI)
  then show ?thesis by (auto simp: next_power_of_two_def intro: exI [of _ 0])
next
  case False
  then have n: "2 \<le> unat n" using assms by simp
  have u: "unat (n - 1) = unat n - 1" using n by (simp add: unat_sub_if' word_le_nat_alt)
  have "1 \<le> unat n - 1" using n by simp
  then obtain j where j: "2 ^ j \<le> unat n - 1" "unat n - 1 < 2 ^ Suc j"
    using ex_power_ivl1 [of 2 "unat n - 1"] by auto
  have "(2::nat) ^ j < 2 ^ m" using j(1) assms(2) n by linarith
  then have "j < m" by (rule power_less_imp_less_exp [rotated]) simp
  moreover from this have "unat (log2 (n - 1)) = Suc j" using j u assms(3) by (intro log2_eq) auto
  moreover have "\<not> n \<le> 1" using n by (simp add: word_le_nat_alt)
  moreover have "unat n \<le> 2 ^ Suc j" "2 ^ j < unat n" using j n by linarith+
  ultimately show ?thesis
    by (intro exI [of _ "Suc j"]) (simp add: next_power_of_two_def)
qed

lemma next_power_of_two_level:
  fixes n :: "'a::len word"
  assumes "2 ^ k \<le> unat n" "unat n \<le> 2 ^ (k + T)" "k + T < LENGTH('a)"
  shows "\<exists>r\<le>T. next_power_of_two n = 2 ^ (k + r) \<and> unat n \<le> 2 ^ (k + r) \<and>
    (r = 0 \<or> 2 ^ (k + r - 1) < unat n)"
proof -
  have n0: "0 < unat n" by (rule less_le_trans [OF _ assms(1)]) simp
  obtain j where j: "next_power_of_two n = 2 ^ j" "unat n \<le> 2 ^ j" "j = 0 \<or> 2 ^ (j - 1) < unat n"
    using next_power_of_two_spec [OF n0 assms(2,3)] by blast
  have kj: "k \<le> j"
    using le_trans [OF assms(1) j(2)] by (rule power_le_imp_le_exp [rotated]) simp
  have jT: "j \<le> k + T"
  proof (rule ccontr)
    assume "\<not> j \<le> k + T"
    then have "(2::nat) ^ (k + T) \<le> 2 ^ (j - 1)" by (intro power_increasing) auto
    moreover have "2 ^ (j - 1) < unat n" using j(3) \<open>\<not> j \<le> k + T\<close> by auto
    ultimately show False using assms(2) by linarith
  qed
  show ?thesis using j kj jT by (intro exI [of _ "j - k"]) auto
qed

text \<open>The largest alignment, for words wide enough for it.\<close>

lemma unat_8192: "13 < LENGTH('a) \<Longrightarrow> unat (8192 :: 'a::len word) = 2 ^ 13"
  using unat_two_pow [of 13, where 'a = 'a] by simp

lemma allocation_level_spec:
  fixes s :: "'a::len word buddy_allocator"
  assumes p: "pool k T s" and "sz < 2 ^ (k + T)" "is_power_of_two align" "align < 8192"
  shows "\<exists>w r. allocation_level s sz align = Some w \<and> unat w = r \<and> r \<le> T \<and>
    max (unat sz) (unat align) \<le> 2 ^ (k + r) \<and> (r = 0 \<or> 2 ^ (k + r - 1) < max (unat sz) (unat align))"
proof -
  define n where "n = max (max sz align) (2 ^ k)"
  have w: "k + T < LENGTH('a)" "k + T < 255" using pool_width [OF p] by auto
  have "unat align < 2 ^ 13"
    using assms(4) p w unat_8192 [where 'a = 'a] by (simp add: word_less_nat_alt pool_def)
  also have "(2::nat) ^ 13 \<le> 2 ^ (k + T)" using p by (intro power_increasing) (auto simp: pool_def)
  finally have al: "unat align \<le> 2 ^ (k + T)" by simp
  have pk: "unat (2 ^ k :: 'a::len word) = 2 ^ k" "unat (2 ^ (k + T) :: 'a::len word) = 2 ^ (k + T)"
    using w by (auto simp: unat_two_pow)
  have un: "unat n = max (max (unat sz) (unat align)) (2 ^ k)"
    using pk(1) unfolding n_def by (simp add: max_def word_le_nat_alt)
  have "unat sz < 2 ^ (k + T)" using assms(2) pk by (simp add: word_less_nat_alt)
  then have "2 ^ k \<le> unat n" "unat n \<le> 2 ^ (k + T)" using al un by auto
  then obtain r where r: "r \<le> T" "next_power_of_two n = 2 ^ (k + r)" "unat n \<le> 2 ^ (k + r)"
    "r = 0 \<or> 2 ^ (k + r - 1) < unat n"
    using next_power_of_two_level w(1) by blast
  have "log2 (2 ^ (k + r) :: 'a word) = word_of_nat (Suc (k + r))"
    using r(1) w by (intro log2_pow_word) simp
  then have lg: "log2 (2 ^ (k + r) :: 'a::len word) - log2_min_blk_size s = word_of_nat r"
    using p by (simp add: pool_def)
  have "allocation_level s sz align = Some (ucast (word_of_nat r :: 'a::len word))"
    using assms p r(2) by (simp add: allocation_level_def MIN_HEAP_ALIGN_def pool_def n_def [symmetric] Let_def
      lg [symmetric])
  moreover have "unat (ucast (word_of_nat r :: 'a::len word) :: u8) = r"
    using r(1) w by (simp add: unat_ucast_mod unat_of_small)
  moreover have "max (unat sz) (unat align) \<le> 2 ^ (k + r)" using r(3) un by simp
  moreover have "r = 0 \<or> 2 ^ (k + r - 1) < max (unat sz) (unat align)"
  proof (cases "r = 0")
    case False
    then have "(2::nat) ^ k \<le> 2 ^ (k + r - 1)" by (intro power_increasing) auto
    then show ?thesis using r(4) False un by linarith
  qed simp
  ultimately show ?thesis using r(1) by blast
qed

subsection \<open>The buddy of a block\<close>

lemma level_size_eq:
  fixes s :: "'a::len word buddy_allocator"
  assumes "pool k T s" "l \<le> T"
  shows "level_size s (word_of_nat l) = 2 ^ (k + l)"
proof -
  have "l < LENGTH('a)" "l < 256" "k + T < LENGTH('a)" using assms(2) pool_width [OF assms(1)] by auto
  then show ?thesis
    using assms by (simp add: level_size_def pool_def unat_of_nat push_bit_eq_mult power_add)
qed

lemma buddy_top:
  assumes "pool k T s" "valid_block k T (unat (base_addr s)) (unat a, T)"
  shows "buddy s a (word_of_nat T) = Some None"
proof -
  have "unat (base_addr s + max_blk_size s) = unat (base_addr s) + 2 ^ (k + T)"
    using assms(1) pool_width [OF assms(1)] by (simp add: pool_def unat_word_ariths unat_two_pow)
  then have "base_addr s \<le> a" "a \<le> base_addr s + max_blk_size s"
    using assms(2) by (auto simp: valid_block_def word_le_nat_alt)
  then show ?thesis
    using level_size_eq [OF assms(1) le_refl] assms(1) by (simp add: buddy_def pool_def)
qed

lemma bit_unat_odd: "bit (a::'a::len word) n \<longleftrightarrow> odd (unat a div 2 ^ n)"
proof -
  have "bit (unat a) n \<longleftrightarrow> bit a n" by (simp add: bit_unsigned_iff)
  then show ?thesis by (simp only: bit_iff_odd [of "unat a"])
qed

lemma unat_xor_buddy:
  fixes a :: "'a::len word"
  assumes "valid_block k T B (unat a, l)" "l < T" "2 ^ (k + T) dvd B" "B + 2 ^ (k + T) < 2 ^ LENGTH('a)"
  shows "unat (a XOR 2 ^ (k + l)) = buddy_of k (unat a, l)"
proof -
  let ?b = "buddy_of k (unat a, l)"
  note v = buddy_of_valid [OF assms(1-3)]
  have "(2::nat) ^ (k + l) < 2 ^ LENGTH('a)"
    using assms(1,4) unfolding valid_block_def fst_conv snd_conv by linarith
  then have w: "k + l < LENGTH('a)" by (rule power_less_imp_less_exp [rotated]) simp
  have b: "?b < 2 ^ LENGTH('a)" using v(1) assms(4) by (auto simp: valid_block_def)
  have p: "unat (2 ^ (k + l) :: 'a::len word) = 2 ^ (k + l)" using w by (simp add: unat_two_pow)
  show ?thesis
  proof (cases "even (unat a div 2 ^ (k + l))")
    case True
    then have "\<not> bit a (k + l)" by (simp add: bit_unat_odd)
    then show ?thesis using True v(2) b p by (simp add: xor_two_pow_clear unat_word_ariths)
  next
    case False
    then have "bit a (k + l)" by (simp add: bit_unat_odd)
    then have x: "a XOR 2 ^ (k + l) = a - 2 ^ (k + l)" by (rule xor_two_pow_set)
    have e: "unat a = ?b + 2 ^ (k + l)" using False v(2) by (simp only: if_False)
    then have "2 ^ (k + l) \<le> a" unfolding word_le_nat_alt p by linarith
    then have "unat (a - 2 ^ (k + l)) = unat a - 2 ^ (k + l)" by (simp only: unat_sub p)
    with e show ?thesis unfolding x by linarith
  qed
qed

lemma buddy_inner:
  fixes s :: "'a::len word buddy_allocator"
  assumes "pool k T s" "valid_block k T (unat (base_addr s)) (unat a, l)" "l < T"
  shows "\<exists>b. buddy s a (word_of_nat l) = Some (Some b) \<and> unat b = buddy_of k (unat a, l)"
proof -
  have w: "k + T < LENGTH('a)" "k + T < 255" using pool_width [OF assms(1)] by auto
  have "unat (base_addr s + max_blk_size s) = unat (base_addr s) + 2 ^ (k + T)"
    using assms(1) w by (simp add: pool_def unat_word_ariths unat_two_pow)
  then have "base_addr s \<le> a" "a \<le> base_addr s + max_blk_size s"
    using assms(2) by (auto simp: valid_block_def word_le_nat_alt)
  moreover have "level_size s (word_of_nat l) \<noteq> max_blk_size s"
  proof -
    have "unat (2 ^ (k + l) :: 'a::len word) \<noteq> unat (2 ^ (k + T) :: 'a::len word)" using w assms(3) by (simp add: unat_two_pow)
    then show ?thesis using assms level_size_eq [of k T s l] by (auto simp: pool_def)
  qed
  moreover have "unat (word_of_nat l - 1 + ucast (log2_min_blk_size s) :: u8) = k + l"
  proof -
    have "ucast (log2_min_blk_size s) = (word_of_nat (Suc k) :: u8)"
      using assms(1) w
      by (intro unat_eqI) (simp add: pool_def unat_ucast_mod unat_of_nat [where 'a = 8] unat_of_small del: of_nat_Suc)
    then have "word_of_nat l - 1 + ucast (log2_min_blk_size s) = (word_of_nat (k + l) :: u8)" by simp
    then show ?thesis using w assms(3) by (simp only: unat_of_nat) simp
  qed
  ultimately have "buddy s a (word_of_nat l) = Some (Some (a XOR 2 ^ (k + l)))"
    using w assms(3) by (simp add: buddy_def push_bit_eq_mult)
  moreover have "unat (a XOR 2 ^ (k + l)) = buddy_of k (unat a, l)"
    using assms by (intro unat_xor_buddy) (auto simp: pool_def)
  ultimately show ?thesis by blast
qed

subsection \<open>Free lists\<close>

fun flist :: "'a::len headers \<Rightarrow> 'a word \<Rightarrow> 'a word list \<Rightarrow> bool" where
  "flist mem h [] \<longleftrightarrow> h = 0"
| "flist mem h (x # xs) \<longleftrightarrow> h = x \<and> x \<noteq> 0 \<and> flist mem (mem x) xs"

lemma flist_cong: "(\<And>x. x \<in> set xs \<Longrightarrow> mem' x = mem x) \<Longrightarrow> flist mem' h xs = flist mem h xs"
  by (induction xs arbitrary: h) auto

lemma flist_update [simp]: "x \<notin> set xs \<Longrightarrow> flist (mem(x := v)) h xs = flist mem h xs"
  by (rule flist_cong) auto

lemma remove_walk_absent:
  "flist mem h xs \<Longrightarrow> b \<notin> set xs \<Longrightarrow> \<exists>p. remove_walk b mem prev h = Some (p, False)"
  by (induction xs arbitrary: h prev) (subst remove_walk.simps, auto)+

lemma remove_walk_present:
  "flist mem h (ys @ b # zs) \<Longrightarrow> b \<notin> set ys \<Longrightarrow>
    remove_walk b mem prev h = Some (if ys = [] then prev else Some (last ys), True)"
  by (induction ys arbitrary: h prev) (subst remove_walk.simps, auto)+

lemma flist_unlink:
  "flist mem h (ys @ p # b # zs) \<Longrightarrow> distinct (ys @ p # b # zs) \<Longrightarrow>
    flist (mem(p := mem b)) h (ys @ p # zs)"
  by (induction ys arbitrary: h) auto

text \<open>The free lists of the state hold the given addresses. The head of the list of the
  topmost level is the pool or null, whatever the header of the pool contains.\<close>

definition free_rep :: "nat \<Rightarrow> 'a::len word buddy_allocator \<times> 'a headers \<Rightarrow> 'a word list list \<Rightarrow> bool" where
  "free_rep T st fs \<longleftrightarrow> length fs = Suc T \<and> length (free_lists (fst st)) = Suc T \<and>
    (\<forall>l<T. flist (snd st) (free_lists (fst st) ! l) (fs ! l)) \<and>
    (fs ! T = [] \<and> free_lists (fst st) ! T = 0 \<or>
     fs ! T = [base_addr (fst st)] \<and> free_lists (fst st) ! T = base_addr (fst st))"

subsection \<open>The invariant\<close>

definition blocks :: "'a::len word list list \<Rightarrow> block set" where
  "blocks fs = {(unat a, l) | a l. l < length fs \<and> a \<in> set (fs ! l)}"

text \<open>No two free blocks of a level are buddies.\<close>

definition coalesced :: "nat \<Rightarrow> nat \<Rightarrow> 'a::len word list list \<Rightarrow> bool" where
  "coalesced k T fs \<longleftrightarrow> (\<forall>l<T. \<forall>a\<in>set (fs ! l). buddy_of k (unat a, l) \<notin> unat ` set (fs ! l))"

text \<open>The free lists hold the addresses \<open>fs\<close>, and together with the allocated blocks \<open>A\<close>
  they tile the pool.\<close>

definition binv :: "nat \<Rightarrow> nat \<Rightarrow> 'a::len word buddy_allocator \<times> 'a headers \<Rightarrow> 'a word list list \<Rightarrow> block set \<Rightarrow> bool" where
  "binv k T st fs A \<longleftrightarrow> pool k T (fst st) \<and> free_rep T st fs \<and> (\<forall>l\<le>T. distinct (fs ! l)) \<and>
    coalesced k T fs \<and> blocks fs \<inter> A = {} \<and> tiling k T (unat (base_addr (fst st))) (blocks fs \<union> A)"

lemma blocks_update:
  "l < length fs \<Longrightarrow> blocks (fs[l := xs]) = blocks fs - unat ` set (fs ! l) \<times> {l} \<union> unat ` set xs \<times> {l}"
  by (auto simp: blocks_def nth_list_update split: if_splits)

lemma unat_mem_iff: "unat a \<in> unat ` set xs \<longleftrightarrow> (a::'a::len word) \<in> set xs"
  by (auto dest: unat_eqI)

lemma binv_facts:
  assumes "binv k T st fs A"
  shows "pool k T (fst st)" "free_rep T st fs" "length fs = Suc T" "length (free_lists (fst st)) = Suc T"
    "T < 256" "2 ^ (k + T) dvd unat (base_addr (fst st))"
  using assms pool_width [of k T "fst st"] by (auto simp: binv_def free_rep_def pool_def)

lemma unat_level: "l \<le> T \<Longrightarrow> T < 256 \<Longrightarrow> unat (word_of_nat l :: u8) = l"
  by (simp add: unat_of_nat)

lemma held_not_free:
  assumes "binv k T st fs A" "(unat a, l) \<in> A" "m \<le> T"
  shows "a \<notin> set (fs ! m)"
proof
  assume "a \<in> set (fs ! m)"
  then have "(unat a, m) \<in> blocks fs" using assms(3) binv_facts(3) [OF assms(1)] by (auto simp: blocks_def)
  moreover have "tiling k T (unat (base_addr (fst st))) (blocks fs \<union> A)" "blocks fs \<inter> A = {}"
    using assms(1) by (auto simp: binv_def)
  ultimately show False using assms(2) tiling_unique_start by blast
qed

lemma held_valid:
  assumes "binv k T st fs A" "(unat a, l) \<in> A"
  shows "valid_block k T (unat (base_addr (fst st))) (unat a, l)" "l \<le> T" "a \<noteq> 0"
proof -
  show v: "valid_block k T (unat (base_addr (fst st))) (unat a, l)"
    using assms by (auto simp: binv_def intro: tiling_valid)
  then show "l \<le> T" by (simp add: valid_block_def)
  show "a \<noteq> 0" using v assms(1) by (auto simp: binv_def pool_def valid_block_def word_less_nat_alt)
qed

lemma top_block:
  assumes "valid_block k T (unat (base_addr s)) (unat a, T)"
  shows "a = base_addr s"
  using assms by (intro unat_eqI) (simp add: valid_block_def)

lemma coalesced_update:
  assumes "coalesced k T fs" "l < length fs"
    and "\<And>a. l < T \<Longrightarrow> a \<in> set xs \<Longrightarrow> buddy_of k (unat a, l) \<notin> unat ` set xs"
  shows "coalesced k T (fs[l := xs])"
  unfolding coalesced_def
proof (intro allI impI ballI)
  fix m a assume "m < T" "a \<in> set (fs[l := xs] ! m)"
  then show "buddy_of k (unat a, m) \<notin> unat ` set (fs[l := xs] ! m)"
    using assms by (cases "l = m") (simp_all add: coalesced_def)
qed

lemma coalesced_push:
  assumes inv: "binv k T st fs (insert (unat a, l) A)"
    and nb: "l < T \<Longrightarrow> buddy_of k (unat a, l) \<notin> unat ` set (fs ! l)"
  shows "coalesced k T (fs[l := a # fs ! l])"
proof -
  note f = binv_facts [OF inv] and v = held_valid [OF inv insertI1]
  have c: "coalesced k T fs" using inv by (simp add: binv_def)
  have other: "buddy_of k (unat x, l) \<noteq> unat a" if "l < T" "x \<in> set (fs ! l)" for x
  proof
    assume e: "buddy_of k (unat x, l) = unat a"
    have "(unat x, l) \<in> blocks fs" using that f(3) by (auto simp: blocks_def)
    then have "valid_block k T (unat (base_addr (fst st))) (unat x, l)"
      using inv by (auto simp: binv_def intro: tiling_valid)
    from buddy_of_involution [OF this that(1) f(6)] e have "buddy_of k (unat a, l) = unat x" by simp
    then show False using nb [OF that(1)] that(2) by auto
  qed
  show ?thesis
  proof (rule coalesced_update [OF c])
    fix x assume l: "l < T" and "x \<in> set (a # fs ! l)"
    then consider "x = a" | "x \<in> set (fs ! l)" by auto
    then show "buddy_of k (unat x, l) \<notin> unat ` set (a # fs ! l)"
      using nb [OF l] buddy_of_neq [OF v(1) l f(6)] other [OF l] c l
      by cases (simp_all add: coalesced_def)
  qed (use f(3) v(2) in simp)
qed

text \<open>Putting a held block on its list when its buddy is not free.\<close>

lemma free_blk_push:
  assumes inv: "binv k T st fs (insert (unat a, l) A)" and new: "(unat a, l) \<notin> A"
    and nb: "l < T \<Longrightarrow> buddy_of k (unat a, l) \<notin> unat ` set (fs ! l)"
  shows "\<exists>st'. free_blk a (word_of_nat l) st = Some st' \<and> binv k T st' (fs[l := a # fs ! l]) A"
proof -
  obtain s mem where st: "st = (s, mem)" by (cases st)
  note f = binv_facts [OF inv]
  have v: "valid_block k T (unat (base_addr s)) (unat a, l)" "l \<le> T" "a \<noteq> 0"
    using held_valid [OF inv, of a l] by (auto simp: st)
  have fresh: "a \<notin> set (fs ! m)" if "m \<le> T" for m using held_not_free [OF inv insertI1 that] .
  have lvl: "unat (word_of_nat l :: u8) = l" using v(2) f(5) by (rule unat_level)
  define st' where "st' = (s\<lparr>free_lists := (free_lists s)[l := a]\<rparr>, mem(a := free_lists s ! l))"
  have run: "free_blk a (word_of_nat l) st = Some st'"
    using f(4) v(2) by (simp add: free_blk_def st lvl st'_def)
  have top: "fs ! T = []" if "l = T"
    using f(2) fresh [of T] top_block [of k T s a] v(1) that by (auto simp: free_rep_def st)
  have "free_rep T st' (fs[l := a # fs ! l])"
  proof (cases "l = T")
    case True
    then show ?thesis using f(2,3,4) top fresh top_block [of k T s a] v(1)
      by (auto simp: free_rep_def st st'_def nth_list_update)
  next
    case False
    then show ?thesis using f(2,3,4) fresh v(2,3)
      by (auto simp: free_rep_def st st'_def nth_list_update)
  qed
  moreover have "blocks (fs[l := a # fs ! l]) = insert (unat a, l) (blocks fs)"
    using f(3) v(2) by (subst blocks_update) (auto simp: blocks_def)
  moreover have "coalesced k T (fs[l := a # fs ! l])" using inv nb by (rule coalesced_push)
  ultimately have "binv k T st' (fs[l := a # fs ! l]) A"
    using inv new f(3) fresh v(2) by (auto simp: binv_def st st'_def pool_def nth_list_update)
  with run show ?thesis by blast
qed

text \<open>Taking a block off its list.\<close>

lemma binv_take:
  assumes inv: "binv k T st fs A" and l: "l \<le> T" and a: "a \<in> set (fs ! l)"
    and xs: "set xs = set (fs ! l) - {a}" "distinct xs"
    and st': "pool k T (fst st')" "base_addr (fst st') = base_addr (fst st)" "free_rep T st' (fs[l := xs])"
  shows "binv k T st' (fs[l := xs]) (insert (unat a, l) A)"
proof -
  note f = binv_facts [OF inv]
  have mem: "(unat a, l) \<in> blocks fs" using a l f(3) by (auto simp: blocks_def)
  have b: "blocks (fs[l := xs]) = blocks fs - {(unat a, l)}"
    using f(3) l xs(1) by (subst blocks_update) (auto simp: blocks_def dest: unat_eqI)
  have c: "coalesced k T fs" using inv by (simp add: binv_def)
  have "coalesced k T (fs[l := xs])"
  proof (rule coalesced_update [OF c])
    fix x assume "l < T" "x \<in> set xs"
    then have "buddy_of k (unat x, l) \<notin> unat ` set (fs ! l)" using c xs(1) by (simp add: coalesced_def)
    then show "buddy_of k (unat x, l) \<notin> unat ` set xs" unfolding xs(1) by blast
  qed (use f(3) l in simp)
  moreover have "blocks (fs[l := xs]) \<union> insert (unat a, l) A = blocks fs \<union> A"
    using mem b by blast
  ultimately show ?thesis
    using inv st' b xs(2) f(3) l by (auto simp: binv_def nth_list_update)
qed

lemma pop_head:
  assumes inv: "binv k T st fs A" and l: "l \<le> T" and hd: "fs ! l = a # xs"
  shows "\<exists>s'. pop_blk_with_level (word_of_nat l) st = Some (s', Some a) \<and>
    binv k T (s', snd st) (fs[l := xs]) (insert (unat a, l) A) \<and> (unat a, l) \<notin> A"
proof -
  obtain s mem where st: "st = (s, mem)" by (cases st)
  note f = binv_facts [OF inv]
  have lvl: "unat (word_of_nat l :: u8) = l" using l f(5) by (rule unat_level)
  have head: "free_lists s ! l = a \<and> a \<noteq> 0 \<and> (l = T \<longrightarrow> xs = []) \<and> (l < T \<longrightarrow> flist mem (mem a) xs)"
  proof (cases "l = T")
    case True
    then show ?thesis using f(1,2) hd by (auto simp: free_rep_def st pool_def)
  next
    case False
    then have "flist mem (free_lists s ! l) (a # xs)" using f(2) hd l by (simp add: free_rep_def st flip: hd)
    then show ?thesis using False by simp
  qed
  define s' where "s' = s\<lparr>free_lists := (free_lists s)[l := if l = T then 0 else mem a]\<rparr>"
  have run: "pop_blk_with_level (word_of_nat l) st = Some (s', Some a)"
    using f(4) l head by (simp add: pop_blk_with_level_def st lvl s'_def)
  have rp: "free_rep T (s', mem) (fs[l := xs])"
    using f(2,3,4) l head by (auto simp: free_rep_def st s'_def nth_list_update)
  have pl: "pool k T s'" using f(1) by (simp add: pool_def st s'_def)
  have "distinct (fs ! l)" using inv l by (simp add: binv_def)
  then have "binv k T (s', mem) (fs[l := xs]) (insert (unat a, l) A)"
    by (intro binv_take [OF inv l]) (simp_all add: hd rp pl, auto simp: s'_def st)
  moreover have "(unat a, l) \<in> blocks fs" using hd l f(3) by (auto simp: blocks_def)
  then have "(unat a, l) \<notin> A" using inv by (auto simp: binv_def)
  ultimately show ?thesis using run by (simp add: st)
qed

lemma pop_empty:
  assumes inv: "binv k T st fs A" and l: "l \<le> T" and "fs ! l = []"
  shows "pop_blk_with_level (word_of_nat l) st = Some (fst st, None)"
proof -
  note f = binv_facts [OF inv]
  have lvl: "unat (word_of_nat l :: u8) = l" using l f(5) by (rule unat_level)
  have "free_lists (fst st) ! l = 0"
  proof (cases "l = T")
    case True
    then show ?thesis using f(2) assms(3) by (auto simp: free_rep_def)
  next
    case False
    then have "flist (snd st) (free_lists (fst st) ! l) (fs ! l)" using f(2) l by (simp add: free_rep_def)
    then show ?thesis using assms(3) by simp
  qed
  then show ?thesis using f(4) l lvl by (auto simp: pop_blk_with_level_def split: prod.split)
qed

lemma free_rep_remove:
  assumes inv: "binv k T (s, mem) fs A" and l: "l < T" and b: "fs ! l = ys @ b # zs"
  shows "\<exists>s' mem'. remove_blk b (word_of_nat l) (s, mem) = Some ((s', mem'), True) \<and>
    free_rep T (s', mem') (fs[l := ys @ zs]) \<and> pool k T s' \<and> base_addr s' = base_addr s"
proof -
  note f = binv_facts [OF inv, unfolded fst_conv]
  have lvl: "unat (word_of_nat l :: u8) = l" using l f(5) by (intro unat_level) auto
  have d: "distinct (ys @ b # zs)" and fl: "flist mem (free_lists s ! l) (ys @ b # zs)"
    using inv l by (auto simp: binv_def free_rep_def simp flip: b)
  have walk: "remove_walk b mem None (free_lists s ! l) = Some (if ys = [] then None else Some (last ys), True)"
    using remove_walk_present [OF fl] d by simp
  show ?thesis
  proof (cases ys rule: rev_cases)
    case Nil
    then have "flist mem (mem b) zs" using fl by simp
    then have "free_rep T (s\<lparr>free_lists := (free_lists s)[l := mem b]\<rparr>, mem) (fs[l := ys @ zs])"
      using f(2,3,4) l Nil by (auto simp: free_rep_def nth_list_update)
    then show ?thesis using walk Nil f(1,4) l by (simp add: remove_blk_def lvl pool_def)
  next
    case (snoc ys' p)
    then have "flist (mem(p := mem b)) (free_lists s ! l) (ys @ zs)"
      using flist_unlink [of mem _ ys' p b zs] fl d by simp
    moreover have "p \<notin> set (fs ! m)" if "m \<le> T" "m \<noteq> l" for m
    proof
      assume "p \<in> set (fs ! m)"
      then have "(unat p, m) \<in> blocks fs" "(unat p, l) \<in> blocks fs"
        using that l f(3) b snoc by (auto simp: blocks_def)
      moreover have "tiling k T (unat (base_addr s)) (blocks fs \<union> A)" using inv by (simp add: binv_def)
      ultimately show False using that(2) tiling_unique_start by blast
    qed
    ultimately have "free_rep T (s, mem(p := mem b)) (fs[l := ys @ zs])"
      using f(2,3,4) l by (auto simp: free_rep_def nth_list_update)
    then show ?thesis using walk snoc f(1,4) l by (simp add: remove_blk_def lvl)
  qed
qed

lemma remove_free:
  assumes inv: "binv k T st fs A" and l: "l < T" and b: "b \<in> set (fs ! l)"
  shows "\<exists>st' xs. remove_blk b (word_of_nat l) st = Some (st', True) \<and>
    binv k T st' (fs[l := xs]) (insert (unat b, l) A) \<and> (unat b, l) \<notin> A"
proof -
  obtain s mem where st: "st = (s, mem)" by (cases st)
  note f = binv_facts [OF inv]
  obtain ys zs where split: "fs ! l = ys @ b # zs" using split_list [OF b] by blast
  from free_rep_remove [of k T s mem fs A l ys b zs] inv l split obtain s' mem' where
    r: "remove_blk b (word_of_nat l) (s, mem) = Some ((s', mem'), True)"
    "free_rep T (s', mem') (fs[l := ys @ zs])" "pool k T s'" "base_addr s' = base_addr s"
    by (auto simp: st)
  have "distinct (fs ! l)" using inv l by (simp add: binv_def)
  then have "binv k T (s', mem') (fs[l := ys @ zs]) (insert (unat b, l) A)"
    using r(2-4) split l by (intro binv_take [OF inv]) (auto simp: st)
  moreover have "(unat b, l) \<in> blocks fs" using b l f(3) by (auto simp: blocks_def)
  then have "(unat b, l) \<notin> A" using inv by (auto simp: binv_def)
  ultimately show ?thesis using r(1) st by blast
qed

lemma remove_not_free:
  assumes inv: "binv k T st fs A" and l: "l < T" and b: "b \<notin> set (fs ! l)"
  shows "remove_blk b (word_of_nat l) st = Some (st, False)"
proof -
  note f = binv_facts [OF inv]
  have lvl: "unat (word_of_nat l :: u8) = l" using l f(5) by (intro unat_level) auto
  have "flist (snd st) (free_lists (fst st) ! l) (fs ! l)" using f(2) l by (simp add: free_rep_def)
  from remove_walk_absent [OF this b, of None] obtain p where
    "remove_walk b (snd st) None (free_lists (fst st) ! l) = Some (p, False)" by blast
  then show ?thesis using f(4) l by (cases st) (simp add: remove_blk_def lvl)
qed

subsection \<open>Splitting and merging\<close>

lemma held_start_unique:
  assumes "binv k T st fs A" "(x, l) \<in> A" "(x, m) \<in> blocks fs \<union> A"
  shows "m = l"
  using assms tiling_unique_start [of k T _ "blocks fs \<union> A" x m l] by (auto simp: binv_def)

lemma binv_retile:
  assumes "binv k T st fs A" "blocks fs \<inter> A' = {}" "tiling k T (unat (base_addr (fst st))) (blocks fs \<union> A')"
  shows "binv k T st fs A'"
  using assms by (simp add: binv_def)

lemma binv_split:
  assumes inv: "binv k T st fs (insert (unat a, Suc j) A)" and new: "(unat a, Suc j) \<notin> A"
    and b: "unat b = unat a + 2 ^ (k + j)"
  shows "binv k T st fs (insert (unat b, j) (insert (unat a, j) A))"
    and "(unat b, j) \<notin> insert (unat a, j) A" "(unat a, j) \<notin> A" "a \<notin> set (fs ! j)"
proof -
  let ?B = "unat (base_addr (fst st))" and ?x = "(unat a, Suc j)"
  have t: "tiling k T ?B (blocks fs \<union> insert ?x A)" and d: "blocks fs \<inter> insert ?x A = {}"
    using inv by (auto simp: binv_def)
  have na: "(unat a, j) \<notin> blocks fs \<union> insert ?x A"
    using tiling_unique_start [OF t, of "unat a" j "Suc j"] by auto
  have nb: "(unat b, j) \<notin> blocks fs \<union> insert ?x A"
  proof
    assume mem: "(unat b, j) \<in> blocks fs \<union> insert ?x A"
    then have "rng k (unat b, j) \<inter> rng k ?x = {}" by (intro tiling_disjoint [OF t]) auto
    moreover have "rng k (unat b, j) \<subseteq> rng k ?x" using rng_halves [of k "unat a" j] b by auto
    ultimately show False using rng_nonempty [of "(unat b, j)" k] by blast
  qed
  have "blocks fs \<union> insert ?x A - {?x} \<union> {(unat a, j), (unat b, j)} =
      blocks fs \<union> insert (unat b, j) (insert (unat a, j) A)"
    using d new by auto
  moreover have "tiling k T ?B (blocks fs \<union> insert ?x A - {?x} \<union> {(unat a, j), (unat b, j)})"
    unfolding b by (rule tiling_split [OF t]) simp
  ultimately show "binv k T st fs (insert (unat b, j) (insert (unat a, j) A))"
    using d na nb by (intro binv_retile [OF inv]) auto
  show "(unat b, j) \<notin> insert (unat a, j) A" "(unat a, j) \<notin> A" using na nb b by auto
  have "j \<le> T" "length fs = Suc T"
    using held_valid(2) [OF inv insertI1] binv_facts(3) [OF inv] by auto
  then show "a \<notin> set (fs ! j)" using na by (auto simp: blocks_def)
qed

lemma binv_merge:
  assumes inv: "binv k T st fs (insert (unat b, l) (insert (unat a, l) A))"
    and new: "(unat b, l) \<notin> A" "(unat a, l) \<notin> A" and l: "l < T" and b: "unat b = buddy_of k (unat a, l)"
  shows "binv k T st fs (insert (unat (min b a), Suc l) A)" "(unat (min b a), Suc l) \<notin> A"
proof -
  let ?B = "unat (base_addr (fst st))" and ?S = "blocks fs \<union> insert (unat b, l) (insert (unat a, l) A)"
  have t: "tiling k T ?B ?S" and d: "blocks fs \<inter> insert (unat b, l) (insert (unat a, l) A) = {}"
    using inv by (auto simp: binv_def)
  have v: "valid_block k T ?B (unat a, l)" using t by (rule tiling_valid) simp
  note dv = binv_facts(6) [OF inv]
  define m where "m = unat (min b a)"
  have halves: "{(m, l), (m + 2 ^ (k + l), l)} = {(unat a, l), (unat b, l)} \<and> 2 ^ (k + Suc l) dvd m"
    using v l dv
  proof (cases rule: buddy_of_cases)
    case 1
    then have "unat a < unat b" unfolding b by simp
    then have "m = unat a" by (simp add: m_def min_def word_le_nat_alt)
    then show ?thesis using 1 b by simp
  next
    case 2
    then have "unat b < unat a" unfolding b using less_add_eq_less by fastforce
    then have "m = unat b" by (simp add: m_def min_def word_le_nat_alt)
    then show ?thesis using 2 b by auto
  qed
  have "(m, l) \<in> ?S" "(m + 2 ^ (k + l), l) \<in> ?S" using halves by auto
  from tiling_merge [OF t this _ l] halves
  have t': "tiling k T ?B (?S - {(unat a, l), (unat b, l)} \<union> {(m, Suc l)})" by simp
  have fresh: "(m, Suc l) \<notin> ?S"
    using tiling_unique_start [OF t, of m "Suc l" l] halves by auto
  have "?S - {(unat a, l), (unat b, l)} \<union> {(m, Suc l)} = blocks fs \<union> insert (m, Suc l) A"
    using d new by auto
  then show "binv k T st fs (insert (unat (min b a), Suc l) A)"
    using t' d fresh by (intro binv_retile [OF inv]) (auto simp: m_def [symmetric])
  show "(unat (min b a), Suc l) \<notin> A" using fresh by (auto simp: m_def)
qed

subsection \<open>Allocation\<close>

lemma split_loop_correct:
  assumes "binv k T st fs (insert (unat a, l) A)" "(unat a, l) \<notin> A" "r \<le> l"
  shows "\<exists>st' fs'. split_loop a (word_of_nat l) (word_of_nat r) st = Some st' \<and>
    binv k T st' fs' (insert (unat a, r) A) \<and> (unat a, r) \<notin> A"
  using assms
proof (induction l arbitrary: st fs)
  case 0
  then show ?case by (auto simp: split_loop.simps [of a 0 0])
next
  case (Suc j)
  note inv = Suc.prems(1) and f = binv_facts [OF Suc.prems(1)] and v = held_valid [OF Suc.prems(1) insertI1]
  have lv: "unat (word_of_nat (Suc j) :: u8) = Suc j" "unat (word_of_nat r :: u8) = r"
    using v(2) f(5) Suc.prems(3) by (auto intro!: unat_level [of _ T] simp del: of_nat_Suc)
  show ?case
  proof (cases "r = Suc j")
    case True
    then show ?thesis using Suc.prems by (subst split_loop.simps) (auto simp del: of_nat_Suc)
  next
    case False
    then have r: "r \<le> j" using Suc.prems(3) by simp
    have less: "(word_of_nat r :: u8) < word_of_nat (Suc j)" using lv r by (simp add: word_less_nat_alt del: of_nat_Suc)
    have pred: "word_of_nat (Suc j) - 1 = (word_of_nat j :: u8)" by simp
    have jT: "j < T" using v(2) by simp
    have d: "2 ^ (k + Suc j) dvd unat a" using v(1) by (simp add: valid_block_def)
    have va: "valid_block k T (unat (base_addr (fst st))) (unat a, j)"
      using v(1) d le_imp_power_dvd [of "k + j" "k + Suc j" "2::nat"]
      by (auto simp: valid_block_def intro: dvd_trans)
    obtain b where b: "buddy (fst st) a (word_of_nat j) = Some (Some b)" "unat b = buddy_of k (unat a, j)"
      using buddy_inner [OF f(1) va jT] by blast
    have eb: "unat b = unat a + 2 ^ (k + j)"
      using d even_index_iff [of k j "unat a"] va by (simp add: b(2) buddy_of_def valid_block_def)
    note sp = binv_split [OF inv Suc.prems(2) eb]
    have "buddy_of k (unat b, j) \<notin> unat ` set (fs ! j)"
      using buddy_of_involution [OF va jT f(6)] sp(4) by (simp add: b(2) unat_mem_iff)
    then obtain st' where st': "free_blk b (word_of_nat j) st = Some st'"
      "binv k T st' (fs[j := b # fs ! j]) (insert (unat a, j) A)"
      using free_blk_push [OF sp(1,2)] by blast
    from Suc.IH [OF st'(2) sp(3) r] show ?thesis
      by (subst split_loop.simps) (simp add: less pred b(1) st'(1) del: of_nat_Suc)
  qed
qed

lemma allocate_loop_correct:
  assumes "binv k T st fs A" "r \<le> T" "r \<le> l"
  shows "if \<exists>m. l \<le> m \<and> m \<le> T \<and> fs ! m \<noteq> []
    then \<exists>st' fs' a. allocate_loop l (word_of_nat r) st = Some (st', a) \<and> a \<noteq> 0 \<and>
      binv k T st' fs' (insert (unat a, r) A) \<and> (unat a, r) \<notin> A
    else allocate_loop l (word_of_nat r) st = Some (st, 0)"
  using assms(3)
proof (induction "Suc T - l" arbitrary: l)
  case 0
  then have "\<not> (\<exists>m. l \<le> m \<and> m \<le> T \<and> fs ! m \<noteq> [])" by simp
  then show ?case using 0 binv_facts(4) [OF assms(1)] by (simp add: allocate_loop.simps [of l])
next
  case (Suc d)
  then have l: "l \<le> T" by simp
  note f = binv_facts [OF assms(1)]
  have lv: "unat (word_of_nat l :: u8) = l" "unat (word_of_nat r :: u8) = r"
    using l f(5) assms(2) by (auto intro!: unat_level [of _ T])
  show ?case
  proof (cases "fs ! l")
    case Nil
    have ex: "(\<exists>m. l \<le> m \<and> m \<le> T \<and> fs ! m \<noteq> []) \<longleftrightarrow> (\<exists>m. Suc l \<le> m \<and> m \<le> T \<and> fs ! m \<noteq> [])"
      using Nil by (metis Suc_leD le_antisym not_less_eq_eq)
    have go: "allocate_loop l (word_of_nat r) st = allocate_loop (Suc l) (word_of_nat r) st"
      using l f(4) pop_empty [OF assms(1) l Nil] by (simp add: allocate_loop.simps [of l])
    have "d = Suc T - Suc l" "r \<le> Suc l" using Suc.hyps(2) Suc.prems by auto
    from Suc.hyps(1) [OF this] show ?thesis unfolding ex go .
  next
    case (Cons a xs)
    from pop_head [OF assms(1) l Cons] obtain s' where
      p: "pop_blk_with_level (word_of_nat l) st = Some (s', Some a)"
      "binv k T (s', snd st) (fs[l := xs]) (insert (unat a, l) A)" "(unat a, l) \<notin> A" by blast
    from split_loop_correct [OF p(2,3) Suc.prems] obtain st' fs' where
      sp: "split_loop a (word_of_nat l) (word_of_nat r) (s', snd st) = Some st'"
      "binv k T st' fs' (insert (unat a, r) A)" "(unat a, r) \<notin> A" by blast
    have lt: "(word_of_nat r :: u8) < word_of_nat l \<longleftrightarrow> r < l" "(word_of_nat r :: u8) \<le> word_of_nat l"
      using lv Suc.prems by (simp_all add: word_less_nat_alt word_le_nat_alt)
    have "split_loop a (word_of_nat l) (word_of_nat r) (s', snd st) = Some (s', snd st)" if "\<not> r < l"
      by (subst split_loop.simps) (simp add: lt that)
    then have "allocate_loop l (word_of_nat r) st = Some (st', a)"
      using l f(4) p(1) sp(1) lt by (auto simp: allocate_loop.simps [of l] split_blk_def)
    moreover have "a \<noteq> 0" using held_valid(3) [OF sp(2) insertI1] .
    ultimately show ?thesis using sp(2,3) l Cons by (auto intro!: exI [of _ l])
  qed
qed

subsection \<open>Release\<close>

lemma deallocate_loop_correct:
  assumes "binv k T st fs (insert (unat a, l) A)" "(unat a, l) \<notin> A"
  shows "\<exists>st' fs'. deallocate_loop [l..<Suc T] a st = Some st' \<and> binv k T st' fs' A"
  using assms
proof (induction "T - l" arbitrary: l a st fs)
  case 0
  note f = binv_facts [OF 0(2)] and v = held_valid [OF 0(2) insertI1]
  have lT: "l = T" using 0(1) v(2) by simp
  obtain st' where "free_blk a (word_of_nat T) st = Some st'" "binv k T st' (fs[T := a # fs ! T]) A"
    using free_blk_push [OF 0(2,3)] lT by auto
  then show ?case using buddy_top [OF f(1), of a] v(1) by (auto simp: lT)
next
  case (Suc d)
  note inv = Suc.prems(1) and f = binv_facts [OF Suc.prems(1)] and v = held_valid [OF Suc.prems(1) insertI1]
  have l: "l < T" using Suc.hyps(2) by simp
  have lv: "[l..<Suc T] = l # [Suc l..<Suc T]" using l by (simp add: upt_conv_Cons del: upt_Suc)
  obtain b where b: "buddy (fst st) a (word_of_nat l) = Some (Some b)" "unat b = buddy_of k (unat a, l)"
    using buddy_inner [OF f(1) v(1) l] by blast
  show ?case
  proof (cases "b \<in> set (fs ! l)")
    case True
    from remove_free [OF inv l True] obtain st' xs where
      r: "remove_blk b (word_of_nat l) st = Some (st', True)"
      "binv k T st' (fs[l := xs]) (insert (unat b, l) (insert (unat a, l) A))"
      "(unat b, l) \<notin> insert (unat a, l) A" by blast
    note m = binv_merge [OF r(2) _ Suc.prems(2) l b(2)]
    have "d = T - Suc l" using Suc.hyps(2) by simp
    from Suc.hyps(1) [OF this, of st' "fs[l := xs]" "min b a"] m r(3)
    obtain st'' fs'' where "deallocate_loop [Suc l..<Suc T] (min b a) st' = Some st''" "binv k T st'' fs'' A"
      by auto
    then show ?thesis unfolding lv by (auto simp: b(1) r(1) simp del: upt_Suc)
  next
    case False
    then have "buddy_of k (unat a, l) \<notin> unat ` set (fs ! l)" by (simp add: unat_mem_iff flip: b(2))
    then obtain st' where "free_blk a (word_of_nat l) st = Some st'" "binv k T st' (fs[l := a # fs ! l]) A"
      using free_blk_push [OF inv Suc.prems(2)] by blast
    then show ?thesis unfolding lv using remove_not_free [OF inv l False] by (auto simp: b(1) simp del: upt_Suc)
  qed
qed

subsection \<open>The allocator as a whole\<close>

definition buddy_inv :: "nat \<Rightarrow> nat \<Rightarrow> nat \<Rightarrow> 'a::len word buddy_allocator \<times> 'a headers \<Rightarrow> block set \<Rightarrow> bool" where
  "buddy_inv k T B st A \<longleftrightarrow> (\<exists>fs. binv k T st fs A) \<and> unat (base_addr (fst st)) = B"

text \<open>No operation moves the pool.\<close>

lemma free_blk_base: "free_blk b l st = Some st' \<Longrightarrow> base_addr (fst st') = base_addr (fst st)"
  by (auto simp: free_blk_def split: prod.splits if_splits)

lemma pop_base: "pop_blk_with_level l st = Some (s', b) \<Longrightarrow> base_addr s' = base_addr (fst st)"
  by (auto simp: pop_blk_with_level_def Let_def split: prod.splits if_splits)

lemma remove_base: "remove_blk b l st = Some (st', r) \<Longrightarrow> base_addr (fst st') = base_addr (fst st)"
  by (auto simp: remove_blk_def bind_eq_Some_conv split: prod.splits if_splits option.splits)

lemma split_loop_base: "split_loop b l n st = Some st' \<Longrightarrow> base_addr (fst st') = base_addr (fst st)"
proof (induction b l n st rule: split_loop.induct)
  case (1 b l n st)
  then show ?case
    by (subst (asm) (2) split_loop.simps) (fastforce simp: bind_eq_Some_conv free_blk_base split: if_splits)
qed

lemma allocate_loop_base:
  "allocate_loop l r st = Some (st', a) \<Longrightarrow> base_addr (fst st') = base_addr (fst st)"
proof (induction l r st rule: allocate_loop.induct)
  case (1 l r st)
  show ?case
  proof (cases "l < length (free_lists (fst st))")
    case True
    then obtain s b where p: "pop_blk_with_level (word_of_nat l) st = Some (s, b)"
      using "1.prems" by (subst (asm) allocate_loop.simps) (auto simp: bind_eq_Some_conv)
    show ?thesis
    proof (cases b)
      case None
      then show ?thesis
        using "1.prems" True p "1.IH" [OF True p refl] by (subst (asm) allocate_loop.simps) auto
    next
      case (Some x)
      have "base_addr (fst st2) = base_addr s"
        if "split_blk x (word_of_nat l) r (s, snd st) = Some st2" for st2
        using that split_loop_base [of x "word_of_nat l" r "(s, snd st)" st2]
        by (simp add: split_blk_def split: if_splits)
      then show ?thesis
        using "1.prems" True p pop_base [OF p] Some
        by (subst (asm) allocate_loop.simps) (auto simp: bind_eq_Some_conv split: if_splits)
    qed
  next
    case False
    then show ?thesis using "1.prems" by (subst (asm) allocate_loop.simps) simp
  qed
qed

lemma deallocate_loop_base:
  "deallocate_loop ls b st = Some st' \<Longrightarrow> base_addr (fst st') = base_addr (fst st)"
proof (induction ls arbitrary: b st)
  case (Cons l ls)
  show ?case
  proof (cases "buddy (fst st) b (word_of_nat l)")
    case (Some c)
    show ?thesis
    proof (cases c)
      case None
      then show ?thesis using Cons.prems Some free_blk_base by simp
    next
      case (Some d)
      then obtain st2 r where rm: "remove_blk d (word_of_nat l) st = Some (st2, r)"
        using Cons.prems \<open>buddy _ _ _ = _\<close> by (auto simp: bind_eq_Some_conv)
      have "base_addr (fst st') = base_addr (fst st2)"
        using Cons.prems \<open>buddy _ _ _ = _\<close> Some rm
          Cons.IH [of "min d b" st2] free_blk_base [of b "word_of_nat l" st2 st']
        by (simp split: if_splits)
      then show ?thesis using remove_base [OF rm] by simp
    qed
  qed (use Cons.prems in simp)
qed simp

lemma power_of_two_cases:
  fixes n :: "'a::len word"
  assumes "is_power_of_two n"
  obtains j where "n = 2 ^ j" "j < LENGTH('a)"
proof -
  have n: "1 \<le> unat n" using assms by (simp add: is_power_of_two_def Suc_le_eq unat_gt_0)
  then obtain j where j: "2 ^ j \<le> unat n" "unat n < 2 ^ Suc j"
    using ex_power_ivl1 [of 2 "unat n"] by auto
  have "(2::nat) ^ j < 2 ^ LENGTH('a)" using j(1) unat_less [of n] by (rule le_less_trans)
  then have j32: "j < LENGTH('a)" by (rule power_less_imp_less_exp [rotated]) simp
  have "unat n = 2 ^ j"
  proof (rule ccontr)
    assume "unat n \<noteq> 2 ^ j"
    then have m: "2 ^ j \<le> unat (n - 1)" "unat (n - 1) < 2 ^ Suc j"
      using j n by (auto simp: unat_sub_if' word_le_nat_alt)
    have "unat n div 2 ^ j = 1" "unat (n - 1) div 2 ^ j = 1"
      using j m by (auto intro!: div_nat_eqI)
    then have "bit n j" "bit (n - 1) j" by (simp_all add: bit_unat_odd)
    then have "bit (n AND (n - 1)) j" by (simp add: bit_and_iff)
    then show False using assms by (simp add: is_power_of_two_def)
  qed
  then have "n = 2 ^ j" using j32 by (intro unat_eqI) (simp add: unat_two_pow)
  then show ?thesis using j32 that by blast
qed

lemma align_dvd:
  fixes align :: "'a::len word"
  assumes "is_power_of_two align" "unat align \<le> 2 ^ m"
  shows "unat align dvd 2 ^ m"
proof -
  obtain j where j: "align = 2 ^ j" "j < LENGTH('a)" using assms(1) by (rule power_of_two_cases)
  then have u: "unat align = 2 ^ j" by (simp add: unat_two_pow)
  then have "j \<le> m" using assms(2) by (auto intro: power_le_imp_le_exp [of 2])
  then show ?thesis unfolding u by (rule le_imp_power_dvd)
qed

lemma free_levels_below:
  assumes "binv k T st fs A" "\<not> (\<exists>m. r \<le> m \<and> m \<le> T \<and> fs ! m \<noteq> [])" "valid_block k T (unat (base_addr (fst st))) (x, r)"
  shows "rng k (x, r) \<inter> (\<Union>b\<in>A. rng k b) \<noteq> {}"
proof (rule no_room)
  note f = binv_facts [OF assms(1)]
  show "tiling k T (unat (base_addr (fst st))) (blocks fs \<union> A)" using assms(1) by (simp add: binv_def)
  show "l < r" if "(a, l) \<in> blocks fs" for a l
  proof (rule ccontr)
    assume "\<not> l < r"
    moreover have "l \<le> T" "fs ! l \<noteq> []" using that f(3) by (auto simp: blocks_def)
    ultimately show False using assms(2) not_less by blast
  qed
  show "(buddy_of k (a, l), l) \<notin> blocks fs" if "(a, l) \<in> blocks fs" "l < T" for a l
    using that assms(1) by (fastforce simp: blocks_def binv_def coalesced_def image_iff)
qed (use assms(3) binv_facts(6) [OF assms(1)] in simp_all)

definition serves :: "nat \<Rightarrow> 'a::len word \<Rightarrow> 'a word \<Rightarrow> nat \<Rightarrow> bool" where
  "serves k sz align r \<longleftrightarrow> max (unat sz) (unat align) \<le> 2 ^ (k + r) \<and>
    (r = 0 \<or> 2 ^ (k + r - 1) < max (unat sz) (unat align))"

lemma allocate_outcome:
  assumes inv: "buddy_inv k T B st A" and q: "sz < 2 ^ (k + T)" "is_power_of_two align" "align < 8192"
  shows "\<exists>w st' a A'. allocation_level (fst st) sz align = Some w \<and> unat w \<le> T \<and>
    serves k sz align (unat w) \<and> allocate sz align st = Some (st', a) \<and>
    alloc_spec k T B (unat w) A (unat a) A' \<and> buddy_inv k T B st' A'"
proof -
  obtain fs where b: "binv k T st fs A" and B: "unat (base_addr (fst st)) = B"
    using inv by (auto simp: buddy_inv_def)
  obtain w r where w: "allocation_level (fst st) sz align = Some w" "unat w = r" "r \<le> T"
    and srv: "serves k sz align r"
    using allocation_level_spec [OF binv_facts(1) [OF b] q] by (auto simp: serves_def)
  have run: "allocate sz align st = allocate_loop r (word_of_nat r) st"
    using w by (auto simp: allocate_def)
  show ?thesis
  proof (cases "\<exists>m. r \<le> m \<and> m \<le> T \<and> fs ! m \<noteq> []")
    case True
    then obtain st' fs' a where o: "allocate_loop r (word_of_nat r) st = Some (st', a)" "a \<noteq> 0"
      "binv k T st' fs' (insert (unat a, r) A)" "(unat a, r) \<notin> A"
      using allocate_loop_correct [OF b w(3) le_refl] by auto
    have B': "unat (base_addr (fst st')) = B" using allocate_loop_base [OF o(1)] B by simp
    have t: "tiling k T B (blocks fs' \<union> insert (unat a, r) A)" using o(3) B' by (simp add: binv_def)
    have "alloc_spec k T B r A (unat a) (insert (unat a, r) A)"
    proof (rule served)
      show "valid_block k T B (unat a, r)" using t by (rule tiling_valid) simp
      show "\<forall>b\<in>A. rng k (unat a, r) \<inter> rng k b = {}"
        using tiling_disjoint [OF t] o(4) by (metis UnI2 insertCI)
    qed (use o(2) in \<open>simp add: unat_eq_zero\<close>)
    then show ?thesis using w srv run o(1,3) B' by (auto simp: buddy_inv_def)
  next
    case False
    have "alloc_spec k T B r A 0 A"
      using free_levels_below [OF b False] B by (intro full) blast
    then show ?thesis
      using allocate_loop_correct [OF b w(3) le_refl] False w srv run inv
      by (intro exI [of _ w] exI [of _ st] exI [of _ 0] exI [of _ A]) auto
  qed
qed

lemma deallocate_outcome:
  assumes inv: "buddy_inv k T B st A" and w: "allocation_level (fst st) sz align = Some w"
    and a: "(unat a, unat w) \<in> A"
  shows "\<exists>st'. deallocate a sz align st = Some st' \<and> buddy_inv k T B st' (A - {(unat a, unat w)})"
proof -
  obtain fs where b: "binv k T st fs A" and B: "unat (base_addr (fst st)) = B"
    using inv by (auto simp: buddy_inv_def)
  have "A = insert (unat a, unat w) (A - {(unat a, unat w)})" using a by auto
  with b have "binv k T st fs (insert (unat a, unat w) (A - {(unat a, unat w)}))" by simp
  from deallocate_loop_correct [OF this] obtain st' fs' where
    d: "deallocate_loop [unat w..<Suc T] a st = Some st'" "binv k T st' fs' (A - {(unat a, unat w)})"
    by auto
  have "unat (base_addr (fst st')) = B" using deallocate_loop_base [OF d(1)] B by simp
  then show ?thesis
    using w d binv_facts(4) [OF b] by (auto simp: deallocate_def buddy_inv_def simp del: upt_Suc)
qed

text \<open>The clients may write to the blocks they hold.\<close>

lemma buddy_inv_write:
  assumes "buddy_inv k T B (s, mem) A" "\<And>x. unat x \<notin> (\<Union>b\<in>A. rng k b) \<Longrightarrow> mem' x = mem x"
  shows "buddy_inv k T B (s, mem') A"
proof -
  obtain fs where b: "binv k T (s, mem) fs A" and B: "unat (base_addr s) = B"
    using assms(1) by (auto simp: buddy_inv_def)
  note f = binv_facts [OF b]
  have keep: "mem' x = mem x" if "x \<in> set (fs ! l)" "l < T" for x l
  proof (rule assms(2))
    have m: "(unat x, l) \<in> blocks fs" using that f(3) by (auto simp: blocks_def)
    have t: "tiling k T (unat (base_addr s)) (blocks fs \<union> A)" "blocks fs \<inter> A = {}"
      using b by (auto simp: binv_def)
    show "unat x \<notin> (\<Union>b\<in>A. rng k b)"
    proof
      assume "unat x \<in> (\<Union>b\<in>A. rng k b)"
      then obtain c where "c \<in> A" "unat x \<in> rng k c" by blast
      then show False
        using tiling_disjoint [OF t(1), of "(unat x, l)" c] m t(2) rng_nonempty [of "(unat x, l)" k] by auto
    qed
  qed
  have "free_rep T (s, mem') fs"
    using f(2) flist_cong [of "fs ! l" mem' mem for l] keep by (auto simp: free_rep_def)
  then show ?thesis using b B by (auto simp: buddy_inv_def binv_def)
qed

subsection \<open>The first state\<close>

lemma new_pool:
  fixes base sz :: "'a::len word"
  assumes N: "N = Suc T" and sz: "sz = 2 ^ (k + T)" and base: "2 ^ (k + T) dvd unat base" "0 < base"
    "unat base + 2 ^ (k + T) < 2 ^ LENGTH('a)" and k: "2 \<le> k" "13 \<le> k + T" "k + T < 255"
  shows "pool k T (from_base_unchecked N base sz)"
proof -
  have "(2::nat) ^ (k + T) < 2 ^ LENGTH('a)" using base(3) by linarith
  then have w: "k + T < LENGTH('a)" by (rule power_less_imp_less_exp [rotated]) simp
  have sh: "wrapping_shr sz (N - 1) = 2 ^ k"
  proof (rule unat_eqI)
    have "T mod LENGTH('a) = T" using w by simp
    then show "unat (wrapping_shr sz (N - 1)) = unat (2 ^ k :: 'a word)"
      using w by (simp add: wrapping_shr_def N sz unat_drop_bit unat_two_pow) (simp add: power_add)
  qed
  have l2: "log2 (2 ^ k :: 'a word) = word_of_nat (Suc k)" using w by (intro log2_pow_word) simp
  show ?thesis
    using base k w sh [unfolded N sz] l2
    by (simp add: pool_def from_base_unchecked_def Let_def N sz del: replicate_Suc)
qed

lemma new_binv:
  fixes base sz :: "'a::len word"
  assumes "N = Suc T" "sz = 2 ^ (k + T)" "2 ^ (k + T) dvd unat base" "0 < base"
    "unat base + 2 ^ (k + T) < 2 ^ LENGTH('a)" "2 \<le> k" "13 \<le> k + T" "k + T < 255"
  shows "binv k T (from_base_unchecked N base sz, mem) ((replicate (Suc T) [])[T := [base]]) {}"
    "blocks ((replicate (Suc T) [])[T := [base]]) = {(unat base, T)}"
proof -
  define s where "s = from_base_unchecked N base sz"
  define fs where "fs = (replicate (Suc T) [])[T := [base]]"
  note p = new_pool [OF assms, folded s_def]
  have s: "base_addr s = base" "free_lists s = (replicate (Suc T) 0)[T := base]"
    by (simp_all add: s_def from_base_unchecked_def Let_def assms(1))
  show bl: "blocks fs = {(unat base, T)}"
    by (auto simp: blocks_def fs_def nth_list_update simp del: replicate_Suc split: if_splits)
  have "free_rep T (s, mem) fs"
    by (auto simp: free_rep_def s fs_def nth_list_update simp del: replicate_Suc)
  moreover have "\<forall>l\<le>T. distinct (fs ! l)" "coalesced k T fs"
    by (auto simp: fs_def coalesced_def nth_list_update simp del: replicate_Suc)
  moreover have "tiling k T (unat base) (blocks fs)"
    unfolding bl by (auto simp: tiling_def valid_block_def rng_def assms(3))
  ultimately show "binv k T (s, mem) fs {}" using p by (simp add: binv_def s)
qed

subsection \<open>The allocator meets the contract\<close>

text \<open>The level of a request in a pool with blocks of \<open>2 ^ k\<close> bytes.\<close>

definition request_level :: "nat \<Rightarrow> nat \<Rightarrow> 'a::len word \<times> 'a word \<Rightarrow> nat" where
  "request_level k T q = unat (the (allocation_level
    \<lparr>base_addr = 0, max_blk_size = 2 ^ (k + T), min_blk_size = 2 ^ k,
     log2_min_blk_size = word_of_nat (Suc k), free_lists = []\<rparr> (fst q) (snd q)))"

definition valid_request :: "nat \<Rightarrow> nat \<Rightarrow> 'a::len word \<times> 'a word \<Rightarrow> bool" where
  "valid_request k T q \<longleftrightarrow> fst q < 2 ^ (k + T) \<and> is_power_of_two (snd q) \<and> snd q < 8192"

definition alloc_request ::
  "'a::len word \<times> 'a word \<Rightarrow> 'a word buddy_allocator \<times> 'a headers \<Rightarrow> (('a word buddy_allocator \<times> 'a headers) \<times> nat) option" where
  "alloc_request q st = map_option (\<lambda>(st', a). (st', unat a)) (allocate (fst q) (snd q) st)"

definition free_request ::
  "nat \<Rightarrow> 'a::len word \<times> 'a word \<Rightarrow> 'a word buddy_allocator \<times> 'a headers \<Rightarrow> ('a word buddy_allocator \<times> 'a headers) option" where
  "free_request a q st = deallocate (word_of_nat a) (fst q) (snd q) st"

lemma pool_of_inv: "buddy_inv k T B st A \<Longrightarrow> pool k T (fst st)"
  by (auto simp: buddy_inv_def dest: binv_facts)

lemma allocation_level_pool:
  "pool k T s \<Longrightarrow> pool k T s' \<Longrightarrow> allocation_level s sz align = allocation_level s' sz align"
  by (simp add: allocation_level_def pool_def)

lemma request_level_eq:
  "buddy_inv k T B st A \<Longrightarrow> allocation_level (fst st) sz align = Some w \<Longrightarrow>
    request_level k T (sz, align) = unat w"
  using pool_of_inv [of k T B st A]
  by (auto simp: request_level_def allocation_level_def pool_def Let_def split: if_splits)

lemma held_in_pool:
  fixes st :: "'a::len word buddy_allocator \<times> 'a headers"
  shows "buddy_inv k T B st A \<Longrightarrow> (a, l) \<in> A \<Longrightarrow> valid_block k T B (a, l) \<and> a < 2 ^ LENGTH('a)"
proof -
  assume i: "buddy_inv k T B st A" and a: "(a, l) \<in> A"
  then obtain fs where "binv k T st fs A" "unat (base_addr (fst st)) = B" by (auto simp: buddy_inv_def)
  then have "tiling k T B (blocks fs \<union> A)" by (auto simp: binv_def)
  then have v: "valid_block k T B (a, l)" using a by (auto intro: tiling_valid)
  moreover have "B + 2 ^ (k + T) < 2 ^ LENGTH('a)" using pool_of_inv [OF i] i by (auto simp: pool_def buddy_inv_def)
  ultimately show ?thesis by (auto simp: valid_block_def)
qed

interpretation bd: block_allocator "buddy_inv k T B :: 'a::len word buddy_allocator \<times> 'a headers \<Rightarrow> _" k T B "valid_request k T" "request_level k T"
  alloc_request free_request
  for k T B
proof
  fix st :: "'a word buddy_allocator \<times> 'a headers" and A and q :: "'a word \<times> 'a word"
  assume i: "buddy_inv k T B st A" and q: "valid_request k T q"
  obtain sz align where qq: "q = (sz, align)" by fastforce
  from allocate_outcome [OF i, of sz align] q [unfolded qq valid_request_def] obtain w st' a A' where
    o: "allocation_level (fst st) sz align = Some w" "allocate sz align st = Some (st', a)"
      "alloc_spec k T B (unat w) A (unat a) A'" "buddy_inv k T B st' A'"
    by auto
  then show "\<exists>s' a A'. alloc_request q st = Some (s', a) \<and>
      alloc_spec k T B (request_level k T q) A a A' \<and> buddy_inv k T B s' A'"
    using request_level_eq [OF i o(1)] by (auto simp: alloc_request_def qq)
  show "\<exists>s' A'. free_request a q st = Some s' \<and> free_spec (request_level k T q) a A A' \<and> buddy_inv k T B s' A'"
    if a: "(a, request_level k T q) \<in> A" for a
  proof -
    have l: "request_level k T q = unat w" using request_level_eq [OF i o(1)] by (simp add: qq)
    have "unat (word_of_nat a :: 'a word) = a" using held_in_pool [OF i a] by (simp add: unat_of_nat)
    then show ?thesis
      using deallocate_outcome [OF i o(1), of "word_of_nat a"] a l by (auto simp: free_request_def free_spec_iff qq)
  qed
qed

lemma binv_free_tiling: "binv k T st fs A \<Longrightarrow> free_tiling k T (unat (base_addr (fst st))) (blocks fs) A"
  unfolding binv_def free_tiling_def coalesced_def by (fastforce simp: blocks_def image_iff)

text \<open>The heap the bootloader starts with.\<close>

definition BUDDY_ALLOCATOR :: "u32 buddy_allocator" where
  "BUDDY_ALLOCATOR = from_base_unchecked 14 0x5000000 0x1000000"

definition default_fs :: "u32 list list" where
  "default_fs = (replicate 14 [])[13 := [0x5000000]]"

lemma default_new: "buddy_new 14 0x5000000 0x1000000 = Some BUDDY_ALLOCATOR"
  by (simp add: BUDDY_ALLOCATOR_def buddy_new_def wrapping_shr_def FREE_BLOCK_SIZE_def MIN_HEAP_ALIGN_def)

lemma default_binv: "binv 11 13 (BUDDY_ALLOCATOR, mem) default_fs {}"
  using new_binv(1) [of 14 13 "0x1000000" 11 "0x5000000" mem]
  by (simp add: BUDDY_ALLOCATOR_def default_fs_def del: replicate_Suc)

lemma default_blocks: "blocks default_fs = {(0x5000000, 13)}"
  using new_binv(2) [of 14 13 "0x1000000" 11 "0x5000000 :: u32"] by (simp add: default_fs_def del: replicate_Suc)

lemma default_inv: "buddy_inv 11 13 0x5000000 (BUDDY_ALLOCATOR, mem) {}"
  using default_binv by (auto simp: buddy_inv_def BUDDY_ALLOCATOR_def from_base_unchecked_def Let_def)

lemma default_served: "map_option snd (allocate 24 8 (BUDDY_ALLOCATOR, \<lambda>_. 0)) = Some 0x5000000"
  by code_simp

lemma default_level: "request_level 11 13 (24 :: u32, 8) = 0"
  by code_simp

subsection \<open>Properties\<close>

text \<open>C1. The allocator implements its specification: a request below the size of the
  pool with an alignment that is a power of two below 8192 is always answered, either
  with an aligned block of the smallest sufficient size that meets no block in use, or
  with null, and then no block of that size is free; the invariant holds again.\<close>

theorem buddy_allocate_refines:
  assumes "buddy_inv k T B st A" "sz < 2 ^ (k + T)" "is_power_of_two align" "align < 8192"
  shows "\<exists>r st' a A'. allocate sz align st = Some (st', a) \<and> r \<le> T \<and> serves k sz align r \<and>
    alloc_spec k T B r A (unat a) A' \<and> buddy_inv k T B st' A' \<and> unat align dvd unat a"
proof -
  obtain w :: u8 and st' a A' where o: "unat w \<le> T" "serves k sz align (unat w)" "allocate sz align st = Some (st', a)"
    "alloc_spec k T B (unat w) A (unat a) A'" "buddy_inv k T B st' A'"
    using allocate_outcome [OF assms] by blast
  have "unat align dvd 2 ^ (k + unat w)"
    using o(2) align_dvd [OF assms(3)] by (simp add: serves_def)
  then have "unat align dvd unat a"
    using o(4) by (auto simp: valid_block_def elim!: alloc_specE intro: dvd_trans)
  then show ?thesis using o by blast
qed

theorem buddy_allocate_refines_witness:
  "\<exists>r st' a A'. allocate 24 8 (BUDDY_ALLOCATOR, \<lambda>_. 0) = Some (st', a) \<and> r \<le> 13 \<and>
    serves 11 (24 :: u32) 8 r \<and> alloc_spec 11 13 0x5000000 r {} (unat a) A' \<and> buddy_inv 11 13 0x5000000 st' A' \<and>
    unat (8 :: u32) dvd unat a"
  by (rule buddy_allocate_refines [OF default_inv]) (simp_all add: is_power_of_two_def)

text \<open>C8. Releasing a block that was allocated with the same layout never fails and
  restores the free blocks: whatever the owner wrote into the block, after allocating,
  writing and releasing the free lists hold the same blocks as before.\<close>

theorem buddy_roundtrip:
  assumes "binv k T st fs A" "allocate sz align st = Some ((s1, mem1), a)" "a \<noteq> 0"
    and "\<forall>x. unat x \<notin> (\<Union>b\<in>insert (unat a, request_level k T (sz, align)) A. rng k b) \<longrightarrow> mem2 x = mem1 x"
  shows "\<exists>st3 fs3. deallocate a sz align (s1, mem2) = Some st3 \<and> binv k T st3 fs3 A \<and> blocks fs3 = blocks fs"
proof -
  define B where "B = unat (base_addr (fst st))"
  have i: "buddy_inv k T B st A" using assms(1) by (auto simp: buddy_inv_def B_def)
  define r where "r = request_level k T (sz, align)"
  have q: "sz < 2 ^ (k + T)" "is_power_of_two align" "align < 8192"
    using assms(2) pool_of_inv [OF i]
    by (auto simp: allocate_def allocation_level_def bind_eq_Some_conv pool_def MIN_HEAP_ALIGN_def split: if_splits)
  obtain w A' where w: "allocation_level (fst st) sz align = Some w" "alloc_spec k T B (unat w) A (unat a) A'"
    "buddy_inv k T B (s1, mem1) A'"
    using allocate_outcome [OF i q] assms(2) by auto
  have r: "unat w = r" using request_level_eq [OF i w(1)] by (simp add: r_def)
  have A': "A' = insert (unat a, r) A" "(unat a, r) \<notin> A"
    using w(2) assms(3) r rng_nonempty [of "(unat a, r)" k]
    by (auto elim!: alloc_specE simp: unat_eq_zero)
  have i2: "buddy_inv k T B (s1, mem2) A'"
    using w(3) assms(4) by (rule_tac buddy_inv_write) (auto simp: A' r_def)
  have "allocation_level s1 sz align = Some w"
    using w(1) pool_of_inv [OF i] pool_of_inv [OF i2] by (simp add: allocation_level_pool [of k T s1 "fst st"])
  then obtain st3 where d: "deallocate a sz align (s1, mem2) = Some st3" "buddy_inv k T B st3 A"
    using deallocate_outcome [OF i2, of sz align w a] A' r by auto
  then obtain fs3 where f: "binv k T st3 fs3 A" "unat (base_addr (fst st3)) = B" by (auto simp: buddy_inv_def)
  have "blocks fs3 = blocks fs"
    using free_tiling_unique [of k T B "blocks fs3" A "blocks fs"] binv_free_tiling [OF f(1)]
      binv_free_tiling [OF assms(1)] binv_facts(6) [OF assms(1)] f(2) by (simp add: B_def)
  then show ?thesis using d(1) f(1) by blast
qed

theorem buddy_roundtrip_witness:
  "\<exists>s1 mem1 st3 fs3. allocate 24 8 (BUDDY_ALLOCATOR, \<lambda>_. 0) = Some ((s1, mem1), 0x5000000) \<and>
    deallocate 0x5000000 24 8 (s1, mem1(0x5000000 := 7)) = Some st3 \<and> binv 11 13 st3 fs3 {} \<and>
    blocks fs3 = {(0x5000000, 13)}"
proof -
  obtain s1 mem1 where a: "allocate 24 8 (BUDDY_ALLOCATOR, \<lambda>_. 0) = Some ((s1, mem1), 0x5000000)"
    using default_served by auto
  have "\<forall>x. unat x \<notin> (\<Union>b\<in>insert (unat (0x5000000 :: u32), request_level 11 13 (24 :: u32, 8)) {}. rng 11 b) \<longrightarrow>
    (mem1(0x5000000 := 7)) x = mem1 x" by (auto simp: rng_def default_level)
  from buddy_roundtrip [where ?mem2.0 = "mem1(0x5000000 := 7)", OF default_binv a _ this] have "\<exists>st3 fs3.
    deallocate 0x5000000 24 8 (s1, mem1(0x5000000 := 7)) = Some st3 \<and> binv 11 13 st3 fs3 {} \<and>
    blocks fs3 = {(0x5000000, 13)}" unfolding default_blocks by simp
  with a show ?thesis by blast
qed

text \<open>C7. Whatever sequence of valid requests the clients make on the initial heap, as long as
  they only release blocks they hold: no call panics or runs forever, the blocks in use
  lie in the heap and are pairwise disjoint, and the next valid request is answered as the
  specification demands. A request is valid when its size is below 16 MiB and its alignment
  a power of two below 8192; the allocator panics on every other request.\<close>

theorem buddy_clients_safe:
  assumes "bd.runs 11 13 (BUDDY_ALLOCATOR, mem) st A" "valid_request 11 13 (sz, align)"
  shows "apart 11 A \<and> (\<forall>b\<in>A. valid_block 11 13 0x5000000 b) \<and>
    (\<exists>st' a A'. allocate sz align st = Some (st', a) \<and>
      alloc_spec 11 13 0x5000000 (request_level 11 13 (sz, align)) A (unat a) A') \<and>
    (\<forall>a. (unat a, request_level 11 13 (sz, align)) \<in> A \<longrightarrow> (\<exists>st'. deallocate a sz align st = Some st'))"
proof -
  note i = default_inv [of mem] and r = assms(1) and q = assms(2)
  have inv: "buddy_inv 11 13 0x5000000 st A" "apart 11 A" using bd.runs_inv [OF r i] by auto
  have "\<exists>st' a A'. allocate sz align st = Some (st', a) \<and>
      alloc_spec 11 13 0x5000000 (request_level 11 13 (sz, align)) A (unat a) A'"
    using bd.runs_get [OF r i q] by (auto simp: alloc_request_def)
  moreover have "\<exists>st'. deallocate a sz align st = Some st'" if "(unat a, request_level 11 13 (sz, align)) \<in> A" for a
    using bd.runs_put [OF r i q that] by (simp add: free_request_def)
  ultimately show ?thesis using inv held_in_pool [OF inv(1)] by fastforce
qed

theorem buddy_clients_safe_witness:
  "\<exists>st. bd.runs 11 13 (BUDDY_ALLOCATOR, \<lambda>_. 0) st {(0x5000000, 0)} \<and>
    (\<exists>st' a A'. allocate 100 16 st = Some (st', a) \<and> alloc_spec 11 13 0x5000000 0 {(0x5000000, 0)} (unat a) A')"
proof -
  obtain st where a: "allocate 24 8 (BUDDY_ALLOCATOR, \<lambda>_. 0) = Some (st, 0x5000000)"
    using default_served by auto
  have v: "valid_request 11 13 (24 :: u32, 8)" "valid_request 11 13 (100 :: u32, 16)"
    by (simp_all add: valid_request_def is_power_of_two_def)
  have g: "alloc_request (24, 8) (BUDDY_ALLOCATOR, \<lambda>_. 0) = Some (st, 0x5000000)"
    using a by (simp add: alloc_request_def)
  have r: "bd.runs 11 13 (BUDDY_ALLOCATOR, \<lambda>_. 0) st {(0x5000000, 0)}"
    using bd.runs.get [OF bd.runs.start v(1) g] default_level by simp
  have l: "request_level 11 13 (100 :: u32, 16) = 0" by code_simp
  show ?thesis using buddy_clients_safe [OF r v(2), unfolded l] r by blast
qed

text \<open>C24. The allocator panics exactly on the requests its documentation excludes: sizes
  of at least the whole pool, alignments that are not a power of two, and alignments of
  8192 or more. Exhaustion is no panic.\<close>

theorem buddy_allocate_panics:
  assumes "buddy_inv k T B st A"
  shows "allocate sz align st = None \<longleftrightarrow>
    2 ^ (k + T) \<le> sz \<or> \<not> is_power_of_two align \<or> 8192 \<le> align"
proof (cases "sz < 2 ^ (k + T) \<and> is_power_of_two align \<and> align < 8192")
  case True
  then show ?thesis using allocate_outcome [OF assms, of sz align] by (auto simp: not_le)
next
  case False
  then have "allocation_level (fst st) sz align = None"
    using pool_of_inv [OF assms] by (auto simp: allocation_level_def pool_def MIN_HEAP_ALIGN_def)
  then show ?thesis using False by (auto simp: allocate_def not_less)
qed

theorem buddy_allocate_panics_witness:
  "allocate 0x1000000 8 (BUDDY_ALLOCATOR, \<lambda>_. 0) = None \<and> allocate 16 24 (BUDDY_ALLOCATOR, \<lambda>_. 0) = None \<and>
    allocate 16 8192 (BUDDY_ALLOCATOR, \<lambda>_. 0) = None \<and> allocate 16 4096 (BUDDY_ALLOCATOR, \<lambda>_. 0) \<noteq> None"
  unfolding buddy_allocate_panics [OF default_inv] by (simp add: is_power_of_two_def)

end
