(* ===== verification/Boot_Heap.thy ===== *)
theory Boot_Heap
  imports Buddy Bytes
begin

text \<open>
  The memory map the firmware reports and the heap the bootloader makes of it:
  \<open>src/mem/e820.rs\<close> and \<open>heap_init\<close> of \<open>src/fzboot/main/src/main.rs\<close>. For the
  iterator what memory holds is an argument: the word in front of the map and the
  descriptor at an address. For the loop that fills the map memory is a function from
  addresses to bytes, and the firmware called by the inline assembly is an argument.
\<close>

subsection \<open>The memory map\<close>

datatype e820_mem_type = RAM | RESERVED | ACPI | NVS | UNUSABLE | DISABLED | PERSISTENT | OEM

record address_range_descriptor =
  base_addr_low :: u32
  base_addr_high :: u32
  length_low :: u32
  length_high :: u32
  addr_type :: e820_mem_type
  extended_attributes :: u8

definition ard_default :: address_range_descriptor where
  "ard_default = \<lparr>base_addr_low = 0, base_addr_high = 0, length_low = 0, length_high = 0,
     addr_type = RAM, extended_attributes = 0\<rparr>"

definition ard_length :: "address_range_descriptor \<Rightarrow> u64" where
  "ard_length d = push_bit 32 (ucast (length_high d)) OR ucast (length_low d)"

text \<open>A pointer has 32 bits in the bootloader and 64 in the kernel.\<close>

definition ard_base_addr :: "address_range_descriptor \<Rightarrow> 'usize::len word" where
  "ard_base_addr d = ucast (push_bit 32 (ucast (base_addr_high d)) OR ucast (base_addr_low d) :: u64)"

definition E820_MAP_ADDR :: u32 where
  "E820_MAP_ADDR = 0x4804"

record e820_memory_map =
  map_base_addr :: u32
  cursor :: u32

definition e820_new :: "u32 \<Rightarrow> e820_memory_map" where
  "e820_new base = \<lparr>map_base_addr = base, cursor = 0\<rparr>"

text \<open>A step of the iterator. The outer \<open>None\<close> is the failed assertion.\<close>

definition e820_next ::
  "(u32 \<Rightarrow> u32) \<Rightarrow> (u32 \<Rightarrow> address_range_descriptor) \<Rightarrow> e820_memory_map \<Rightarrow>
    (e820_memory_map \<times> address_range_descriptor option) option" where
  "e820_next read_u32 read_ard m =
    (let map_len = read_u32 (map_base_addr m - 4)
     in if map_len = 0 then None
        else if map_len \<le> cursor m then Some (m\<lparr>cursor := 0\<rparr>, None)
        else Some (m\<lparr>cursor := cursor m + 1\<rparr>, Some (read_ard (map_base_addr m + 24 * cursor m))))"

text \<open>What a \<open>for\<close> loop over the map sees.\<close>

function e820_collect ::
  "(u32 \<Rightarrow> u32) \<Rightarrow> (u32 \<Rightarrow> address_range_descriptor) \<Rightarrow> e820_memory_map \<Rightarrow>
    address_range_descriptor list option" where
  "e820_collect read_u32 read_ard m =
    (case e820_next read_u32 read_ard m of
       None \<Rightarrow> None
     | Some (m', None) \<Rightarrow> Some []
     | Some (m', Some d) \<Rightarrow> map_option (\<lambda>ds. d # ds) (e820_collect read_u32 read_ard m'))"
  by auto
termination
proof (relation "measure (\<lambda>(ru, ra, m). unat (ru (map_base_addr m - 4)) - unat (cursor m))")
  fix ru ra m x and m' :: e820_memory_map and y d
  assume "e820_next ru ra m = Some x" "(m', y) = x" "y = Some d"
  then have m: "m' = m\<lparr>cursor := cursor m + 1\<rparr>" "cursor m < ru (map_base_addr m - 4)"
    by (auto simp: e820_next_def Let_def not_le split: if_splits)
  then have "unat (cursor m + 1) = Suc (unat (cursor m))"
    using unat_less [of "ru (map_base_addr m - 4)"] by (auto simp: word_less_nat_alt unat_word_ariths)
  with m show "((ru, ra, m'), ru, ra, m) \<in> measure (\<lambda>(ru, ra, m). unat (ru (map_base_addr m - 4)) - unat (cursor m))"
    by (simp add: word_less_nat_alt)
qed simp

declare e820_collect.simps [simp del]

definition e820_entries_bootloader ::
  "(u32 \<Rightarrow> u32) \<Rightarrow> (u32 \<Rightarrow> address_range_descriptor) \<Rightarrow> address_range_descriptor list option" where
  "e820_entries_bootloader read_u32 read_ard = e820_collect read_u32 read_ard (e820_new E820_MAP_ADDR)"

subsection \<open>Filling the map\<close>

type_synonym byte_mem = "u32 \<Rightarrow> u8"

primrec write_bytes :: "u32 \<Rightarrow> u8 list \<Rightarrow> byte_mem \<Rightarrow> byte_mem" where
  "write_bytes a [] mem = mem"
| "write_bytes a (b # bs) mem = write_bytes (a + 1) bs (mem(a := b))"

definition read_bytes :: "byte_mem \<Rightarrow> u32 \<Rightarrow> nat \<Rightarrow> u8 list" where
  "read_bytes mem a n = map (\<lambda>i. mem (a + word_of_nat i)) [0..<n]"

definition read_u32 :: "byte_mem \<Rightarrow> u32 \<Rightarrow> u32" where
  "read_u32 mem a = of_le (read_bytes mem a 4)"

text \<open>A call to the firmware with a continuation value: it answers the carry flag and the next
  continuation value, and gives the bytes it writes to the buffer.\<close>

type_synonym e820_bios = "u32 \<Rightarrow> bool \<times> u32 \<times> u8 list"

text \<open>The buffer is at \<open>es:di\<close> with \<open>es = 0\<close> and the low half of its address in \<open>di\<close>. The
  instruction \<open>xor edx, edx\<close> stands between the call and \<open>jnc\<close>: it clears the carry flag the
  firmware left. An \<open>Err\<close> is \<open>None\<close>.\<close>

definition mem_entry_e820 :: "e820_bios \<Rightarrow> u32 \<Rightarrow> u32 \<Rightarrow> byte_mem \<Rightarrow> u32 option \<times> byte_mem" where
  "mem_entry_e820 bios ebx buffer mem =
    (let di = ucast buffer :: u16;
         (carry, ebx, bytes) = bios ebx;
         mem = write_bytes (ucast di) bytes mem;
         (carry, edx) = (False, 0 :: u32);
         cf = (if \<not> carry then edx else 1)
     in if cf = 1 \<or> ebx = 0 then (None, mem) else (Some ebx, mem))"

text \<open>The loop of \<open>memory_map\<close>; the printing of each entry is left out.\<close>

partial_function (option) memory_map_loop :: "e820_bios \<Rightarrow> u32 \<Rightarrow> u32 \<Rightarrow> byte_mem \<Rightarrow> (u32 \<times> byte_mem) option" where
  "memory_map_loop bios ebx entry_count mem =
    (case mem_entry_e820 bios ebx (E820_MAP_ADDR + entry_count * 24) mem of
       (None, mem) \<Rightarrow> Some (entry_count, mem)
     | (Some ebx, mem) \<Rightarrow> memory_map_loop bios ebx (entry_count + 1) mem)"

definition memory_map :: "e820_bios \<Rightarrow> byte_mem \<Rightarrow> byte_mem option" where
  "memory_map bios mem = do {
     (entry_count, mem) \<leftarrow> memory_map_loop bios 0 0 mem;
     Some (write_bytes (E820_MAP_ADDR - 2) (to_le 4 entry_count) mem)
   }"

subsection \<open>The heap of the bootloader\<close>

definition MIN_HEAP_SIZE :: u32 where
  "MIN_HEAP_SIZE = 0x1000"

definition MAX_HEAP_SIZE :: u32 where
  "MAX_HEAP_SIZE = 0x1000000"

definition STACK_SIZE :: u32 where
  "STACK_SIZE = 0x8000"

record memory_structure =
  heap_addr :: u32
  heap_size :: u32

fun best_entry :: "address_range_descriptor \<Rightarrow> address_range_descriptor list \<Rightarrow> address_range_descriptor" where
  "best_entry best [] = best"
| "best_entry best (e # es) =
    best_entry (if addr_type e = RAM \<and> ard_length best < ard_length e then e else best) es"

text \<open>The answer is what is recorded as \<open>MEM_STRUCTURE\<close>, the allocator after \<open>resize\<close>
  and the new stack pointer. The length is at most the maximum when it is narrowed to
  32 bits.\<close>

definition heap_init ::
  "address_range_descriptor list \<Rightarrow> u32 buddy_allocator \<Rightarrow> (memory_structure \<times> u32 buddy_allocator \<times> u32) option" where
  "heap_init entries s =
    (let best = best_entry ard_default entries
     in if \<not> ucast MIN_HEAP_SIZE \<le> ard_length best then None
        else
          let best = (if ucast MAX_HEAP_SIZE < ard_length best
                      then best\<lparr>length_high := 0, length_low := MAX_HEAP_SIZE\<rparr> else best);
              stack_size_min = ucast (drop_bit 3 (ard_length best)) :: u32;
              stack_size = (if stack_size_min < STACK_SIZE then stack_size_min else STACK_SIZE);
              addr = ard_base_addr best;
              stack_addr = addr + ucast (ard_length best);
              sz = ucast (ard_length best) - stack_size
          in if (ard_base_addr best :: u32) = 0 then None
             else do {
               s \<leftarrow> resize (ard_base_addr best) sz s;
               Some (\<lparr>heap_addr = addr, heap_size = sz\<rparr>, s, stack_addr)
             })"

subsection \<open>Walking the map\<close>

lemma e820_collect_from:
  assumes "ru (map_base_addr m - 4) = n" "n \<noteq> 0" "cursor m \<le> n"
  shows "e820_collect ru ra m =
    Some (map (\<lambda>i. ra (map_base_addr m + 24 * word_of_nat i)) [unat (cursor m)..<unat n])"
  using assms
proof (induction "unat n - unat (cursor m)" arbitrary: m)
  case 0
  then have "cursor m = n" by (auto simp: word_le_nat_alt intro: unat_eqI)
  then show ?case using 0 by (subst e820_collect.simps) (simp add: e820_next_def)
next
  case (Suc k)
  define m' where "m' = m\<lparr>cursor := cursor m + 1\<rparr>"
  have lt: "cursor m < n" using Suc.hyps(2) by (simp add: word_less_nat_alt)
  have u: "unat (cursor m + 1) = Suc (unat (cursor m))"
    using lt unat_less [of n] by (auto simp: word_less_nat_alt unat_word_ariths)
  have "e820_collect ru ra m' =
    Some (map (\<lambda>i. ra (map_base_addr m' + 24 * word_of_nat i)) [unat (cursor m')..<unat n])"
    using Suc.hyps(2) Suc.prems lt u
    by (intro Suc.hyps(1)) (auto simp: m'_def word_le_nat_alt word_less_nat_alt)
  moreover have "e820_next ru ra m = Some (m', Some (ra (map_base_addr m + 24 * cursor m)))"
    using lt Suc.prems by (simp add: e820_next_def m'_def)
  moreover have "[unat (cursor m)..<unat n] = unat (cursor m) # [Suc (unat (cursor m))..<unat n]"
    using lt by (simp add: upt_conv_Cons word_less_nat_alt)
  ultimately show ?case
    using u by (subst e820_collect.simps) (simp add: m'_def)
qed

lemma best_entry_all:
  "(best_entry b es = b \<or> best_entry b es \<in> set es \<and> addr_type (best_entry b es) = RAM) \<and>
    ard_length b \<le> ard_length (best_entry b es) \<and>
    (\<forall>e\<in>set es. addr_type e = RAM \<longrightarrow> ard_length e \<le> ard_length (best_entry b es))"
proof (induction es arbitrary: b)
  case (Cons x es)
  define c where "c = (if addr_type x = RAM \<and> ard_length b < ard_length x then x else b)"
  have "ard_length b \<le> ard_length c" "addr_type x = RAM \<Longrightarrow> ard_length x \<le> ard_length c"
    "c = b \<or> c = x \<and> addr_type x = RAM" by (auto simp: c_def)
  moreover have e: "best_entry b (x # es) = best_entry c es" by (simp add: c_def)
  ultimately show ?case using Cons.IH [of c] unfolding e by (auto intro: order_trans)
qed simp

lemma ard_length_unat: "unat (ard_length d) = unat (length_high d) * 2 ^ 32 + unat (length_low d)"
proof -
  have "ard_length d = push_bit 32 (ucast (length_high d)) + ucast (length_low d)"
    unfolding ard_length_def
    by (intro disjunctive_add [symmetric])
      (auto simp: bit_push_bit_iff bit_ucast_iff dest: bit_imp_le_length)
  moreover have "unat (push_bit 32 (ucast (length_high d)) :: u64) = unat (length_high d) * 2 ^ 32"
    using unat_less [of "length_high d"] by (simp add: push_bit_eq_mult unat_word_ariths unat_ucast_mod)
  moreover have "unat (length_high d) * 2 ^ 32 + unat (length_low d) < 2 ^ 64"
    using unat_less [of "length_high d"] unat_less [of "length_low d"] by simp
  moreover have "unat (ucast (length_low d) :: u64) = unat (length_low d)"
    using unat_less [of "length_low d"] by (simp add: unat_ucast_mod)
  ultimately show ?thesis by (simp add: unat_word_ariths)
qed

lemma resize_size:
  fixes s :: "u32 buddy_allocator"
  assumes "resize base sz s = Some s'" "length (free_lists s) = 14"
  shows "base_addr s' = base" "unat (max_blk_size s') = unat sz div 8192 * 8192" "32768 \<le> unat sz"
proof -
  have m: "unat (sz AND NOT (mask 13)) = unat sz div 8192 * 8192"
    using unat_and_not_mask [of sz 13] by simp
  have w: "wrapping_shr sz 13 = drop_bit 13 sz" by (simp add: wrapping_shr_def)
  have "MIN_HEAP_ALIGN - 1 = (mask 13 :: u32)" by (simp add: MIN_HEAP_ALIGN_def mask_eq_exp_minus_1)
  then have r: "base_addr s' = base" "max_blk_size s' = sz AND NOT (mask 13)" "\<not> drop_bit 13 sz < 4"
    using assms unfolding resize_def Let_def by (auto simp: w FREE_BLOCK_SIZE_def split: if_splits)
  show "base_addr s' = base" "unat (max_blk_size s') = unat sz div 8192 * 8192" using r m by simp_all
  show "32768 \<le> unat sz" using r(3) by (simp add: word_less_nat_alt unat_drop_bit)
qed

subsection \<open>The bytes of the map\<close>

lemma write_bytes_append:
  "write_bytes a (xs @ ys) mem = write_bytes (a + word_of_nat (length xs)) ys (write_bytes a xs mem)"
  by (induction xs arbitrary: a mem) (simp_all add: ac_simps)

lemma write_bytes_apply:
  "unat a + length bs < 2 ^ 32 \<Longrightarrow> write_bytes a bs mem x =
    (if unat a \<le> unat x \<and> unat x < unat a + length bs then bs ! (unat x - unat a) else mem x)"
proof (induction bs arbitrary: a mem)
  case (Cons b bs)
  have u: "unat (a + 1) = Suc (unat a)" using Cons.prems by (simp add: unat_word_ariths)
  show ?case
  proof (cases "x = a")
    case True
    then show ?thesis using Cons u by simp
  next
    case False
    then have "unat x \<noteq> unat a" by (metis unat_eqI)
    then show ?thesis using Cons u False by (auto simp: nth_Cons')
  qed
qed auto

text \<open>The areas the firmware reports from a continuation value on. The values are opaque,
  zero marks the last area, and the carry flag is arbitrary.\<close>

inductive e820_chain :: "e820_bios \<Rightarrow> u32 \<Rightarrow> u8 list list \<Rightarrow> bool" for bios where
  last_area: "bios ebx = (carry, 0, d) \<Longrightarrow> e820_chain bios ebx [d]"
| next_area: "bios ebx = (carry, ebx', d) \<Longrightarrow> ebx' \<noteq> 0 \<Longrightarrow> e820_chain bios ebx' ds \<Longrightarrow>
    e820_chain bios ebx (d # ds)"

lemma map_buffer:
  assumes "0x4804 + 24 * k < 0x10000"
  shows "ucast (ucast (E820_MAP_ADDR + word_of_nat k * 24) :: u16) = (0x4804 + 24 * word_of_nat k :: u32)"
proof -
  have "unat (E820_MAP_ADDR + word_of_nat k * 24) = 0x4804 + 24 * k"
    using assms by (simp add: E820_MAP_ADDR_def unat_word_ariths unat_of_nat)
  moreover have "unat (0x4804 + 24 * word_of_nat k :: u32) = 0x4804 + 24 * k"
    using assms by (simp add: unat_word_ariths unat_of_nat)
  ultimately show ?thesis using assms by (intro unat_eqI) (simp add: unat_ucast_mod)
qed

lemma memory_map_loop_chain:
  assumes "e820_chain bios ebx ds" "\<forall>d\<in>set ds. length d = 24" "0x4804 + 24 * (k + length ds) \<le> 0x10000"
  shows "memory_map_loop bios ebx (word_of_nat k) mem =
    Some (word_of_nat (k + length ds - 1), write_bytes (0x4804 + 24 * word_of_nat k) (concat ds) mem)"
  using assms
proof (induction arbitrary: k mem rule: e820_chain.induct)
  case (last_area ebx carry d)
  then show ?case by (subst memory_map_loop.simps) (simp add: mem_entry_e820_def map_buffer)
next
  case (next_area ebx carry ebx' d ds)
  define mem' where "mem' = write_bytes (0x4804 + 24 * word_of_nat k) d mem"
  have "memory_map_loop bios ebx (word_of_nat k) mem = memory_map_loop bios ebx' (word_of_nat (Suc k)) mem'"
    using next_area.hyps(1,2) next_area.prems
    by (subst memory_map_loop.simps) (simp add: mem_entry_e820_def map_buffer mem'_def add.commute)
  also have "\<dots> = Some (word_of_nat (Suc k + length ds - 1),
      write_bytes (0x4804 + 24 * word_of_nat (Suc k)) (concat ds) mem')"
    using next_area.prems by (intro next_area.IH) auto
  also have "write_bytes (0x4804 + 24 * word_of_nat (Suc k)) (concat ds) mem' =
      write_bytes (0x4804 + 24 * word_of_nat k) (concat (d # ds)) mem"
    using next_area.prems(1) by (simp add: mem'_def write_bytes_append algebra_simps)
  finally show ?case by simp
qed

lemma unat_base_addr: "unat (ard_base_addr d :: u32) = unat (ard_base_addr d :: u64) mod 2 ^ 32"
  by (simp add: ard_base_addr_def unat_ucast_mod)

subsection \<open>Properties\<close>

text \<open>C25. \<open>heap_init\<close> takes the largest area of RAM of the map. Heap and stack
  together have the size of the area, up to 16 MiB, the stack one eighth of it up to 32 KiB, and the
  pool of the allocator is the heap rounded down to 8192 bytes. The heap starts at the low 32 bits of the
  base of the area. When the area ends below 4 GiB, that is its base, and heap and stack lie inside the
  area, the stack above the heap.\<close>

theorem heap_init_bounds:
  assumes "heap_init entries s = Some (ms, s', stack_addr)" "length (free_lists s) = 14"
  shows "\<exists>e\<in>set entries. addr_type e = RAM \<and>
    (\<forall>d\<in>set entries. addr_type d = RAM \<longrightarrow> ard_length d \<le> ard_length e) \<and>
    (let n = min (unat (ard_length e)) 0x1000000; stack = min (n div 8) 0x8000 in
      unat (heap_addr ms) = unat (ard_base_addr e :: u64) mod 2 ^ 32 \<and> heap_addr ms \<noteq> 0 \<and> unat (heap_size ms) + stack = n \<and>
      stack_addr = heap_addr ms + word_of_nat n \<and> base_addr s' = heap_addr ms \<and>
      unat (max_blk_size s') = unat (heap_size ms) div 8192 * 8192 \<and> 32768 \<le> unat (heap_size ms) \<and>
      (unat (ard_base_addr e :: u64) + unat (ard_length e) < 2 ^ 32 \<longrightarrow>
        unat (heap_addr ms) = unat (ard_base_addr e :: u64) \<and>
        unat stack_addr = unat (heap_addr ms) + unat (heap_size ms) + stack \<and>
        unat stack_addr \<le> unat (ard_base_addr e :: u64) + unat (ard_length e)))"
proof -
  define b where "b = best_entry ard_default entries"
  define c where "c = (if ucast MAX_HEAP_SIZE < ard_length b
    then b\<lparr>length_high := 0, length_low := MAX_HEAP_SIZE\<rparr> else b)"
  define n where "n = min (unat (ard_length b)) 0x1000000"
  define k where "k = (let m = ucast (drop_bit 3 (ard_length c)) :: u32 in if m < STACK_SIZE then m else STACK_SIZE)"
  define sz where "sz = ucast (ard_length c) - k"
  have len: "unat (ard_length c) = n"
    by (auto simp: c_def n_def ard_length_unat [of "b\<lparr>length_high := _, length_low := _\<rparr>"] MAX_HEAP_SIZE_def word_less_nat_alt)
  have r: "0x1000 \<le> unat (ard_length b)" "ard_base_addr c \<noteq> (0 :: u32)" "resize (ard_base_addr c) sz s = Some s'"
    "ms = \<lparr>heap_addr = ard_base_addr c, heap_size = sz\<rparr>" "stack_addr = ard_base_addr c + ucast (ard_length c)"
    using assms(1) unfolding heap_init_def Let_def b_def [symmetric] c_def [symmetric]
    by (auto simp: k_def sz_def Let_def MIN_HEAP_SIZE_def word_le_nat_alt bind_eq_Some_conv split: if_splits)
  have a: "ard_base_addr c = (ard_base_addr b :: u32)" by (simp add: c_def ard_base_addr_def)
  have u: "unat (ucast (ard_length c) :: u32) = n" "n \<le> 0x1000000" using len by (simp_all add: unat_ucast_mod n_def)
  have k: "unat k = min (n div 8) 0x8000"
    using len u(2) by (auto simp: k_def Let_def STACK_SIZE_def word_less_nat_alt unat_ucast_mod unat_drop_bit)
  have sz: "unat sz + min (n div 8) 0x8000 = n"
    unfolding sz_def using u k by (subst unat_sub) (auto simp: word_le_nat_alt)
  have w: "ucast (ard_length c) = (word_of_nat n :: u32)" using u(1) by auto
  have b: "b \<noteq> ard_default" using r(1) by (auto simp: ard_length_unat ard_default_def)
  note rs = resize_size [OF r(3) assms(2)]
  define B where "B = unat (ard_base_addr b :: u64)"
  have B: "unat (ard_base_addr b :: u32) = B mod 2 ^ 32" by (simp add: B_def unat_base_addr)
  have inside: "unat (ard_base_addr b :: u32) = B \<and> unat stack_addr = B + n \<and> B + n \<le> B + unat (ard_length b)"
    if "B + unat (ard_length b) < 2 ^ 32"
  proof -
    have "B + n < 2 ^ 32" "n \<le> unat (ard_length b)" using that by (auto simp: n_def)
    then show ?thesis using B r(5) a w by (simp add: unat_word_ariths unat_of_nat)
  qed
  show ?thesis
    using best_entry_all [of ard_default entries, folded b_def] b r a sz w rs B inside
    by (intro bexI [of _ b]) (auto simp: Let_def n_def [symmetric] B_def [symmetric])
qed

text \<open>A machine with 128 MiB: the area above the first megabyte is the largest.\<close>

definition pc_map :: "address_range_descriptor list" where
  "pc_map = [ard_default\<lparr>length_low := 0x9FC00\<rparr>,
    ard_default\<lparr>base_addr_low := 0xF0000, length_low := 0x10000, addr_type := RESERVED\<rparr>,
    ard_default\<lparr>base_addr_low := 0x100000, length_low := 0x7EE0000\<rparr>]"

lemma pc_heap: "map_option (\<lambda>(ms, s, stack_addr). (heap_addr ms, heap_size ms, stack_addr))
  (heap_init pc_map BUDDY_ALLOCATOR) = Some (0x100000, 0xFF8000, 0x1100000)"
  by code_simp

theorem heap_init_bounds_witness:
  "\<exists>ms s' stack_addr. heap_init pc_map BUDDY_ALLOCATOR = Some (ms, s', stack_addr) \<and>
    heap_size ms = 0xFF8000 \<and> unat (max_blk_size s') = 0xFF8000 \<and> unat stack_addr \<le> 0x7FE0000"
proof -
  obtain ms s' stack_addr where h: "heap_init pc_map BUDDY_ALLOCATOR = Some (ms, s', stack_addr)"
    "heap_size ms = 0xFF8000" using pc_heap by auto
  have "length (free_lists BUDDY_ALLOCATOR) = 14"
    by (simp add: BUDDY_ALLOCATOR_def from_base_unchecked_def Let_def)
  from heap_init_bounds [OF h(1) this] obtain e where e: "e \<in> set pc_map"
    "unat (max_blk_size s') = unat (heap_size ms) div 8192 * 8192"
    "unat (ard_base_addr e :: u64) + unat (ard_length e) < 2 ^ 32 \<longrightarrow>
      unat stack_addr \<le> unat (ard_base_addr e :: u64) + unat (ard_length e)"
    by (auto simp: Let_def)
  have "unat (ard_base_addr e :: u64) + unat (ard_length e) \<le> 0x7FE0000"
    using e(1) by (auto simp: pc_map_def ard_default_def ard_length_unat ard_base_addr_def)
  then show ?thesis using h e(2,3) by auto
qed

text \<open>The pool on this machine has a base that is not a multiple of its size. The first
  allocation splits the pool down to the block at the base, whose buddy at level 10 is
  the null pointer, and writes a free block header there: the word at address 0 is
  overwritten.\<close>

lemma relocated_heap_writes_null:
  "map_option (\<lambda>(ms, s, _). map_option (\<lambda>((s, mem), a). (a, mem 0)) (allocate 16 8 (s, \<lambda>_. 1)))
    (heap_init pc_map BUDDY_ALLOCATOR) = Some (Some (0x100000, 0))"
  by code_simp

text \<open>The base of an area above 4 GiB is cut: for the area of 8 GiB at \<open>0x140000000\<close> the heap
  starts at \<open>0x40000000\<close>, outside the area.\<close>

lemma heap_outside_area: "map_option (\<lambda>(ms, s, stack_addr). (heap_addr ms, heap_size ms, stack_addr))
  (heap_init [ard_default\<lparr>base_addr_high := 1, base_addr_low := 0x40000000, length_high := 2\<rparr>] BUDDY_ALLOCATOR) =
  Some (0x40000000, 0xFF8000, 0x41000000)"
  by code_simp

text \<open>The bytes that \<open>memory_map\<close> leaves when the count is written over the start of the map.\<close>

lemma count_bytes:
  assumes "c < 0x10000"
  shows "to_le 4 (word_of_nat c :: u32) = to_le 2 (word_of_nat c :: u32) @ [0, 0]"
proof -
  have "drop_bit 16 (word_of_nat c :: u32) = 0" "drop_bit 24 (word_of_nat c :: u32) = 0"
    using assms by (auto intro!: unat_eqI simp: unat_drop_bit unat_of_nat)
  then show ?thesis by (simp add: to_le_def upt_rec)
qed

lemma length_word_bits:
  assumes "c < 0x10000"
  shows "of_le (lo @ to_le 2 (word_of_nat c :: u32)) = (of_le lo OR push_bit (8 * length lo) (word_of_nat c) :: u32)"
proof (rule word_bits_eqI)
  fix i assume i: "i < LENGTH(32)"
  have b: "\<not> bit (word_of_nat c :: u32) j" if "16 \<le> j" for j
  proof -
    have "c < 2 ^ j" using assms power_increasing [OF that, of "2 :: nat"] by simp
    then show ?thesis using assms by (simp add: bit_unat_odd unat_of_nat)
  qed
  show "bit (of_le (lo @ to_le 2 (word_of_nat c :: u32)) :: u32) i \<longleftrightarrow>
      bit (of_le lo OR push_bit (8 * length lo) (word_of_nat c) :: u32) i"
  proof (cases "i < 8 * length lo")
    case True
    then have "i div 8 < length lo" by (simp add: div_less_iff_less_mult)
    then show ?thesis using True i by (simp add: bit_of_le bit_simps nth_append)
  next
    case False
    define j where "j = i - 8 * length lo"
    have j: "i = j + 8 * length lo" using False by (simp add: j_def)
    have "i div 8 - length lo = j div 8" "i mod 8 = j mod 8" "length lo \<le> i div 8" by (simp_all add: j)
    moreover have "j div 8 < 2 \<longleftrightarrow> j < 16" by (simp add: div_less_iff_less_mult)
    ultimately show ?thesis using i b [of j] by (cases "j < 16") (auto simp: bit_of_le bit_simps nth_append bit_to_le j not_less)
  qed
qed

text \<open>The memory after the bytes of the map and then the count are stored.\<close>

definition stored_map :: "u8 list \<Rightarrow> nat \<Rightarrow> byte_mem \<Rightarrow> byte_mem" where
  "stored_map bs c mem = write_bytes 0x4802 (to_le 4 (word_of_nat c :: u32)) (write_bytes 0x4804 bs mem)"

lemma stored_map_at:
  assumes "0x4804 + length bs \<le> 0x10000" "x < 2 ^ 32"
  shows "stored_map bs c mem (word_of_nat x) =
    (if 0x4802 \<le> x \<and> x < 0x4806 then to_le 4 (word_of_nat c :: u32) ! (x - 0x4802)
     else if 0x4804 \<le> x \<and> x < 0x4804 + length bs then bs ! (x - 0x4804) else mem (word_of_nat x))"
  using assms by (simp add: stored_map_def write_bytes_apply unat_of_nat)

lemma length_read_bytes [simp]: "length (read_bytes mem a m) = m"
  by (simp add: read_bytes_def)

lemma nth_read_bytes: "i < m \<Longrightarrow> read_bytes mem (word_of_nat a) m ! i = mem (word_of_nat (a + i))"
  by (simp add: read_bytes_def)

lemma stored_count:
  assumes "0x4804 + length bs \<le> 0x10000"
  shows "read_bytes (stored_map bs c mem) 0x4802 4 = to_le 4 (word_of_nat c :: u32)"
  using nth_read_bytes [of _ 4 "stored_map bs c mem" "0x4802"] assms
  by (intro nth_equalityI) (simp_all add: stored_map_at del: of_nat_add)

lemma stored_length:
  assumes "0x4804 + length bs \<le> 0x10000" "c < 0x10000"
  shows "read_bytes (stored_map bs c mem) 0x4800 4 = [mem 0x4800, mem 0x4801] @ to_le 2 (word_of_nat c :: u32)"
proof (rule nth_equalityI)
  fix i assume "i < length (read_bytes (stored_map bs c mem) 0x4800 4)"
  then have "i < 4" by simp
  moreover from this have "i = 0 \<or> i = 1 \<or> i = 2 \<or> i = 3" by linarith
  ultimately show "read_bytes (stored_map bs c mem) 0x4800 4 ! i =
      ([mem 0x4800, mem 0x4801] @ to_le 2 (word_of_nat c :: u32)) ! i"
    using nth_read_bytes [of i 4 "stored_map bs c mem" "0x4800"] count_bytes [OF assms(2)]
      stored_map_at [OF assms(1), of "0x4800" c mem] stored_map_at [OF assms(1), of "0x4801" c mem]
      stored_map_at [OF assms(1), of "0x4802" c mem] stored_map_at [OF assms(1), of "0x4803" c mem]
    by (auto simp: nth_append)
qed simp

lemma stored_areas:
  assumes "0x4804 + length bs \<le> 0x10000" "c < 0x10000" "2 \<le> length bs"
  shows "read_bytes (stored_map bs c mem) 0x4804 (length bs) = [0, 0] @ drop 2 bs"
proof (rule nth_equalityI)
  fix i assume "i < length (read_bytes (stored_map bs c mem) 0x4804 (length bs))"
  then have i: "i < length bs" by simp
  then have e: "read_bytes (stored_map bs c mem) 0x4804 (length bs) ! i = stored_map bs c mem (word_of_nat (0x4804 + i))"
    using nth_read_bytes [of i "length bs" "stored_map bs c mem" "0x4804"] by simp
  have z: "to_le 4 (word_of_nat c :: u32) ! 2 = 0" "to_le 4 (word_of_nat c :: u32) ! 3 = 0"
    using count_bytes [OF assms(2)] by (simp_all add: nth_append)
  show "read_bytes (stored_map bs c mem) 0x4804 (length bs) ! i = ([0, 0] @ drop 2 bs) ! i"
  proof (cases "i < 2")
    case True
    then have "i = 0 \<or> i = 1" by linarith
    then show ?thesis
      using e z stored_map_at [OF assms(1), of "0x4804" c mem] stored_map_at [OF assms(1), of "0x4805" c mem] by auto
  next
    case False
    define j where "j = i - 2"
    have "i = j + 2" using False by (simp add: j_def)
    then show ?thesis
      unfolding e using stored_map_at [OF assms(1), of "0x4804 + i" c mem] i assms(1)
      by (simp add: nth_append add.commute del: of_nat_add)
  qed
qed (use assms(3) in simp)

text \<open>C26. When the firmware reports \<open>n\<close> areas of 24 bytes, marking the last by a continuation value of zero,
  and the map ends in the first 64 KiB, \<open>memory_map\<close> ends for all other continuation values and all values
  of the carry flag, which is never seen. The bytes of all areas are stored behind each other, except that the first two of the
  first area are zeroed, because the count is stored two bytes in front of the map. The count is \<open>n - 1\<close>, without the last area; in
  the word four bytes in front of the map, where the iterator looks for the length, it is the high half. No other memory is changed.\<close>

theorem memory_map_drops_last:
  assumes "e820_chain bios 0 ds" "\<forall>d\<in>set ds. length d = 24" "0x4804 + 24 * length ds \<le> 0x10000"
  shows "\<exists>mem'. memory_map bios mem = Some mem' \<and>
    read_u32 mem' 0x4802 = word_of_nat (length ds - 1) \<and>
    read_bytes mem' 0x4804 (24 * length ds) = [0, 0] @ drop 2 (concat ds) \<and>
    read_u32 mem' 0x4800 = of_le [mem 0x4800, mem 0x4801] OR push_bit 16 (word_of_nat (length ds - 1)) \<and>
    (\<forall>a. a < 0x4802 \<or> 0x4804 + 24 * length ds \<le> unat a \<longrightarrow> mem' a = mem a)"
proof -
  define bs c where "bs = concat ds" and "c = length ds - 1"
  have l: "length bs = 24 * length ds" unfolding bs_def using assms(2) by (induction ds) auto
  have "ds \<noteq> []" using assms(1) by (cases rule: e820_chain.cases) auto
  then have b: "2 \<le> length bs" "c < 0x10000" "0x4804 + length bs \<le> 0x10000"
    using l assms(3) by (auto simp: c_def Suc_le_eq)
  define mem' where "mem' = stored_map bs c mem"
  have r: "memory_map bios mem = Some mem'"
    using memory_map_loop_chain [OF assms(1,2), of 0 mem] assms(3)
    by (simp add: memory_map_def mem'_def stored_map_def bs_def c_def E820_MAP_ADDR_def)
  have other: "mem' a = mem a" if "a < 0x4802 \<or> 0x4804 + 24 * length ds \<le> unat a" for a
    using stored_map_at [OF b(3), of "unat a" c mem] unat_less [of a] that l b(1) by (auto simp: word_less_nat_alt mem'_def)
  have len: "read_u32 mem' 0x4800 = of_le [mem 0x4800, mem 0x4801] OR push_bit 16 (word_of_nat c)"
    using length_word_bits [OF b(2), of "[mem 0x4800, mem 0x4801]"]
    by (simp add: read_u32_def mem'_def stored_length [OF b(3,2)])
  have cnt: "read_u32 mem' 0x4802 = word_of_nat c" by (simp add: read_u32_def mem'_def stored_count [OF b(3)])
  have "read_bytes mem' 0x4804 (24 * length ds) = [0, 0] @ drop 2 bs"
    using stored_areas [OF b(3,2,1), of mem] l by (simp add: mem'_def)
  with r other len cnt show ?thesis unfolding bs_def c_def by blast
qed

text \<open>A firmware that reports three areas with continuation values of its own.\<close>

definition demo_bios :: e820_bios where
  "demo_bios ebx = (ebx = 7, if ebx = 0 then 0x30 else if ebx = 0x30 then 7 else 0, replicate 24 (ucast ebx + 1))"

theorem memory_map_drops_last_witness:
  "\<exists>mem'. memory_map demo_bios (\<lambda>_. 0) = Some mem' \<and> read_u32 mem' 0x4802 = 2 \<and> read_u32 mem' 0x4800 = 0x20000 \<and>
    read_bytes mem' 0x4804 72 = [0, 0] @ replicate 22 1 @ replicate 24 0x31 @ replicate 24 8"
proof -
  have d: "demo_bios 7 = (True, 0, replicate 24 8)" "demo_bios 0x30 = (False, 7, replicate 24 0x31)"
    "demo_bios 0 = (False, 0x30, replicate 24 1)" by (simp_all add: demo_bios_def)
  have "e820_chain demo_bios 0 [replicate 24 1, replicate 24 0x31, replicate 24 8]"
    by (intro next_area [of demo_bios 0, OF d(3)] next_area [of demo_bios "0x30", OF d(2)]
        last_area [of demo_bios 7, OF d(1)]) simp_all
  from memory_map_drops_last [OF this, of "\<lambda>_. 0"] show ?thesis
    by (auto simp: of_le_def drop_append)
qed

text \<open>C27. Iterating over the memory map yields exactly the descriptors stored behind its
  length, in order, and panics when the length is zero; it always ends.\<close>

theorem e820_entries_correct:
  "e820_entries_bootloader ru ra = (let n = ru 0x4800 in
    if n = 0 then None else Some (map (\<lambda>i. ra (0x4804 + 24 * word_of_nat i)) [0..<unat n]))"
proof (cases "ru 0x4800 = 0")
  case True
  then show ?thesis
    unfolding e820_entries_bootloader_def
    by (subst e820_collect.simps) (simp add: e820_next_def e820_new_def E820_MAP_ADDR_def)
next
  case False
  then show ?thesis
    using e820_collect_from [of ru "e820_new E820_MAP_ADDR" "ru 0x4800" ra]
    by (simp add: e820_entries_bootloader_def e820_new_def E820_MAP_ADDR_def)
qed

end
