(* ===== verification/Frame_Alloc.thy ===== *)
theory Frame_Alloc
  imports Boot_Heap Addr
begin

text \<open>
  The allocator of physical memory of the kernel,
  \<open>src/x86/paging/page_alloc/frame_alloc.rs\<close>: the buddy scheme of \<open>Buddy\<close> on 64-bit
  physical addresses. The headers of the free blocks are reached through a linear mapping
  of physical memory. Memory is a function from physical addresses to words; a pointer is
  dereferenced through the page tables in force, which the argument \<open>mmu\<close> stands for, and
  \<open>None\<close> is also a page fault.
\<close>

subsection \<open>The code\<close>

definition MAX_PHYSICAL_MEM_BLK_SIZE :: u64 where
  "MAX_PHYSICAL_MEM_BLK_SIZE = 0x20000000"

datatype frame_allocation_error = NoAvailableFrame

record frame_allocation =
  fa_start :: phy_addr
  fa_length :: u64

text \<open>The allocator of the bootloader with the linear mapping added.\<close>

record buddy_frame_allocator = "u64 buddy_allocator" +
  frame_mapping :: physical_memory_mapping

type_synonym mmu = "virt_addr \<Rightarrow> u64 option"
type_synonym frame_state = "buddy_frame_allocator \<times> 64 headers"

definition header_ptr :: "mmu \<Rightarrow> buddy_frame_allocator \<Rightarrow> u64 \<Rightarrow> u64 option" where
  "header_ptr mmu s p = mmu (mapping_convert (frame_mapping s) (PhyAddr p))"

definition frame_log2 :: "u64 \<Rightarrow> u64" where
  "frame_log2 a = log2_loop a 0"

definition frame_from_base_unchecked ::
  "nat \<Rightarrow> phy_addr \<Rightarrow> physical_memory_mapping \<Rightarrow> u64 \<Rightarrow> buddy_frame_allocator" where
  "frame_from_base_unchecked N base m max_sz =
    (let min_blk = wrapping_shr max_sz (N - 1)
     in \<lparr>base_addr = phy_raw base, max_blk_size = max_sz, min_blk_size = min_blk,
         log2_min_blk_size = frame_log2 min_blk,
         free_lists = (replicate N 0)[N - 1 := phy_raw base], frame_mapping = m\<rparr>)"

definition frame_new ::
  "nat \<Rightarrow> phy_addr \<Rightarrow> physical_memory_mapping \<Rightarrow> u64 \<Rightarrow> buddy_frame_allocator option" where
  "frame_new N base m max_sz =
    (if wrapping_shr max_sz (N - 1) = 4096 then Some (frame_from_base_unchecked N base m max_sz)
     else None)"

definition frame_allocation_level :: "buddy_frame_allocator \<Rightarrow> u64 \<Rightarrow> u8 option" where
  "frame_allocation_level s sz =
    (if \<not> sz < max_blk_size s then None
     else
       let sz = max sz (min_blk_size s);
           sz = next_power_of_two sz
       in Some (ucast (frame_log2 sz - log2_min_blk_size s)))"

definition frame_level_size :: "buddy_frame_allocator \<Rightarrow> u8 \<Rightarrow> u64" where
  "frame_level_size s level = wrapping_shl (min_blk_size s) (unat level)"

definition frame_buddy :: "buddy_frame_allocator \<Rightarrow> u64 \<Rightarrow> u8 \<Rightarrow> u64 option option" where
  "frame_buddy s block level =
    (if \<not> base_addr s \<le> block \<or> \<not> block \<le> base_addr s + max_blk_size s then None
     else if frame_level_size s level = max_blk_size s then Some None
     else Some (Some (block XOR
       wrapping_shl 1 (unat (level - 1 + ucast (log2_min_blk_size s))))))"

text \<open>The loop of \<open>remove_blk\<close>. Only \<open>curr_blk\<close>, the place of the pointer, moves on; the
  pointer \<open>curr_blk_ptr\<close> the loop tests does not. The place is the head of the list or
  the header at a virtual address.\<close>

partial_function (option) frame_remove_walk ::
  "buddy_frame_allocator \<Rightarrow> u64 \<Rightarrow> virt_addr option \<Rightarrow> u64 \<Rightarrow> (virt_addr option \<times> bool) option" where
  "frame_remove_walk s blk_header curr_blk curr_blk_ptr =
    (if curr_blk_ptr = 0 then Some (curr_blk, False)
     else if curr_blk_ptr = blk_header then Some (curr_blk, True)
     else frame_remove_walk s blk_header
       (Some (mapping_convert (frame_mapping s) (PhyAddr curr_blk_ptr))) curr_blk_ptr)"

text \<open>The header of the removed block is read through its physical address.\<close>

definition frame_remove_blk ::
  "mmu \<Rightarrow> u64 \<Rightarrow> u8 \<Rightarrow> frame_state \<Rightarrow> (frame_state \<times> bool) option" where
  "frame_remove_blk mmu block level = (\<lambda>(s, mem).
    if \<not> unat level < length (free_lists s) then None
    else do {
      (curr_blk, found) \<leftarrow> frame_remove_walk s block None (free_lists s ! unat level);
      if \<not> found then Some ((s, mem), False)
      else do {
        h \<leftarrow> mmu (VirtAddr block);
        (case curr_blk of
           None \<Rightarrow> Some ((s\<lparr>free_lists := (free_lists s)[unat level := mem h]\<rparr>, mem), True)
         | Some v \<Rightarrow> do { p \<leftarrow> mmu v; Some ((s, mem(p := mem h)), True) })
      }
    })"

definition frame_pop_blk_with_level ::
  "mmu \<Rightarrow> u8 \<Rightarrow> frame_state \<Rightarrow> (buddy_frame_allocator \<times> u64 option) option" where
  "frame_pop_blk_with_level mmu level = (\<lambda>(s, mem).
    if \<not> unat level < length (free_lists s) then None
    else
      let head = free_lists s ! unat level
      in if head \<noteq> 0 then
           if unat level = length (free_lists s) - 1 then
             Some (s\<lparr>free_lists := (free_lists s)[unat level := 0]\<rparr>, Some head)
           else do {
             p \<leftarrow> header_ptr mmu s head;
             Some (s\<lparr>free_lists := (free_lists s)[unat level := mem p]\<rparr>, Some head)
           }
         else Some (s, None))"

definition frame_free_blk :: "mmu \<Rightarrow> u64 \<Rightarrow> u8 \<Rightarrow> frame_state \<Rightarrow> frame_state option" where
  "frame_free_blk mmu block level = (\<lambda>(s, mem).
    if \<not> unat level < length (free_lists s) then None
    else do {
      p \<leftarrow> header_ptr mmu s block;
      Some (s\<lparr>free_lists := (free_lists s)[unat level := block]\<rparr>,
            mem(p := free_lists s ! unat level))
    })"

function frame_split_loop :: "mmu \<Rightarrow> u64 \<Rightarrow> u8 \<Rightarrow> u8 \<Rightarrow> frame_state \<Rightarrow> frame_state option" where
  "frame_split_loop mmu block level new_level st =
    (if new_level < level then do {
       b \<leftarrow> frame_buddy (fst st) block (level - 1);
       b \<leftarrow> b;
       st \<leftarrow> frame_free_blk mmu b (level - 1) st;
       frame_split_loop mmu block (level - 1) new_level st
     } else Some st)"
  by auto
termination
  by (relation "measure (\<lambda>(mmu, block, level, new_level, st). unat level)")
    (auto simp: word_less_nat_alt unat_sub_if')

declare frame_split_loop.simps [simp del]

definition frame_split_blk :: "mmu \<Rightarrow> u64 \<Rightarrow> u8 \<Rightarrow> u8 \<Rightarrow> frame_state \<Rightarrow> frame_state option" where
  "frame_split_blk mmu block level new_level st =
    (if \<not> new_level \<le> level then None else frame_split_loop mmu block level new_level st)"

function frame_alloc_loop :: "mmu \<Rightarrow> nat \<Rightarrow> u8 \<Rightarrow> frame_state \<Rightarrow> (frame_state \<times> u64) option" where
  "frame_alloc_loop mmu level level_req st =
    (if level < length (free_lists (fst st)) then do {
       (s, blk) \<leftarrow> frame_pop_blk_with_level mmu (word_of_nat level) st;
       (case blk of
          Some blk \<Rightarrow> do {
            st \<leftarrow> (if level_req < word_of_nat level
                   then frame_split_blk mmu blk (word_of_nat level) level_req (s, snd st)
                   else Some (s, snd st));
            Some (st, blk)
          }
        | None \<Rightarrow> frame_alloc_loop mmu (level + 1) level_req st)
     } else Some (st, 0))"
  by auto
termination
  by (relation "measure (\<lambda>(mmu, level, level_req, st). length (free_lists (fst st)) - level)") auto

declare frame_alloc_loop.simps [simp del]

definition frame_alloc :: "mmu \<Rightarrow> u64 \<Rightarrow> frame_state \<Rightarrow> (frame_state \<times> u64) option" where
  "frame_alloc mmu sz st = do {
     level_req \<leftarrow> frame_allocation_level (fst st) sz;
     frame_alloc_loop mmu (unat level_req) level_req st
   }"

fun frame_dealloc_loop :: "mmu \<Rightarrow> nat list \<Rightarrow> u64 \<Rightarrow> frame_state \<Rightarrow> frame_state option" where
  "frame_dealloc_loop mmu [] full_block st = Some st"
| "frame_dealloc_loop mmu (level # levels) full_block st = do {
     b \<leftarrow> frame_buddy (fst st) full_block (word_of_nat level);
     (case b of
        None \<Rightarrow> frame_free_blk mmu full_block (word_of_nat level) st
      | Some b \<Rightarrow> do {
          (st, removed) \<leftarrow> frame_remove_blk mmu b (word_of_nat level) st;
          if removed then frame_dealloc_loop mmu levels (min b full_block) st
          else frame_free_blk mmu full_block (word_of_nat level) st
        })
   }"

definition frame_dealloc :: "mmu \<Rightarrow> u64 \<Rightarrow> u64 \<Rightarrow> frame_state \<Rightarrow> frame_state option" where
  "frame_dealloc mmu block sz st = do {
     alloc_level \<leftarrow> frame_allocation_level (fst st) sz;
     frame_dealloc_loop mmu [unat alloc_level..<length (free_lists (fst st))] block st
   }"

text \<open>The trait \<open>FrameAllocator\<close>.\<close>

definition frame_allocate ::
  "mmu \<Rightarrow> u64 \<Rightarrow> frame_state \<Rightarrow> (frame_state \<times> (frame_allocation_error, frame_allocation) result) option" where
  "frame_allocate mmu sz st = do {
     (st, alloc_ptr) \<leftarrow> frame_alloc mmu sz st;
     Some (st, if alloc_ptr = 0 then Inl NoAvailableFrame
               else Inr \<lparr>fa_start = PhyAddr alloc_ptr, fa_length = sz\<rparr>)
   }"

definition frame_deallocate :: "mmu \<Rightarrow> frame_allocation \<Rightarrow> frame_state \<Rightarrow> frame_state option" where
  "frame_deallocate mmu alloc st = frame_dealloc mmu (phy_raw (fa_start alloc)) (fa_length alloc) st"

text \<open>The global pool, \<open>PHYSICAL_MEMORY_POOL\<close>: a cell that is initialised at most once. The
  memory outlives it.\<close>

type_synonym memory_pool = "buddy_frame_allocator option \<times> 64 headers"

definition with_pool ::
  "(frame_state \<Rightarrow> (frame_state \<times> 'r) option) \<Rightarrow> 'r \<Rightarrow> memory_pool \<Rightarrow> (memory_pool \<times> 'r) option" where
  "with_pool f missing = (\<lambda>(cell, mem).
    case cell of
      None \<Rightarrow> Some ((cell, mem), missing)
    | Some s \<Rightarrow> map_option (\<lambda>((s, mem), r). ((Some s, mem), r)) (f (s, mem)))"

definition alloc_page ::
  "mmu \<Rightarrow> u64 \<Rightarrow> memory_pool \<Rightarrow> (memory_pool \<times> (frame_allocation_error, frame_allocation) result) option" where
  "alloc_page mmu sz = with_pool (frame_allocate mmu sz) (Inl NoAvailableFrame)"

definition free_page :: "mmu \<Rightarrow> frame_allocation \<Rightarrow> memory_pool \<Rightarrow> (memory_pool \<times> unit) option" where
  "free_page mmu alloc = with_pool (\<lambda>st. map_option (\<lambda>st. (st, ())) (frame_deallocate mmu alloc st)) ()"

definition pm_alloc :: "mmu \<Rightarrow> u64 \<Rightarrow> memory_pool \<Rightarrow> (memory_pool \<times> u64) option" where
  "pm_alloc mmu sz mp = do {
     (mp, r) \<leftarrow> with_pool (frame_allocate mmu sz) (Inl NoAvailableFrame) mp;
     Some (mp, case r of Inr alloc \<Rightarrow> phy_raw (fa_start alloc) | Inl _ \<Rightarrow> 0)
   }"

definition pm_free :: "mmu \<Rightarrow> u64 \<Rightarrow> u64 \<Rightarrow> memory_pool \<Rightarrow> (memory_pool \<times> unit) option" where
  "pm_free mmu alloc_base alloc_size = free_page mmu \<lparr>fa_start = PhyAddr alloc_base, fa_length = alloc_size\<rparr>"

definition KERNEL_LOAD_ADDR :: phy_addr where
  "KERNEL_LOAD_ADDR = phy_new 0x800000"

definition KERNEL_SECTOR_SZ :: u64 where
  "KERNEL_SECTOR_SZ = 0x20 * 0x100"

definition init_phys_memory_pool :: "address_range_descriptor list \<Rightarrow> memory_pool \<Rightarrow> memory_pool option" where
  "init_phys_memory_pool entries = (\<lambda>(cell, mem).
    let largest = best_entry ard_default entries;
        segment_base = ard_base_addr largest;
        segment_base = (if segment_base < phy_raw KERNEL_LOAD_ADDR \<and>
            phy_raw KERNEL_LOAD_ADDR < segment_base + ard_length largest
          then phy_raw (phy_add_u64 KERNEL_LOAD_ADDR (KERNEL_SECTOR_SZ * 0x200)) else segment_base)
    in if cell \<noteq> None then None
       else Some (Some (frame_from_base_unchecked 18 (PhyAddr segment_base) KERNEL_DEFAULT_MAPPING
              MAX_PHYSICAL_MEM_BLK_SIZE), mem))"

subsection \<open>The allocator of the bootloader at 64 bits\<close>

definition core :: "buddy_frame_allocator \<Rightarrow> u64 buddy_allocator" where
  "core s = \<lparr>base_addr = base_addr s, max_blk_size = max_blk_size s, min_blk_size = min_blk_size s,
     log2_min_blk_size = log2_min_blk_size s, free_lists = free_lists s\<rparr>"

lemma core_sels [simp]:
  "base_addr (core s) = base_addr s" "max_blk_size (core s) = max_blk_size s"
  "min_blk_size (core s) = min_blk_size s" "log2_min_blk_size (core s) = log2_min_blk_size s"
  "free_lists (core s) = free_lists s"
  by (simp_all add: core_def)

lemma core_update [simp]: "core (s\<lparr>free_lists := xs\<rparr>) = (core s)\<lparr>free_lists := xs\<rparr>"
  by (simp add: core_def)

text \<open>The linear mapping reaches the first tebibyte of physical memory.\<close>

definition window :: "mmu \<Rightarrow> physical_memory_mapping \<Rightarrow> bool" where
  "window mmu m \<longleftrightarrow> (\<forall>p. p < DEFAULT_MAX_SIZE \<longrightarrow> mmu (mapping_convert m (PhyAddr p)) = Some p)"

lemma header_ptr_window: "window mmu (frame_mapping s) \<Longrightarrow> p < DEFAULT_MAX_SIZE \<Longrightarrow> header_ptr mmu s p = Some p"
  by (simp add: window_def header_ptr_def)

lemma frame_buddy_eq: "frame_buddy s = buddy (core s)"
  by (intro ext) (simp add: frame_buddy_def buddy_def frame_level_size_def level_size_def)

lemma frame_allocation_level_eq:
  assumes "pool k T (core s)"
  shows "frame_allocation_level s sz = allocation_level (core s) sz 1"
proof -
  have k: "unat (2 ^ k :: u64) = 2 ^ k" using pool_width [OF assms] by (simp add: unat_two_pow)
  then have "(1 :: u64) \<le> 2 ^ k" by (simp add: word_le_nat_alt)
  then have "max (max sz 1) (min_blk_size s) = max sz (min_blk_size s)"
    using assms by (auto simp: pool_def max_def)
  then show ?thesis
    by (simp add: frame_allocation_level_def allocation_level_def is_power_of_two_def MIN_HEAP_ALIGN_def
        frame_log2_def log2_def Let_def)
qed

lemma frame_free_blk_sim:
  assumes "window mmu (frame_mapping s)" "b < DEFAULT_MAX_SIZE" "free_blk b l (core s, mem) = Some (c, mem')"
  shows "\<exists>s'. frame_free_blk mmu b l (s, mem) = Some (s', mem') \<and> core s' = c \<and> frame_mapping s' = frame_mapping s"
  using assms header_ptr_window [OF assms(1,2)] by (auto simp: frame_free_blk_def free_blk_def split: if_splits)

lemma frame_pop_sim:
  assumes "window mmu (frame_mapping s)" "unat l < length (free_lists s) \<Longrightarrow> free_lists s ! unat l < DEFAULT_MAX_SIZE"
    "pop_blk_with_level l (core s, mem) = Some (c, b)"
  shows "\<exists>s'. frame_pop_blk_with_level mmu l (s, mem) = Some (s', b) \<and> core s' = c \<and> frame_mapping s' = frame_mapping s"
  using assms header_ptr_window [OF assms(1)]
  by (auto simp: frame_pop_blk_with_level_def pop_blk_with_level_def Let_def split: if_splits)

lemma buddy_after_free: "free_blk x l st = Some st' \<Longrightarrow> buddy (fst st') = buddy (fst st)"
  by (intro ext) (auto simp: free_blk_def buddy_def level_size_def split: prod.splits if_splits)

lemma frame_split_sim:
  "window mmu (frame_mapping s) \<Longrightarrow> split_loop block l n (core s, mem) = Some (c, mem') \<Longrightarrow>
    (\<And>m b. m < l \<Longrightarrow> buddy (core s) block m = Some (Some b) \<Longrightarrow> b < DEFAULT_MAX_SIZE) \<Longrightarrow>
    \<exists>s'. frame_split_loop mmu block l n (s, mem) = Some (s', mem') \<and> core s' = c \<and> frame_mapping s' = frame_mapping s"
proof (induction "unat l" arbitrary: l s mem)
  case 0
  then have "\<not> n < l" by (simp add: word_less_nat_alt)
  then show ?case
    using "0.prems" by (auto simp: split_loop.simps [of block l] frame_split_loop.simps [of mmu block l])
next
  case (Suc d)
  show ?case
  proof (cases "n < l")
    case True
    have l: "unat (l - 1) = d" "l - 1 < l" using Suc.hyps(2) by (auto simp: unat_sub_if' word_less_nat_alt)
    obtain b c1 mem1 where b: "buddy (core s) block (l - 1) = Some (Some b)"
      and f: "free_blk b (l - 1) (core s, mem) = Some (c1, mem1)"
      and r: "split_loop block (l - 1) n (c1, mem1) = Some (c, mem')"
      using Suc.prems(2) True by (subst (asm) split_loop.simps) (auto simp: bind_eq_Some_conv)
    obtain s1 where s1: "frame_free_blk mmu b (l - 1) (s, mem) = Some (s1, mem1)" "core s1 = c1"
      "frame_mapping s1 = frame_mapping s"
      using frame_free_blk_sim [OF Suc.prems(1) Suc.prems(3) [OF l(2) b] f] by blast
    have "\<exists>s'. frame_split_loop mmu block (l - 1) n (s1, mem1) = Some (s', mem') \<and> core s' = c \<and>
        frame_mapping s' = frame_mapping s1"
    proof (rule Suc.hyps(1))
      show "b < DEFAULT_MAX_SIZE" if "m < l - 1" "buddy (core s1) block m = Some (Some b)" for m b
        using that Suc.prems(3) [of m b] l(2) buddy_after_free [OF f] s1(2) by simp
    qed (use l s1 r Suc.prems in simp_all)
    then show ?thesis
      using True b s1 by (subst frame_split_loop.simps) (auto simp: frame_buddy_eq)
  next
    case False
    then show ?thesis
      using Suc.prems by (auto simp: split_loop.simps [of block l] frame_split_loop.simps [of mmu block l])
  qed
qed

subsection \<open>Allocation\<close>

definition frame_inv :: "mmu \<Rightarrow> nat \<Rightarrow> nat \<Rightarrow> nat \<Rightarrow> frame_state \<Rightarrow> block set \<Rightarrow> bool" where
  "frame_inv mmu k T B st A \<longleftrightarrow> buddy_inv k T B (core (fst st), snd st) A \<and>
    window mmu (frame_mapping (fst st)) \<and> B + 2 ^ (k + T) \<le> 2 ^ 40"

lemma below_max: "unat x < 2 ^ 40 \<Longrightarrow> x < DEFAULT_MAX_SIZE"
  by (simp add: DEFAULT_MAX_SIZE_def word_less_nat_alt)

lemma valid_block_lower:
  assumes "valid_block k T B (a, l)" "m \<le> l"
  shows "valid_block k T B (a, m)"
proof -
  have d: "(2::nat) ^ (k + m) dvd 2 ^ (k + l)" using assms(2) by (intro le_imp_power_dvd) simp
  have e: "(2::nat) ^ (k + m) \<le> 2 ^ (k + l)" using assms(2) by (intro power_increasing) auto
  show ?thesis
    unfolding valid_block_def fst_conv snd_conv
  proof (intro conjI)
    show "2 ^ (k + m) dvd a" using assms(1) d by (auto simp: valid_block_def intro: dvd_trans)
    show "a + 2 ^ (k + m) \<le> B + 2 ^ (k + T)"
      using assms(1) e unfolding valid_block_def fst_conv snd_conv by linarith
  qed (use assms in \<open>auto simp: valid_block_def\<close>)
qed

lemma head_valid:
  assumes "binv k T (s, mem) fs A" "l \<le> T" "free_lists s ! l \<noteq> 0"
  shows "valid_block k T (unat (base_addr s)) (unat (free_lists s ! l), l)"
proof -
  note f = binv_facts [OF assms(1)]
  have "free_lists s ! l \<in> set (fs ! l)"
  proof (cases "l < T")
    case True
    then have "flist mem (free_lists s ! l) (fs ! l)" using f(2) by (simp add: free_rep_def)
    then show ?thesis using assms(3) by (cases "fs ! l") auto
  next
    case False
    then show ?thesis using assms(2,3) f(2) by (auto simp: free_rep_def)
  qed
  then have "(unat (free_lists s ! l), l) \<in> blocks fs" using assms(2) f(3) by (auto simp: blocks_def)
  then show ?thesis using assms(1) by (auto simp: binv_def intro: tiling_valid)
qed

lemma valid_below_max:
  "valid_block k T B (unat a, l) \<Longrightarrow> B + 2 ^ (k + T) \<le> 2 ^ 40 \<Longrightarrow> a < DEFAULT_MAX_SIZE"
proof (rule below_max)
  assume v: "valid_block k T B (unat a, l)" and B: "B + 2 ^ (k + T) \<le> (2::nat) ^ 40"
  have "unat a < unat a + 2 ^ (k + l)" by simp
  also have "\<dots> \<le> 2 ^ 40" using v B unfolding valid_block_def fst_conv snd_conv by linarith
  finally show "unat a < 2 ^ 40" .
qed

lemma split_buddies_below_max:
  assumes "pool k T s" "valid_block k T (unat (base_addr s)) (unat a, l)" "unat (base_addr s) + 2 ^ (k + T) \<le> 2 ^ 40"
    "m < (word_of_nat l :: u8)" "buddy s a m = Some (Some b)"
  shows "b < DEFAULT_MAX_SIZE"
proof -
  have T: "l \<le> T" "T < 256" using assms(2) pool_width [OF assms(1)] by (auto simp: valid_block_def)
  then have m: "unat m < l" using assms(4) by (simp add: word_less_nat_alt unat_of_nat)
  have v: "valid_block k T (unat (base_addr s)) (unat a, unat m)"
    using valid_block_lower [OF assms(2)] m by simp
  have "unat b = buddy_of k (unat a, unat m)"
    using buddy_inner [OF assms(1) v] m T assms(5) by auto
  moreover have "valid_block k T (unat (base_addr s)) (buddy_of k (unat a, unat m), unat m)"
    using buddy_of_valid(1) [OF v] m T assms(1) by (auto simp: pool_def)
  ultimately show ?thesis using valid_below_max assms(3) by metis
qed

text \<open>A block is found: it is split if it is too big.\<close>

lemma frame_split_step_sim:
  assumes b: "binv k T (core s, mem) fs A" and w: "window mmu (frame_mapping s1)"
    and B: "unat (base_addr s) + 2 ^ (k + T) \<le> 2 ^ 40" and l: "l \<le> T"
    and p: "pop_blk_with_level (word_of_nat l) (core s, mem) = Some (core s1, Some y)"
    and r: "(if r < word_of_nat l then split_blk y (word_of_nat l) r (core s1, mem) else Some (core s1, mem)) =
      Some (c, mem')"
  shows "\<exists>s'. (if r < word_of_nat l then frame_split_blk mmu y (word_of_nat l) r (s1, mem) else Some (s1, mem)) =
    Some (s', mem') \<and> core s' = c \<and> frame_mapping s' = frame_mapping s1"
proof (cases "r < word_of_nat l")
  case True
  note f = binv_facts [OF b]
  have u: "unat (word_of_nat l :: u8) = l" "l < length (free_lists s)" using l f(4,5) by (auto simp: unat_of_nat)
  have y: "y = free_lists s ! l" "y \<noteq> 0" "core s1 = (core s)\<lparr>free_lists := free_lists s1\<rparr>"
    using p u by (auto simp: pop_blk_with_level_def Let_def core_def split: if_splits)
  have v: "valid_block k T (unat (base_addr s)) (unat y, l)" using head_valid [OF b l] y by simp
  have bd: "buddy (core s1) = buddy (core s)"
    by (subst y(3), intro ext) (simp add: buddy_def level_size_def)
  have "z < DEFAULT_MAX_SIZE" if "m < word_of_nat l" "buddy (core s1) y m = Some (Some z)" for m z
    using split_buddies_below_max [OF f(1), of y l m z] v B that bd by simp
  moreover have "split_loop y (word_of_nat l) r (core s1, mem) = Some (c, mem')" "r \<le> word_of_nat l"
    using r True by (auto simp: split_blk_def split: if_splits)
  ultimately show ?thesis
    using frame_split_sim [of mmu s1 y "word_of_nat l" r mem c mem'] w True by (auto simp: frame_split_blk_def)
qed (use r in auto)

lemma frame_alloc_loop_sim:
  assumes b: "binv k T (core s, mem) fs A" and w: "window mmu (frame_mapping s)"
    and B: "unat (base_addr s) + 2 ^ (k + T) \<le> 2 ^ 40"
  shows "allocate_loop l r (core s, mem) = Some ((c, mem'), a) \<Longrightarrow>
    \<exists>s'. frame_alloc_loop mmu l r (s, mem) = Some ((s', mem'), a) \<and> core s' = c \<and> frame_mapping s' = frame_mapping s"
proof (induction "Suc T - l" arbitrary: l)
  case 0
  then have "\<not> l < length (free_lists s)" using binv_facts(4) [OF b] by simp
  then show ?case
    using 0(2) by (auto simp: allocate_loop.simps [of l] frame_alloc_loop.simps [of mmu l])
next
  case (Suc d)
  note f = binv_facts [OF b]
  have d: "d = Suc T - (l + 1)" using Suc.hyps(2) by linarith
  have l: "l \<le> T" "l < length (free_lists s)" "unat (word_of_nat l :: u8) = l"
    using Suc.hyps(2) f(4,5) by (auto simp: unat_of_nat)
  have hd: "free_lists s ! l < DEFAULT_MAX_SIZE"
    using head_valid [OF b l(1)] valid_below_max B by (cases "free_lists s ! l = 0") (auto simp: DEFAULT_MAX_SIZE_def)
  obtain c1 x where p: "pop_blk_with_level (word_of_nat l) (core s, mem) = Some (c1, x)"
    using Suc.prems l(2) by (subst (asm) allocate_loop.simps) (auto simp: bind_eq_Some_conv)
  obtain s1 where s1: "frame_pop_blk_with_level mmu (word_of_nat l) (s, mem) = Some (s1, x)" "core s1 = c1"
    "frame_mapping s1 = frame_mapping s"
    using frame_pop_sim [OF w _ p] hd l(3) by auto
  show ?case
  proof (cases x)
    case None
    then have "allocate_loop (l + 1) r (core s, mem) = Some ((c, mem'), a)"
      using Suc.prems l(2) p by (subst (asm) allocate_loop.simps) simp
    then obtain s' where "frame_alloc_loop mmu (l + 1) r (s, mem) = Some ((s', mem'), a)" "core s' = c"
      "frame_mapping s' = frame_mapping s"
      using Suc.hyps(1) [of "l + 1"] d by auto
    then show ?thesis using None l(2) s1 by (subst frame_alloc_loop.simps) auto
  next
    case (Some y)
    let ?split = "if r < word_of_nat l then split_blk y (word_of_nat l) r (core s1, mem) else Some (core s1, mem)"
    have "allocate_loop l r (core s, mem) = Option.bind ?split (\<lambda>st. Some (st, y))"
      unfolding allocate_loop.simps [of l r "(core s, mem)"] using l(2) p Some s1(2) by simp
    then have "Option.bind ?split (\<lambda>st. Some (st, y)) = Some ((c, mem'), a)" using Suc.prems by simp
    then have "?split = Some (c, mem')" and a: "a = y" unfolding bind_eq_Some_conv by auto
    then obtain s' where "(if r < word_of_nat l then frame_split_blk mmu y (word_of_nat l) r (s1, mem)
      else Some (s1, mem)) = Some (s', mem')" "core s' = c" "frame_mapping s' = frame_mapping s"
      using frame_split_step_sim [OF b _ B l(1), of mmu s1 y r c mem'] w p s1 Some by auto
    then show ?thesis
      unfolding frame_alloc_loop.simps [of mmu l r "(s, mem)"] using a Some l(2) s1 by (auto split: if_splits)
  qed
qed

lemma frame_alloc_outcome:
  assumes inv: "frame_inv mmu k T B st A" and sz: "sz < 2 ^ (k + T)"
  shows "\<exists>st' a A'. frame_alloc mmu sz st = Some (st', a) \<and>
    alloc_spec k T B (request_level k T (sz, 1 :: u64)) A (unat a) A' \<and> frame_inv mmu k T B st' A'"
proof -
  obtain s mem where st: "st = (s, mem)" by fastforce
  have i: "buddy_inv k T B (core s, mem) A" and w: "window mmu (frame_mapping s)" and B: "B + 2 ^ (k + T) \<le> 2 ^ 40"
    using inv by (simp_all add: frame_inv_def st)
  have one: "is_power_of_two (1 :: u64)" by (simp add: is_power_of_two_def)
  obtain lvl st' a A' where o: "allocation_level (core s) sz 1 = Some lvl"
    "allocate sz 1 (core s, mem) = Some (st', a)" "alloc_spec k T B (unat lvl) A (unat a) A'"
    "buddy_inv k T B st' A'"
    using allocate_outcome [OF i sz one] by auto
  obtain c mem' where c: "st' = (c, mem')" by fastforce
  obtain fs where "binv k T (core s, mem) fs A" "unat (base_addr s) = B" using i by (auto simp: buddy_inv_def)
  then obtain s' where s': "frame_alloc_loop mmu (unat lvl) lvl (s, mem) = Some ((s', mem'), a)" "core s' = c"
    "frame_mapping s' = frame_mapping s"
    using frame_alloc_loop_sim [of k T s mem fs A mmu "unat lvl" lvl c mem' a] w B o(1,2) c
    by (auto simp: allocate_def)
  moreover have "frame_allocation_level s sz = Some lvl"
    using frame_allocation_level_eq [of k T s sz] pool_of_inv [OF i] o(1) by simp
  ultimately have "frame_alloc mmu sz st = Some ((s', mem'), a)" by (simp add: frame_alloc_def st)
  moreover have "request_level k T (sz, 1) = unat lvl" using request_level_eq [OF i] o(1) by simp
  moreover have "frame_inv mmu k T B (s', mem') A'" using o(4) s' w B c by (simp add: frame_inv_def)
  ultimately show ?thesis using o(3) by metis
qed



subsection \<open>Removing a block\<close>

lemma frame_remove_walk_returns:
  "frame_remove_walk s b c h = Some r \<Longrightarrow> h = 0 \<or> h = b"
proof (rule frame_remove_walk.raw_induct [of "\<lambda>s b c h r. h = 0 \<or> h = b"])
  fix walk s b c h r
  assume IH: "\<And>s b c h r. walk s b c h = Some r \<Longrightarrow> h = 0 \<or> h = b"
    and "(if h = 0 then Some (c, False) else if h = b then Some (c, True)
      else walk s b (Some (mapping_convert (frame_mapping s) (PhyAddr h))) h) = Some r"
  then show "h = 0 \<or> h = b" by (metis (no_types))
qed assumption

lemma frame_remove_walk_eq:
  "frame_remove_walk s b c h = (if h = 0 then Some (c, False) else if h = b then Some (c, True) else None)"
proof (cases "h = 0 \<or> h = b")
  case True
  then show ?thesis by (subst frame_remove_walk.simps) auto
next
  case False
  then show ?thesis using frame_remove_walk_returns by (cases "frame_remove_walk s b c h") auto
qed

subsection \<open>Pools\<close>

lemma core_from_base:
  "core (frame_from_base_unchecked N (PhyAddr base) m sz) = from_base_unchecked N base sz"
  by (simp add: frame_from_base_unchecked_def from_base_unchecked_def core_def frame_log2_def log2_def Let_def)

text \<open>The page tables of the kernel map the first tebibyte of physical memory linearly.\<close>

definition direct_map :: mmu where
  "direct_map v = Some (virt_raw v - 0xFFFFCF8000000000)"

lemma direct_map_window: "window direct_map KERNEL_DEFAULT_MAPPING"
  by (simp add: window_def direct_map_def mapping_convert_default)

text \<open>A pool of 512 MiB at 512 MiB.\<close>

definition aligned_pool :: buddy_frame_allocator where
  "aligned_pool = frame_from_base_unchecked 18 (PhyAddr 0x20000000) KERNEL_DEFAULT_MAPPING MAX_PHYSICAL_MEM_BLK_SIZE"

lemma aligned_pool_inv: "frame_inv direct_map 12 17 0x20000000 (aligned_pool, mem) {}"
proof -
  have "binv 12 17 (from_base_unchecked 18 (0x20000000 :: u64) 0x20000000, mem)
    ((replicate (Suc 17) [])[17 := [0x20000000]]) {}"
    by (rule new_binv(1)) simp_all
  then have "binv 12 17 (core aligned_pool, mem) ((replicate (Suc 17) [])[17 := [0x20000000]]) {}"
    by (simp only: aligned_pool_def core_from_base MAX_PHYSICAL_MEM_BLK_SIZE_def)
  moreover have "base_addr aligned_pool = 0x20000000" "frame_mapping aligned_pool = KERNEL_DEFAULT_MAPPING"
    by (simp_all add: aligned_pool_def frame_from_base_unchecked_def Let_def)
  ultimately show ?thesis using direct_map_window by (auto simp: frame_inv_def buddy_inv_def)
qed

lemma aligned_pool_level: "request_level 12 17 (0x3000 :: u64, 1) = 2"
  by code_simp

subsection \<open>Properties\<close>

text \<open>C3. On a pool whose base is a multiple of its size and that lies in the linear
  mapping, the frame allocator implements the specification of an allocator at 64 bits:
  it never panics or faults on a size below that of the pool, answers a free frame of
  the smallest sufficient size, and \<open>NoAvailableFrame\<close> exactly when there is none.\<close>

theorem frame_allocate_refines:
  assumes "frame_inv mmu k T B st A" "sz < 2 ^ (k + T)"
  shows "\<exists>st' a A'. alloc_spec k T B (request_level k T (sz, 1 :: u64)) A (unat a) A' \<and>
    frame_inv mmu k T B st' A' \<and>
    frame_allocate mmu sz st = Some (st', if a = 0 then Inl NoAvailableFrame
      else Inr \<lparr>fa_start = PhyAddr a, fa_length = sz\<rparr>)"
  using frame_alloc_outcome [OF assms] by (fastforce simp: frame_allocate_def)

theorem frame_allocate_refines_witness:
  "\<exists>st' a A'. alloc_spec 12 17 0x20000000 2 {} (unat a) A' \<and> frame_inv direct_map 12 17 0x20000000 st' A' \<and>
    frame_allocate direct_map 0x3000 (aligned_pool, \<lambda>_. 0) = Some (st', if a = 0 then Inl NoAvailableFrame
      else Inr \<lparr>fa_start = PhyAddr a, fa_length = 0x3000\<rparr>)"
  by (rule frame_allocate_refines [OF aligned_pool_inv, of "0x3000", unfolded aligned_pool_level]) simp

text \<open>C28. \<open>remove_blk\<close> only ever looks at the first block of the list: it answers false on
  an empty list, unlinks the block when it comes first, reading its header through its
  physical address, and otherwise never returns.\<close>

theorem frame_remove_blk_first_only:
  assumes "unat level < length (free_lists s)"
  shows "frame_remove_blk mmu b level (s, mem) =
    (let h = free_lists s ! unat level in
     if h = 0 then Some ((s, mem), False)
     else if h = b then map_option (\<lambda>p. ((s\<lparr>free_lists := (free_lists s)[unat level := mem p]\<rparr>, mem), True)) (mmu (VirtAddr b))
     else None)"
  using assms by (cases "mmu (VirtAddr b)") (auto simp: frame_remove_blk_def frame_remove_walk_eq Let_def)

theorem frame_remove_blk_first_only_witness:
  "frame_remove_blk direct_map 0x20001000 17 (aligned_pool, \<lambda>_. 0) = None"
proof -
  have l: "unat (17 :: u8) < length (free_lists aligned_pool)" by code_simp
  have h: "free_lists aligned_pool ! unat (17 :: u8) = 0x20000000" by code_simp
  show ?thesis unfolding frame_remove_blk_first_only [OF l] h Let_def by simp
qed



lemma header_ptr_direct:
  "frame_mapping s = KERNEL_DEFAULT_MAPPING \<Longrightarrow> p < 0x10000000000 \<Longrightarrow> header_ptr direct_map s p = Some p"
  using header_ptr_window [of direct_map s p] direct_map_window by (simp add: DEFAULT_MAX_SIZE_def)

text \<open>The pool the kernel sets up starts behind its own image, at 0xC00000, which is no
  multiple of 512 MiB. The first page is served by splitting; the buddy at level 10 is
  0x800000, below the pool, and the next request for 4 MiB is given the memory the
  kernel itself is loaded to.\<close>

definition kernel_pool :: buddy_frame_allocator where
  "kernel_pool = \<lparr>base_addr = 0xC00000, max_blk_size = 0x20000000, min_blk_size = 0x1000,
    log2_min_blk_size = 13, free_lists = [0, 0, 0, 0, 0, 0, 0, 0, 0, 0, 0, 0, 0, 0, 0, 0, 0, 0xC00000],
    frame_mapping = KERNEL_DEFAULT_MAPPING\<rparr>"

lemma kernel_pool_init: "init_phys_memory_pool pc_map (None, mem) = Some (Some kernel_pool, mem)"
proof -
  have "best_entry ard_default pc_map = ard_default\<lparr>base_addr_low := 0x100000, length_low := 0x7EE0000\<rparr>"
    by (simp add: pc_map_def ard_length_def ard_default_def)
  moreover have "frame_log2 0x1000 = 13" by code_simp
  moreover have "(replicate 18 0)[17 := 0xC00000 :: u64] =
    [0, 0, 0, 0, 0, 0, 0, 0, 0, 0, 0, 0, 0, 0, 0, 0, 0, 0xC00000]" by code_simp
  ultimately show ?thesis
    by (simp add: init_phys_memory_pool_def kernel_pool_def ard_base_addr_def ard_length_def ard_default_def
        frame_from_base_unchecked_def KERNEL_LOAD_ADDR_def KERNEL_SECTOR_SZ_def phy_add_u64_def phy_new_def
        MAX_PHYSICAL_MEM_BLK_SIZE_def Let_def wrapping_shr_def)
qed

lemma kernel_levels:
  "max_blk_size s = 0x20000000 \<Longrightarrow> min_blk_size s = 0x1000 \<Longrightarrow> log2_min_blk_size s = 13 \<Longrightarrow>
    frame_allocation_level s 0x1000 = Some 0 \<and> frame_allocation_level s 0x400000 = Some 10"
proof -
  have "next_power_of_two (0x1000 :: u64) = 0x1000" "next_power_of_two (0x400000 :: u64) = 0x400000"
    "frame_log2 0x1000 = 13" "frame_log2 0x400000 = 23" by code_simp+
  then show "max_blk_size s = 0x20000000 \<Longrightarrow> min_blk_size s = 0x1000 \<Longrightarrow> log2_min_blk_size s = 13 \<Longrightarrow> ?thesis"
    by (simp add: frame_allocation_level_def)
qed

lemma kernel_image_handed_out:
  "\<exists>mp. map_option fst (Option.bind (init_phys_memory_pool pc_map (None, \<lambda>_. 0)) (pm_alloc direct_map 0x1000)) = Some mp \<and>
    map_option snd (pm_alloc direct_map 0x400000 mp) = Some (phy_raw KERNEL_LOAD_ADDR)"
  by (simp add: kernel_pool_init pm_alloc_def with_pool_def frame_allocate_def frame_alloc_def kernel_levels
      kernel_pool_def frame_alloc_loop.simps frame_pop_blk_with_level_def frame_split_blk_def frame_split_loop.simps
      frame_free_blk_def header_ptr_direct frame_buddy_def frame_level_size_def KERNEL_LOAD_ADDR_def phy_new_def)

end
