(* ===== verification/Vob.thy ===== *)
theory Vob
  imports Prelude
begin

text \<open>
  The vectors of bits of \<open>src/deps/vob/src/lib.rs\<close>, which the bitmaps of the file system
  are made of. A vector is its length and a list of storage blocks, words of a type
  \<open>T\<close> that the type variable stands for. Values of \<open>usize\<close> are natural numbers below
  \<open>2 ^ 64\<close>; sums, differences and products that may leave this range are reduced, and
  \<open>checked\<close> ones answer \<open>None\<close>. \<open>None\<close> is a panic. The width of \<open>usize\<close> is that of the
  kernel, where the file system runs. The capacity of the underlying \<open>Vec\<close> only concerns
  reallocation and is left out, and with it the panic of \<open>reserve\<close> on a length near
  \<open>2 ^ 64\<close>, for which there is no memory.
\<close>

subsection \<open>The code\<close>

record 'w vob =
  vob_len :: nat
  vob_vec :: "'w list"

definition bytes_per_block :: "'b::len itself \<Rightarrow> nat" where
  "bytes_per_block _ = LENGTH('b) div 8"

definition bits_per_block :: "'b::len itself \<Rightarrow> nat" where
  "bits_per_block t = bytes_per_block t * 8"

definition block_offset :: "'b::len itself \<Rightarrow> nat \<Rightarrow> nat" where
  "block_offset t off = off div bits_per_block t"

definition blocks_required :: "'b::len itself \<Rightarrow> nat \<Rightarrow> nat" where
  "blocks_required t num_bits =
    num_bits div bits_per_block t + (if num_bits mod bits_per_block t = 0 then 0 else 1)"

text \<open>Indexing into the storage, which panics out of range.\<close>

definition vec_at :: "'w list \<Rightarrow> nat \<Rightarrow> 'w option" where
  "vec_at xs i = (if i < length xs then Some (xs ! i) else None)"

definition vec_set :: "'w list \<Rightarrow> nat \<Rightarrow> 'w \<Rightarrow> 'w list option" where
  "vec_set xs i x = (if i < length xs then Some (xs[i := x]) else None)"

definition usize_sub :: "nat \<Rightarrow> nat \<Rightarrow> nat" where
  "usize_sub a b = (a + 2 ^ 64 - b mod 2 ^ 64) mod 2 ^ 64"

definition checked_add :: "nat \<Rightarrow> nat \<Rightarrow> nat option" where
  "checked_add a b = (if a + b < 2 ^ 64 then Some (a + b) else None)"

definition mask_last_block :: "'b::len word vob \<Rightarrow> 'b word vob option" where
  "mask_last_block v =
    (let ub = vob_len v mod bits_per_block TYPE('b)
     in if ub > 0 then do {
          let msk = wrapping_shl 1 ub - 1;
          let off = block_offset TYPE('b) (vob_len v);
          old_v \<leftarrow> vec_at (vob_vec v) off;
          let new_v = old_v AND msk;
          if new_v \<noteq> old_v then do {
            vec \<leftarrow> vec_set (vob_vec v) off new_v;
            Some (v\<lparr>vob_vec := vec\<rparr>)
          } else Some v
        } else Some v)"

definition vob_new_with_storage_type :: "nat \<Rightarrow> 'b::len word vob" where
  "vob_new_with_storage_type capacity = \<lparr>vob_len = 0, vob_vec = []\<rparr>"

definition vob_new :: "u64 vob" where
  "vob_new = \<lparr>vob_len = 0, vob_vec = []\<rparr>"

definition vob_with_capacity :: "nat \<Rightarrow> u64 vob" where
  "vob_with_capacity capacity = \<lparr>vob_len = 0, vob_vec = []\<rparr>"

definition vob_from_elem_with_storage_type :: "bool \<Rightarrow> nat \<Rightarrow> 'b::len word vob option" where
  "vob_from_elem_with_storage_type val len =
    mask_last_block \<lparr>vob_len = len,
      vob_vec = replicate (blocks_required TYPE('b) len) (if val then NOT 0 else 0)\<rparr>"

definition vob_from_elem :: "bool \<Rightarrow> nat \<Rightarrow> u64 vob option" where
  "vob_from_elem val len =
    mask_last_block \<lparr>vob_len = len,
      vob_vec = replicate (blocks_required TYPE(64) len) (if val then NOT 0 else 0)\<rparr>"

text \<open>A byte with its bits in reverse order.\<close>

definition reverse_byte :: "u8 \<Rightarrow> u8" where
  "reverse_byte b = fold (\<lambda>k rb. rb OR push_bit (8 - k - 1) (drop_bit k b AND 1)) [0..<8] 0"

definition from_bytes_block :: "u8 list \<Rightarrow> nat \<Rightarrow> u64" where
  "from_bytes_block bs i =
    fold (\<lambda>j w.
      let off = i * bytes_per_block TYPE(64) + j
      in if off \<ge> length bs then w
         else if bs ! off \<noteq> 0 then w OR push_bit (j * 8) (ucast (reverse_byte (bs ! off))) else w)
     [0..<bytes_per_block TYPE(64)] 0"

definition vob_from_bytes :: "u8 list \<Rightarrow> u64 vob option" where
  "vob_from_bytes bs =
    (let new_len = length bs * 8
     in if \<not> new_len < 2 ^ 64 then None
        else Some \<lparr>vob_len = new_len,
          vob_vec = map (from_bytes_block bs) [0..<blocks_required TYPE(64) new_len]\<rparr>)"

definition vob_truncate :: "nat \<Rightarrow> 'b::len word vob \<Rightarrow> 'b word vob option" where
  "vob_truncate len v =
    (if len > vob_len v then Some v
     else mask_last_block (v\<lparr>vob_len := len, vob_vec := take (blocks_required TYPE('b) len) (vob_vec v)\<rparr>))"

definition vob_get :: "'b::len word vob \<Rightarrow> nat \<Rightarrow> bool option option" where
  "vob_get v index =
    (if index \<ge> vob_len v then Some None
     else do {
       blk \<leftarrow> vec_at (vob_vec v) (block_offset TYPE('b) index);
       Some (Some (blk AND wrapping_shl 1 (index mod bits_per_block TYPE('b)) \<noteq> 0))
     })"

definition vob_set :: "nat \<Rightarrow> bool \<Rightarrow> 'b::len word vob \<Rightarrow> ('b word vob \<times> bool) option" where
  "vob_set index val v =
    (if index \<ge> vob_len v then None
     else do {
       let msk = wrapping_shl 1 (index mod bits_per_block TYPE('b));
       let off = block_offset TYPE('b) index;
       old_v \<leftarrow> vec_at (vob_vec v) off;
       let new_v = (if val then old_v OR msk else old_v AND NOT msk);
       if new_v \<noteq> old_v then do {
         vec \<leftarrow> vec_set (vob_vec v) off new_v;
         Some (v\<lparr>vob_vec := vec\<rparr>, True)
       } else Some (v, False)
     })"

definition vob_push :: "bool \<Rightarrow> 'b::len word vob \<Rightarrow> 'b word vob option" where
  "vob_push val v = do {
     let v = (if vob_len v mod bits_per_block TYPE('b) = 0 then v\<lparr>vob_vec := vob_vec v @ [0]\<rparr> else v);
     let i = vob_len v;
     len \<leftarrow> checked_add i 1;
     (v, _) \<leftarrow> vob_set i val (v\<lparr>vob_len := len\<rparr>);
     Some v
   }"

definition vob_pop :: "'b::len word vob \<Rightarrow> ('b word vob \<times> bool option) option" where
  "vob_pop v =
    (if vob_len v = 0 then Some (v, None)
     else do {
       b \<leftarrow> vob_get v (vob_len v - 1);
       v \<leftarrow> vob_truncate (vob_len v - 1) v;
       Some (v, b)
     })"

definition vob_is_empty :: "'b::len word vob \<Rightarrow> bool" where
  "vob_is_empty v \<longleftrightarrow> vob_len v = 0"

definition vob_index :: "'b::len word vob \<Rightarrow> nat \<Rightarrow> bool option" where
  "vob_index v index = do { r \<leftarrow> vob_get v index; r }"

fun vob_extend_from_slice :: "bool list \<Rightarrow> 'b::len word vob \<Rightarrow> 'b word vob option" where
  "vob_extend_from_slice [] v = Some v"
| "vob_extend_from_slice (b # bs) v = do { v \<leftarrow> vob_push b v; vob_extend_from_slice bs v }"

definition vob_from_iter :: "bool list \<Rightarrow> u64 vob option" where
  "vob_from_iter bs = vob_extend_from_slice bs vob_new"

text \<open>\<open>rotate_left\<close> of the storage type.\<close>

definition rotate_left :: "'b::len word \<Rightarrow> nat \<Rightarrow> 'b word" where
  "rotate_left w k = push_bit k w OR drop_bit (LENGTH('b) - k) w"

text \<open>The loop of \<open>extend_blocks\<close> when the last block is partly used: the upper part of the
  rotated block completes the last block, the lower part starts a new one.\<close>

fun extend_shifted :: "nat \<Rightarrow> 'b::len word list \<Rightarrow> 'b word list \<Rightarrow> 'b word list option" where
  "extend_shifted ub vec [] = Some vec"
| "extend_shifted ub vec (block # blocks) =
    (if vec = [] then None
     else
       let msk = wrapping_shl 1 ub - 1;
           new_block = rotate_left block ub
       in extend_shifted ub ((butlast vec @ [last vec OR (new_block AND NOT msk)]) @ [new_block AND msk]) blocks)"

definition vob_extend_blocks ::
  "'b::len word vob \<Rightarrow> nat \<Rightarrow> 'b word vob \<Rightarrow> 'b word vob option" where
  "vob_extend_blocks other offset v = do {
     let ub = vob_len v mod bits_per_block TYPE('b);
     vec \<leftarrow> (if ub = 0 then Some (vob_vec v @ drop offset (vob_vec other))
            else extend_shifted ub (vob_vec v) (drop offset (vob_vec other)));
     new_len \<leftarrow> checked_add (vob_len v) (usize_sub (vob_len other) (offset * bits_per_block TYPE('b)));
     mask_last_block (v\<lparr>vob_len := new_len, vob_vec := take (blocks_required TYPE('b) new_len) vec\<rparr>)
   }"

definition vob_extend_from_vob :: "'b::len word vob \<Rightarrow> 'b word vob \<Rightarrow> 'b word vob option" where
  "vob_extend_from_vob other v = vob_extend_blocks other 0 v"

definition vob_split_off :: "nat \<Rightarrow> 'b::len word vob \<Rightarrow> ('b word vob \<times> 'b word vob) option" where
  "vob_split_off at v =
    (if at \<ge> vob_len v then Some (v, vob_new_with_storage_type 0)
     else if at = 0 then Some (vob_new_with_storage_type 0, v)
     else do {
       let block_to_split = blocks_required TYPE('b) at - 1;
       let ub = at mod bits_per_block TYPE('b);
       let nv = vob_new_with_storage_type (vob_len v - at);
       nv \<leftarrow> (if ub > 0 then do {
               let first_block_len = (if bits_per_block TYPE('b) - ub > vob_len v - at then vob_len v - at
                 else bits_per_block TYPE('b) - ub);
               blk \<leftarrow> vec_at (vob_vec v) block_to_split;
               mask_last_block (nv\<lparr>vob_vec := vob_vec nv @ [wrapping_shr blk ub], vob_len := first_block_len\<rparr>)
             } else Some nv);
       nv \<leftarrow> (if length (vob_vec v) > block_to_split + 1 then vob_extend_blocks v (block_to_split + 1) nv
             else Some nv);
       v \<leftarrow> vob_truncate at v;
       Some (v, nv)
     })"

definition vob_resize :: "nat \<Rightarrow> bool \<Rightarrow> 'b::len word vob \<Rightarrow> 'b word vob option" where
  "vob_resize new_len val v =
    (if new_len \<le> vob_len v then vob_truncate new_len v
     else do {
       v \<leftarrow> (if val \<and> vob_len v > 0 then do {
              let off = block_offset TYPE('b) (vob_len v);
              old \<leftarrow> vec_at (vob_vec v) off;
              vec \<leftarrow> vec_set (vob_vec v) off
                (old OR wrapping_shl (NOT 0) (vob_len v mod bits_per_block TYPE('b)));
              Some (v\<lparr>vob_vec := vec\<rparr>)
            } else Some v);
       let blocks = blocks_required TYPE('b) new_len;
       mask_last_block (v\<lparr>vob_vec := take blocks (vob_vec v) @
           replicate (blocks - length (vob_vec v)) (if val then NOT 0 else 0),
         vob_len := new_len\<rparr>)
     })"

definition vob_clear :: "'b::len word vob \<Rightarrow> 'b word vob" where
  "vob_clear v = v\<lparr>vob_len := 0, vob_vec := []\<rparr>"

definition vob_set_all :: "bool \<Rightarrow> 'b::len word vob \<Rightarrow> 'b word vob option" where
  "vob_set_all val v =
    mask_last_block (v\<lparr>vob_vec := map (\<lambda>_. if val then NOT 0 else 0) (vob_vec v)\<rparr>)"

definition vob_negate :: "'b::len word vob \<Rightarrow> 'b word vob option" where
  "vob_negate v = mask_last_block (v\<lparr>vob_vec := map (\<lambda>blk. NOT blk) (vob_vec v)\<rparr>)"

text \<open>The loop of \<open>and\<close>, \<open>or\<close> and \<open>xor\<close>, and the functions, which differ in the operation only.\<close>

fun zip_blocks :: "('w \<Rightarrow> 'w \<Rightarrow> 'w) \<Rightarrow> 'w list \<Rightarrow> 'w list \<Rightarrow> 'w list \<times> bool" where
  "zip_blocks f (x # xs) (y # ys) =
    (case zip_blocks f xs ys of (zs, chngd) \<Rightarrow> (f x y # zs, x \<noteq> f x y \<or> chngd))"
| "zip_blocks f xs ys = (xs, False)"

definition vob_and :: "'b::len word vob \<Rightarrow> 'b word vob \<Rightarrow> ('b word vob \<times> bool) option" where
  "vob_and other v =
    (if vob_len v \<noteq> vob_len other then None
     else case zip_blocks (AND) (vob_vec v) (vob_vec other) of (vec, chngd) \<Rightarrow> Some (v\<lparr>vob_vec := vec\<rparr>, chngd))"

definition vob_or :: "'b::len word vob \<Rightarrow> 'b word vob \<Rightarrow> ('b word vob \<times> bool) option" where
  "vob_or other v =
    (if vob_len v \<noteq> vob_len other then None
     else case zip_blocks (OR) (vob_vec v) (vob_vec other) of (vec, chngd) \<Rightarrow> Some (v\<lparr>vob_vec := vec\<rparr>, chngd))"

definition vob_xor :: "'b::len word vob \<Rightarrow> 'b word vob \<Rightarrow> ('b word vob \<times> bool) option" where
  "vob_xor other v =
    (if vob_len v \<noteq> vob_len other then None
     else case zip_blocks (XOR) (vob_vec v) (vob_vec other) of (vec, chngd) \<Rightarrow> Some (v\<lparr>vob_vec := vec\<rparr>, chngd))"

text \<open>The operators \<open>|\<close>, \<open>&\<close> and \<open>^\<close> drop the flag.\<close>

definition vob_bitor :: "'b::len word vob \<Rightarrow> 'b word vob \<Rightarrow> 'b word vob option" where
  "vob_bitor v other = map_option fst (vob_or other v)"

definition vob_bitand :: "'b::len word vob \<Rightarrow> 'b word vob \<Rightarrow> 'b word vob option" where
  "vob_bitand v other = map_option fst (vob_and other v)"

definition vob_bitxor :: "'b::len word vob \<Rightarrow> 'b word vob \<Rightarrow> 'b word vob option" where
  "vob_bitxor v other = map_option fst (vob_xor other v)"

definition vob_eq :: "'b::len word vob \<Rightarrow> 'b word vob \<Rightarrow> bool" where
  "vob_eq v other \<longleftrightarrow> vob_len v = vob_len other \<and>
    list_all (\<lambda>(w1, w2). w1 = w2) (zip (vob_vec v) (vob_vec other))"

subsection \<open>Ranges and iterators\<close>

datatype bound = Included nat | Excluded nat | Unbounded

definition process_range :: "bound \<Rightarrow> bound \<Rightarrow> 'b::len word vob \<Rightarrow> nat \<times> nat" where
  "process_range start_bound end_bound v =
    (let start = (case start_bound of
           Included t \<Rightarrow> min t (vob_len v)
         | Excluded t \<Rightarrow> min ((t + 1) mod 2 ^ 64) (vob_len v)
         | Unbounded \<Rightarrow> 0);
         stop = (case end_bound of
           Included t \<Rightarrow> min ((t + 1) mod 2 ^ 64) (vob_len v)
         | Excluded t \<Rightarrow> min t (vob_len v)
         | Unbounded \<Rightarrow> vob_len v)
     in (start, stop))"

text \<open>\<open>trailing_zeros\<close> of the storage type.\<close>

definition trailing_zeros :: "'b::len word \<Rightarrow> nat" where
  "trailing_zeros w = length (takeWhile (\<lambda>n. \<not> bit w n) [0..<LENGTH('b)])"

text \<open>The loop of the iterators over the indices of the set and of the unset bits. They differ
  in what is looked for in a block: the block itself or its complement. The answer is the
  new start of the range, if it changes, and the index found.\<close>

function bits_scan ::
  "('b::len word \<Rightarrow> 'b word) \<Rightarrow> 'b word vob \<Rightarrow> nat \<Rightarrow> nat \<Rightarrow> 'b word \<Rightarrow> nat \<Rightarrow> (nat \<times> nat option) option" where
  "bits_scan f v stop b blk i_off =
    (let tz = trailing_zeros (wrapping_shr (f blk) i_off)
     in if tz < bits_per_block TYPE('b) then
          let bs = b * bits_per_block TYPE('b) + i_off + tz
          in Some (bs + 1, if bs \<ge> stop then None else Some bs)
        else if b + 1 = blocks_required TYPE('b) stop then Some (stop, None)
        else if \<not> b + 1 < length (vob_vec v) then None
        else bits_scan f v stop (b + 1) (vob_vec v ! (b + 1)) 0)"
  by pat_completeness auto
termination
  by (relation "measure (\<lambda>(f, v, stop, b, blk, i_off). length (vob_vec v) - b)") auto

declare bits_scan.simps [simp del]

definition iter_set_bits_next ::
  "'b::len word vob \<Rightarrow> nat \<times> nat \<Rightarrow> ((nat \<times> nat) \<times> nat option) option" where
  "iter_set_bits_next v rg =
    (case rg of (i, stop) \<Rightarrow>
      if i < stop then do {
        let b = block_offset TYPE('b) i;
        blk \<leftarrow> vec_at (vob_vec v) b;
        if blk = NOT 0 then Some ((i + 1, stop), Some i)
        else do {
          (start, r) \<leftarrow> bits_scan (\<lambda>blk. blk) v stop b blk (i mod bits_per_block TYPE('b));
          Some ((start, stop), r)
        }
      } else Some (rg, None))"

definition iter_unset_bits_next ::
  "'b::len word vob \<Rightarrow> nat \<times> nat \<Rightarrow> ((nat \<times> nat) \<times> nat option) option" where
  "iter_unset_bits_next v rg =
    (case rg of (i, stop) \<Rightarrow>
      if i < stop then do {
        let b = block_offset TYPE('b) i;
        blk \<leftarrow> vec_at (vob_vec v) b;
        if blk = 0 then Some ((i + 1, stop), Some i)
        else do {
          (start, r) \<leftarrow> bits_scan (\<lambda>blk. NOT blk) v stop b blk (i mod bits_per_block TYPE('b));
          Some ((start, stop), r)
        }
      } else Some (rg, None))"

text \<open>Collecting what an iterator yields.\<close>

partial_function (option) iter_collect ::
  "('r \<Rightarrow> ('r \<times> nat option) option) \<Rightarrow> 'r \<Rightarrow> nat list option" where
  "iter_collect step rg = do {
     (rg, r) \<leftarrow> step rg;
     (case r of
        None \<Rightarrow> Some []
      | Some i \<Rightarrow> do { is \<leftarrow> iter_collect step rg; Some (i # is) })
   }"

definition iter_set_bits :: "bound \<Rightarrow> bound \<Rightarrow> 'b::len word vob \<Rightarrow> nat list option" where
  "iter_set_bits lo hi v = iter_collect (iter_set_bits_next v) (process_range lo hi v)"

definition iter_unset_bits :: "bound \<Rightarrow> bound \<Rightarrow> 'b::len word vob \<Rightarrow> nat list option" where
  "iter_unset_bits lo hi v = iter_collect (iter_unset_bits_next v) (process_range lo hi v)"

text \<open>\<open>iter\<close>: the bits in order.\<close>

definition vob_iter :: "'b::len word vob \<Rightarrow> bool list option" where
  "vob_iter v = those (map (\<lambda>i. vob_index v i) [0..<vob_len v])"

subsection \<open>Ranges of bits\<close>

text \<open>Writing a value to \<open>n\<close> consecutive blocks.\<close>

fun fill_blocks :: "'w \<Rightarrow> nat \<Rightarrow> nat \<Rightarrow> 'w list \<Rightarrow> 'w list option" where
  "fill_blocks x i 0 vec = Some vec"
| "fill_blocks x i (Suc n) vec = do { vec \<leftarrow> vec_set vec i x; fill_blocks x (i + 1) n vec }"

definition clear_bit_range :: "bound \<Rightarrow> bound \<Rightarrow> 'b::len word vob \<Rightarrow> 'b word vob option" where
  "clear_bit_range lo hi v = do {
     let (start, stop) = process_range lo hi v;
     let len = stop - start;
     let first_blk_id = block_offset TYPE('b) start;
     first_blk \<leftarrow> vec_at (vob_vec v) first_blk_id;
     let first_blk_off = start mod bits_per_block TYPE('b);
     let first_blk_bits_to_set = min (bits_per_block TYPE('b) - first_blk_off) len;
     vec \<leftarrow> vec_set (vob_vec v) first_blk_id
       (if first_blk_bits_to_set = bits_per_block TYPE('b) then 0
        else 0 OR (first_blk AND (wrapping_shl 1 first_blk_off - 1))
               OR (first_blk AND NOT (wrapping_shl 1 first_blk_bits_to_set - 1)));
     let blk_to_set = (len - first_blk_bits_to_set) div bits_per_block TYPE('b);
     vec \<leftarrow> fill_blocks 0 (first_blk_id + 1) blk_to_set vec;
     let remaining_bits = usize_sub (usize_sub len first_blk_bits_to_set) (blk_to_set * bits_per_block TYPE('b));
     if remaining_bits = 0 then Some (v\<lparr>vob_vec := vec\<rparr>)
     else do {
       last_blk \<leftarrow> vec_at vec (first_blk_id + blk_to_set + 1);
       vec \<leftarrow> vec_set vec (first_blk_id + blk_to_set + 1)
         (last_blk AND NOT (wrapping_shl 1 remaining_bits - 1));
       Some (v\<lparr>vob_vec := vec\<rparr>)
     }
   }"

definition set_bit_range :: "bound \<Rightarrow> bound \<Rightarrow> 'b::len word vob \<Rightarrow> 'b word vob option" where
  "set_bit_range lo hi v = do {
     let (start, stop) = process_range lo hi v;
     let len = stop - start;
     let first_blk_id = block_offset TYPE('b) start;
     first_blk \<leftarrow> vec_at (vob_vec v) first_blk_id;
     let first_blk_off = start mod bits_per_block TYPE('b);
     let first_blk_bits_to_set = min (bits_per_block TYPE('b) - first_blk_off) len;
     vec \<leftarrow> vec_set (vob_vec v) first_blk_id
       (if first_blk_bits_to_set = bits_per_block TYPE('b) then NOT 0
        else (NOT 0 AND NOT (wrapping_shl 1 first_blk_off - 1) AND (wrapping_shl 1 first_blk_bits_to_set - 1))
               OR (first_blk AND (wrapping_shl 1 first_blk_off - 1))
               OR (first_blk AND NOT (wrapping_shl 1 first_blk_bits_to_set - 1)));
     let blk_to_set = (len - first_blk_bits_to_set) div bits_per_block TYPE('b);
     vec \<leftarrow> fill_blocks (NOT 0) (first_blk_id + 1) blk_to_set vec;
     let remaining_bits = usize_sub (usize_sub len first_blk_bits_to_set) (8 * blk_to_set * bits_per_block TYPE('b));
     if remaining_bits = 0 then Some (v\<lparr>vob_vec := vec\<rparr>)
     else do {
       last_blk \<leftarrow> vec_at vec (first_blk_id + blk_to_set + 1);
       vec \<leftarrow> vec_set vec (first_blk_id + blk_to_set + 1)
         (last_blk OR (wrapping_shl 1 remaining_bits - 1));
       Some (v\<lparr>vob_vec := vec\<rparr>)
     }
   }"

end
