(* ===== verification/Vob_Spec.thy ===== *)
theory Vob_Spec
  imports Vob
begin

text \<open>
  A vector of bits behaves as a list of Booleans. The abstraction reads the bits below the
  length; the invariant is the one the comments of the source promise, that there are
  exactly as many blocks as needed and that the unused bits of the last one are zero.
\<close>

subsection \<open>Blocks\<close>

text \<open>The bit at a position of a list of blocks.\<close>

definition gbit :: "'b::len word list \<Rightarrow> nat \<Rightarrow> bool" where
  "gbit xs i = bit (xs ! (i div LENGTH('b))) (i mod LENGTH('b))"

definition bits :: "'b::len word vob \<Rightarrow> bool list" where
  "bits v = map (gbit (vob_vec v)) [0..<vob_len v]"

definition vob_ok :: "'b::len word vob \<Rightarrow> bool" where
  "vob_ok v \<longleftrightarrow> 8 dvd LENGTH('b) \<and> vob_len v < 2 ^ 64 \<and>
    length (vob_vec v) = blocks_required TYPE('b) (vob_len v) \<and>
    (\<forall>i. vob_len v \<le> i \<longrightarrow> i < length (vob_vec v) * LENGTH('b) \<longrightarrow> \<not> gbit (vob_vec v) i)"

lemma length_bits [simp]: "length (bits v) = vob_len v"
  by (simp add: bits_def)

lemma nth_bits [simp]: "i < vob_len v \<Longrightarrow> bits v ! i = gbit (vob_vec v) i"
  by (simp add: bits_def)

lemma bits_eqI:
  "vob_len v = length xs \<Longrightarrow> (\<And>i. i < length xs \<Longrightarrow> gbit (vob_vec v) i = xs ! i) \<Longrightarrow> bits v = xs"
  by (rule nth_equalityI) auto

lemma bits_per_block_eq: "8 dvd LENGTH('b) \<Longrightarrow> bits_per_block TYPE('b::len) = LENGTH('b)"
  by (simp add: bits_per_block_def bytes_per_block_def)

lemma blocks_required_le_iff:
  assumes "8 dvd LENGTH('b::len)"
  shows "blocks_required TYPE('b) n \<le> k \<longleftrightarrow> n \<le> k * LENGTH('b)"
proof -
  define L where "L = LENGTH('b)"
  have L: "0 < L" by (simp add: L_def)
  define q r where "q = n div L" and "r = n mod L"
  have n: "n = q * L + r" "r < L" using L by (simp_all add: q_def r_def)
  have "blocks_required TYPE('b) n = q + (if r = 0 then 0 else 1)"
    using assms by (simp add: blocks_required_def bits_per_block_eq q_def r_def L_def)
  moreover have "n \<le> k * L \<longleftrightarrow> q + (if r = 0 then 0 else 1) \<le> k"
  proof
    assume "n \<le> k * L"
    then have "q * L + r \<le> k * L" using n by simp
    then have "q * L \<le> k * L" by linarith
    then have "q \<le> k" using L by (simp only: mult_le_cancel2)
    moreover have "q \<noteq> k" if "0 < r" using that \<open>q * L + r \<le> k * L\<close> by auto
    ultimately show "q + (if r = 0 then 0 else 1) \<le> k" by auto
  next
    assume a: "q + (if r = 0 then 0 else 1) \<le> k"
    show "n \<le> k * L"
    proof (cases "r = 0")
      case False
      then have "(q + 1) * L \<le> k * L" using a by (intro mult_le_mono1) simp
      then show ?thesis using n by simp
    qed (use a n in simp)
  qed
  ultimately show ?thesis by (simp add: L_def)
qed

lemma less_blocks_iff:
  "8 dvd LENGTH('b::len) \<Longrightarrow> k < blocks_required TYPE('b) n \<longleftrightarrow> k * LENGTH('b) < n"
  using blocks_required_le_iff [where 'b = 'b, of n k] by (simp add: not_le [symmetric])

lemma block_of_bit:
  "8 dvd LENGTH('b::len) \<Longrightarrow> i < n \<Longrightarrow> i div LENGTH('b) < blocks_required TYPE('b) n"
  by (simp add: less_blocks_iff) (meson div_times_less_eq_dividend le_less_trans)

lemma in_blocks: "i < k * LENGTH('b::len) \<longleftrightarrow> i div LENGTH('b) < k"
  by (simp add: div_less_iff_less_mult)

lemma blocks_cover: "8 dvd LENGTH('b::len) \<Longrightarrow> n \<le> blocks_required TYPE('b) n * LENGTH('b)"
  using blocks_required_le_iff [where 'b = 'b, of n "blocks_required TYPE('b) n"] by simp

lemma same_bit_iff: "i div L = j div L \<and> i mod L = j mod L \<longleftrightarrow> i = (j::nat)"
  by (metis div_mult_mod_eq)

lemma gbit_update:
  "b < length xs \<Longrightarrow> gbit (xs[b := x]) i = (if i div LENGTH('b) = b then bit x (i mod LENGTH('b)) else gbit xs i)"
  for xs :: "'b::len word list"
  by (simp add: gbit_def nth_list_update)

lemma gbit_append:
  "gbit (xs @ ys) i = (if i < length xs * LENGTH('b) then gbit xs i else gbit ys (i - length xs * LENGTH('b)))"
  for xs :: "'b::len word list"
proof (cases "i < length xs * LENGTH('b)")
  case True
  then show ?thesis by (simp add: gbit_def nth_append in_blocks)
next
  case False
  define j where "j = i - length xs * LENGTH('b)"
  have "i = j + length xs * LENGTH('b)" using False by (simp add: j_def)
  then have "i div LENGTH('b) = length xs + j div LENGTH('b)" "i mod LENGTH('b) = j mod LENGTH('b)" by simp_all
  then show ?thesis using False by (simp add: gbit_def nth_append j_def)
qed

lemma gbit_take: "i div LENGTH('b) < k \<Longrightarrow> gbit (take k xs) i = gbit xs i" for xs :: "'b::len word list"
  by (simp add: gbit_def)

lemma gbit_map: "i < length xs * LENGTH('b) \<Longrightarrow> gbit (map f xs) i = bit (f (xs ! (i div LENGTH('b)))) (i mod LENGTH('b))"
  for xs :: "'b::len word list" and f :: "'b word \<Rightarrow> 'b word"
  by (simp add: gbit_def in_blocks)

lemma gbit_replicate: "i < k * LENGTH('b) \<Longrightarrow> gbit (replicate k x) i = bit x (i mod LENGTH('b))"
  for x :: "'b::len word"
  by (simp add: gbit_def in_blocks)

lemma bit_low_mask:
  "k < LENGTH('b) \<Longrightarrow> bit (wrapping_shl 1 k - 1 :: 'b::len word) n \<longleftrightarrow> n < k"
proof -
  assume k: "k < LENGTH('b)"
  then have "wrapping_shl 1 k - 1 = (mask k :: 'b word)" by (simp add: mask_eq_exp_minus_1 push_bit_eq_mult)
  then show ?thesis using k by (auto simp: bit_mask_iff)
qed

lemma bit_one_shifted: "k < LENGTH('b) \<Longrightarrow> bit (wrapping_shl 1 k :: 'b::len word) n \<longleftrightarrow> n = k"
  by (auto simp: bit_exp_iff dest: bit_imp_le_length)

lemma mod_LENGTH [simp]: "i mod LENGTH('b::len) < LENGTH('b)"
  by simp

text \<open>Every operation that may leave garbage ends by clearing it.\<close>

lemma mask_last_block_spec:
  fixes v :: "'b::len word vob"
  assumes "8 dvd LENGTH('b)" "length (vob_vec v) = blocks_required TYPE('b) (vob_len v)"
  shows "\<exists>v'. mask_last_block v = Some v' \<and> vob_len v' = vob_len v \<and> length (vob_vec v') = length (vob_vec v) \<and>
    (\<forall>i < length (vob_vec v) * LENGTH('b). gbit (vob_vec v') i \<longleftrightarrow> gbit (vob_vec v) i \<and> i < vob_len v)"
proof -
  define L where "L = LENGTH('b)"
  define n where "n = vob_len v"
  have bpb: "bits_per_block TYPE('b) = L" using assms(1) by (simp add: bits_per_block_eq L_def)
  have len: "length (vob_vec v) = blocks_required TYPE('b) n" using assms(2) by (simp add: n_def)
  show ?thesis
  proof (cases "n mod L = 0")
    case True
    then have "n = length (vob_vec v) * L" using len by (auto simp: blocks_required_def bpb)
    then show ?thesis
      using True by (auto simp: mask_last_block_def bpb Let_def L_def n_def)
  next
    case False
    have off: "n div L < length (vob_vec v)" using False len by (simp add: blocks_required_def bpb)
    have k: "n mod L < LENGTH('b)" by (simp add: L_def)
    define w where "w = vob_vec v ! (n div L) AND (wrapping_shl 1 (n mod L) - 1)"
    have m: "mask_last_block v = Some (v\<lparr>vob_vec := (vob_vec v)[n div L := w]\<rparr>)"
      using False off
      by (auto simp: mask_last_block_def bpb n_def [symmetric] Let_def block_offset_def vec_at_def vec_set_def w_def
          list_update_same_conv)
    have last: "Suc (n div L) = length (vob_vec v)" using False len by (simp add: blocks_required_def bpb)
    have "gbit ((vob_vec v)[n div L := w]) i \<longleftrightarrow> gbit (vob_vec v) i \<and> i < n"
      if "i < length (vob_vec v) * LENGTH('b)" for i
    proof (cases "i div L = n div L")
      case True
      then have "i mod L < n mod L \<longleftrightarrow> i < n" by (metis add_less_cancel_left div_mult_mod_eq)
      then show ?thesis
        using True off by (simp add: gbit_update w_def bit_and_iff bit_low_mask [OF k] gbit_def flip: L_def)
    next
      case False
      moreover have "i div L < length (vob_vec v)" using that by (simp add: in_blocks L_def)
      ultimately have "i div L < n div L" using last by linarith
      then have "i < n" by (meson div_le_mono not_less)
      then show ?thesis using False off by (simp add: gbit_update flip: L_def)
    qed
    then show ?thesis using m by (auto simp: n_def)
  qed
qed

lemma mask_last_block_ok:
  fixes v :: "'b::len word vob"
  assumes "8 dvd LENGTH('b)" "length (vob_vec v) = blocks_required TYPE('b) (vob_len v)" "vob_len v < 2 ^ 64"
  shows "\<exists>v'. mask_last_block v = Some v' \<and> vob_ok v' \<and> bits v' = bits v"
proof -
  obtain v' where v': "mask_last_block v = Some v'" "vob_len v' = vob_len v" "length (vob_vec v') = length (vob_vec v)"
    "\<forall>i < length (vob_vec v) * LENGTH('b). gbit (vob_vec v') i \<longleftrightarrow> gbit (vob_vec v) i \<and> i < vob_len v"
    using mask_last_block_spec [OF assms(1,2)] by blast
  moreover have "i < length (vob_vec v) * LENGTH('b)" if "i < vob_len v" for i
    using that blocks_cover [OF assms(1), of "vob_len v"] assms(2) by simp
  ultimately show ?thesis
    using assms by (intro exI [of _ v']) (auto simp: vob_ok_def intro!: bits_eqI)
qed

lemma vob_okD:
  fixes v :: "'b::len word vob"
  assumes "vob_ok v"
  shows "8 dvd LENGTH('b)" "bits_per_block TYPE('b) = LENGTH('b)" "vob_len v < 2 ^ 64"
    "length (vob_vec v) = blocks_required TYPE('b) (vob_len v)"
    "i < vob_len v \<Longrightarrow> i div LENGTH('b) < length (vob_vec v)"
    "vob_len v \<le> i \<Longrightarrow> i < length (vob_vec v) * LENGTH('b) \<Longrightarrow> \<not> gbit (vob_vec v) i"
  using assms by (auto simp: vob_ok_def bits_per_block_eq block_of_bit)

subsection \<open>Building, reading and writing\<close>

lemma vob_new_ok:
  "8 dvd LENGTH('b::len) \<Longrightarrow> vob_ok (vob_new_with_storage_type c :: 'b word vob)"
  "bits (vob_new_with_storage_type c :: 'b word vob) = []"
  by (simp_all add: vob_ok_def vob_new_with_storage_type_def blocks_required_def bits_def)

lemma vob_from_elem_spec:
  assumes "8 dvd LENGTH('b::len)" "n < 2 ^ 64"
  shows "\<exists>v :: 'b word vob. vob_from_elem_with_storage_type b n = Some v \<and> vob_ok v \<and> bits v = replicate n b"
proof -
  define v0 :: "'b word vob" where "v0 = \<lparr>vob_len = n,
    vob_vec = replicate (blocks_required TYPE('b) n) (if b then NOT 0 else 0)\<rparr>"
  have "bits v0 = replicate n b"
  proof (rule bits_eqI)
    fix i assume "i < length (replicate n b)"
    then have i: "i < n" by simp
    then have "i < blocks_required TYPE('b) n * LENGTH('b)" using blocks_cover [OF assms(1), of n] by linarith
    then show "gbit (vob_vec v0) i = replicate n b ! i" using i by (simp add: v0_def gbit_replicate bit_not_iff_eq)
  qed (simp add: v0_def)
  then show ?thesis
    using mask_last_block_ok [of v0] assms by (auto simp: v0_def vob_from_elem_with_storage_type_def)
qed

lemma vob_truncate_spec:
  fixes v :: "'b::len word vob"
  assumes "vob_ok v"
  shows "\<exists>v'. vob_truncate n v = Some v' \<and> vob_ok v' \<and> bits v' = take n (bits v)"
proof (cases "n > vob_len v")
  case True
  then show ?thesis using assms by (simp add: vob_truncate_def)
next
  case False
  note d = vob_okD [OF assms]
  define v0 where "v0 = v\<lparr>vob_len := n, vob_vec := take (blocks_required TYPE('b) n) (vob_vec v)\<rparr>"
  have le: "blocks_required TYPE('b) n \<le> blocks_required TYPE('b) (vob_len v)"
    using False blocks_cover [OF d(1), of "vob_len v"] by (simp add: blocks_required_le_iff [OF d(1)])
  have "bits v0 = take n (bits v)"
    using False block_of_bit [OF d(1)] by (intro bits_eqI) (auto simp: v0_def gbit_take)
  then show ?thesis
    using mask_last_block_ok [of v0] d False le by (auto simp: v0_def vob_truncate_def)
qed

lemma vob_get_spec:
  fixes v :: "'b::len word vob"
  assumes "vob_ok v"
  shows "vob_get v i = Some (if i < vob_len v then Some (bits v ! i) else None)"
proof (cases "i < vob_len v")
  case True
  note d = vob_okD [OF assms]
  define k where "k = i mod LENGTH('b)"
  define x where "x = vob_vec v ! (i div LENGTH('b))"
  have k: "k < LENGTH('b)" by (simp add: k_def)
  have "x AND wrapping_shl 1 k \<noteq> 0 \<longleftrightarrow> bit x k"
  proof
    assume "bit x k"
    then have "bit (x AND wrapping_shl 1 k) k" using bit_one_shifted [OF k] by (simp only: bit_and_iff)
    then show "x AND wrapping_shl 1 k \<noteq> 0" by auto
  next
    assume "x AND wrapping_shl 1 k \<noteq> 0"
    then obtain m where "bit (x AND wrapping_shl 1 k) m" by (auto simp: bit_eq_iff)
    then show "bit x k" using bit_one_shifted [OF k] by (metis bit_and_iff)
  qed
  then show ?thesis
    using True d(2,5) by (simp add: vob_get_def vec_at_def block_offset_def gbit_def k_def x_def)
qed (simp add: vob_get_def)

lemma vob_set_spec:
  fixes v :: "'b::len word vob"
  assumes "vob_ok v" "i < vob_len v"
  shows "\<exists>v'. vob_set i b v = Some (v', bits v ! i \<noteq> b) \<and> vob_ok v' \<and> bits v' = (bits v)[i := b]"
proof -
  note d = vob_okD [OF assms(1)]
  define L where "L = LENGTH('b)"
  define x where "x = vob_vec v ! (i div L)"
  define y where "y = (if b then x OR wrapping_shl 1 (i mod L) else x AND NOT (wrapping_shl 1 (i mod L)))"
  have k: "i mod L < LENGTH('b)" by (simp add: L_def)
  have off: "i div L < length (vob_vec v)" using d(5) assms(2) by (simp add: L_def)
  have y: "bit y m = (if m = i mod L then b else bit x m)" if "m < LENGTH('b)" for m
    using that k by (auto simp: y_def bit_or_iff bit_and_iff bit_not_iff_eq bit_exp_iff)
  have g: "gbit ((vob_vec v)[i div L := y]) j = (if j = i then b else gbit (vob_vec v) j)" for j
    unfolding gbit_update [OF off]
    using y [of "j mod L"] same_bit_iff [of j L i] by (auto simp: gbit_def x_def L_def)
  have ch: "y \<noteq> x \<longleftrightarrow> bits v ! i \<noteq> b"
  proof -
    have "bits v ! i = bit x (i mod L)" using assms(2) by (simp add: gbit_def x_def L_def)
    moreover have "y = x" if "bit x (i mod L) = b"
      by (rule word_bits_eqI) (use y that in auto)
    ultimately show ?thesis using y [OF k] by auto
  qed
  have s: "vob_set i b v = Some (v\<lparr>vob_vec := (vob_vec v)[i div L := y]\<rparr>, y \<noteq> x)"
    using assms(2) off d(2)
    by (auto simp: vob_set_def vec_at_def vec_set_def block_offset_def x_def y_def Let_def L_def list_update_same_conv)
  have "vob_ok (v\<lparr>vob_vec := (vob_vec v)[i div L := y]\<rparr>)" using assms d(6) by (auto simp: vob_ok_def g)
  moreover have "bits (v\<lparr>vob_vec := (vob_vec v)[i div L := y]\<rparr>) = (bits v)[i := b]"
    by (intro bits_eqI) (auto simp: g nth_list_update)
  ultimately show ?thesis using s ch by auto
qed

lemma vob_set_panics: "\<not> i < vob_len v \<Longrightarrow> vob_set i b v = None"
  by (simp add: vob_set_def)

lemma blocks_required_Suc:
  assumes "8 dvd LENGTH('b::len)"
  shows "blocks_required TYPE('b) (n + 1) =
    (if n mod LENGTH('b) = 0 then blocks_required TYPE('b) n + 1 else blocks_required TYPE('b) n)"
proof -
  define L where "L = LENGTH('b)"
  define q r where "q = n div L" and "r = n mod L"
  have L: "0 < L" by (simp add: L_def)
  have n: "n = q * L + r" "r < L" using L by (simp_all add: q_def r_def)
  have b: "blocks_required TYPE('b) n = q + (if r = 0 then 0 else 1)"
    using assms by (simp add: blocks_required_def bits_per_block_eq q_def r_def L_def)
  have "k < blocks_required TYPE('b) (n + 1) \<longleftrightarrow> k \<le> q" for k
  proof -
    have "k * L < n + 1 \<longleftrightarrow> k \<le> q"
    proof
      assume "k * L < n + 1"
      then have "k * L < (q + 1) * L" using n by simp
      then have "k < q + 1" using L by (simp only: mult_less_cancel2)
      then show "k \<le> q" by simp
    next
      assume "k \<le> q"
      then have "k * L \<le> q * L" by (rule mult_le_mono1)
      then show "k * L < n + 1" using n by linarith
    qed
    then show ?thesis by (simp add: less_blocks_iff [OF assms] L_def)
  qed
  then have "blocks_required TYPE('b) (n + 1) = q + 1"
    by (metis add.commute le_eq_less_or_eq less_Suc_eq_le linorder_neqE_nat order_less_irrefl plus_1_eq_Suc)
  then show ?thesis using b by (simp add: r_def L_def)
qed

lemma vob_push_spec:
  fixes v :: "'b::len word vob"
  assumes "vob_ok v" "vob_len v + 1 < 2 ^ 64"
  shows "\<exists>v'. vob_push b v = Some v' \<and> vob_ok v' \<and> bits v' = bits v @ [b]"
proof -
  note d = vob_okD [OF assms(1)]
  define n where "n = vob_len v"
  define v1 where "v1 = (if n mod LENGTH('b) = 0 then v\<lparr>vob_vec := vob_vec v @ [0]\<rparr> else v)\<lparr>vob_len := n + 1\<rparr>"
  have len: "length (vob_vec v1) = blocks_required TYPE('b) (n + 1)"
    unfolding blocks_required_Suc [OF d(1)] using d(4) by (simp add: v1_def n_def)
  have g: "gbit (vob_vec v1) i = (if i < length (vob_vec v) * LENGTH('b) then gbit (vob_vec v) i else False)"
    if "i < length (vob_vec v1) * LENGTH('b)" for i
    using that by (auto simp: v1_def gbit_def in_blocks nth_append less_Suc_eq split: if_splits)
  have ok: "vob_ok v1"
    unfolding vob_ok_def using d(1,6) len assms(2) g by (auto simp: v1_def n_def)
  have b1: "bits v1 = bits v @ [False]"
  proof (rule bits_eqI)
    show "vob_len v1 = length (bits v @ [False])" by (simp add: v1_def n_def)
    fix i assume "i < length (bits v @ [False])"
    then have i: "i \<le> n" by (simp add: n_def)
    then have "i < length (vob_vec v1) * LENGTH('b)" using len blocks_cover [OF d(1), of "n + 1"] by simp
    then show "gbit (vob_vec v1) i = (bits v @ [False]) ! i"
      using g i d(6) [of i] blocks_cover [OF d(1), of n] d(4) by (auto simp: nth_append n_def)
  qed
  obtain v' where "vob_set n b v1 = Some (v', bits v1 ! n \<noteq> b)" "vob_ok v'" "bits v' = (bits v1)[n := b]"
    using vob_set_spec [OF ok, of n b] by (auto simp: v1_def)
  moreover have "vob_push b v = map_option fst (vob_set n b v1)"
    using assms(2) d(2)
    by (auto simp: vob_push_def checked_add_def v1_def n_def Let_def bind_eq_Some_conv
        split: option.splits Option.bind_splits)
  ultimately show ?thesis using b1 by (auto simp: n_def list_update_append)
qed

lemma vob_pop_spec:
  fixes v :: "'b::len word vob"
  assumes "vob_ok v"
  shows "\<exists>v'. vob_pop v = Some (v', if bits v = [] then None else Some (last (bits v))) \<and>
    vob_ok v' \<and> bits v' = butlast (bits v)"
proof (cases "vob_len v = 0")
  case True
  then have "bits v = []" by (simp add: bits_def)
  then show ?thesis using True assms by (simp add: vob_pop_def)
next
  case False
  then have ne: "bits v \<noteq> []" by (metis length_bits length_0_conv)
  obtain v' where "vob_truncate (vob_len v - 1) v = Some v'" "vob_ok v'" "bits v' = take (vob_len v - 1) (bits v)"
    using vob_truncate_spec [OF assms, of "vob_len v - 1"] by blast
  then show ?thesis
    using False ne vob_get_spec [OF assms, of "vob_len v - 1"] by (simp add: vob_pop_def last_conv_nth butlast_conv_take)
qed

lemma vob_extend_from_slice_spec:
  "vob_ok v \<Longrightarrow> vob_len v + length bs < 2 ^ 64 \<Longrightarrow>
    \<exists>v'. vob_extend_from_slice bs v = Some v' \<and> vob_ok v' \<and> bits v' = bits v @ bs"
proof (induction bs arbitrary: v)
  case (Cons b bs)
  then obtain v1 where v1: "vob_push b v = Some v1" "vob_ok v1" "bits v1 = bits v @ [b]"
    using vob_push_spec [of v b] by auto
  then have "vob_len v1 = vob_len v + 1" by (metis length_append_singleton length_bits Suc_eq_plus1)
  then show ?case using Cons.IH [of v1] Cons.prems v1 by auto
qed simp

subsection \<open>Whole vectors\<close>

lemma zip_blocks_spec:
  "length xs = length ys \<Longrightarrow> zip_blocks f xs ys = (map2 f xs ys, map2 f xs ys \<noteq> xs)"
  by (induction xs ys rule: list_induct2) auto

text \<open>A bitwise operation that keeps unset bits unset works on each bit alone.\<close>

lemma zip_blocks_vob:
  fixes v w :: "'b::len word vob"
  assumes ok: "vob_ok v" "vob_ok w" "vob_len v = vob_len w"
    and f: "\<And>x y n. bit (f x y) n \<longleftrightarrow> n < LENGTH('b) \<and> p (bit x n) (bit (y :: 'b word) n)" "\<not> p False False"
  defines "u \<equiv> v\<lparr>vob_vec := map2 f (vob_vec v) (vob_vec w)\<rparr>"
  shows "vob_ok u" "bits u = map2 p (bits v) (bits w)" "map2 f (vob_vec v) (vob_vec w) \<noteq> vob_vec v \<longleftrightarrow> bits u \<noteq> bits v"
proof -
  note d = vob_okD [OF ok(1)] and e = vob_okD [OF ok(2)]
  have len: "length (vob_vec v) = length (vob_vec w)" using d(4) e(4) ok(3) by simp
  have g: "gbit (vob_vec u) i = p (gbit (vob_vec v) i) (gbit (vob_vec w) i)" if "i < length (vob_vec v) * LENGTH('b)" for i
    using that len by (simp add: u_def gbit_def in_blocks f)
  show oku: "vob_ok u"
    unfolding vob_ok_def using d(1,3,4) len g d(6) e(6) ok(3) f(2) by (auto simp: u_def)
  have cover: "i < length (vob_vec v) * LENGTH('b)" if "i < vob_len v" for i
    using that blocks_cover [OF d(1), of "vob_len v"] d(4) by simp
  show "bits u = map2 p (bits v) (bits w)"
    by (rule bits_eqI) (use g cover ok(3) in \<open>auto simp: u_def\<close>)
  show "map2 f (vob_vec v) (vob_vec w) \<noteq> vob_vec v \<longleftrightarrow> bits u \<noteq> bits v"
  proof
    assume "bits u \<noteq> bits v"
    then show "map2 f (vob_vec v) (vob_vec w) \<noteq> vob_vec v" by (auto simp: u_def bits_def)
  next
    assume "map2 f (vob_vec v) (vob_vec w) \<noteq> vob_vec v"
    then obtain k where k: "k < length (vob_vec v)" "f (vob_vec v ! k) (vob_vec w ! k) \<noteq> vob_vec v ! k"
      using len by (auto simp: list_eq_iff_nth_eq)
    then obtain m where m: "m < LENGTH('b)" "bit (f (vob_vec v ! k) (vob_vec w ! k)) m \<noteq> bit (vob_vec v ! k) m"
      using word_bits_eqI by blast
    define i where "i = k * LENGTH('b) + m"
    have i: "i div LENGTH('b) = k" "i mod LENGTH('b) = m" using m(1) by (simp_all add: i_def)
    then have il: "i < length (vob_vec v) * LENGTH('b)" using k(1) by (simp add: in_blocks)
    have ne: "gbit (vob_vec u) i \<noteq> gbit (vob_vec v) i" using i k(1) m(2) len by (simp add: gbit_def u_def)
    have "i < vob_len v"
    proof (rule ccontr)
      assume "\<not> i < vob_len v"
      then show False using ne d(6) [of i] vob_okD(6) [OF oku, of i] il len by (auto simp: u_def)
    qed
    then have "bits u ! i \<noteq> bits v ! i" using ne by (simp add: u_def)
    then show "bits u \<noteq> bits v" by metis
  qed
qed

lemma map_blocks_vob:
  fixes v :: "'b::len word vob"
  assumes "vob_ok v" "\<And>x n. n < LENGTH('b) \<Longrightarrow> bit (f x) n \<longleftrightarrow> p (bit (x :: 'b word) n)"
  shows "\<exists>v'. mask_last_block (v\<lparr>vob_vec := map f (vob_vec v)\<rparr>) = Some v' \<and> vob_ok v' \<and> bits v' = map p (bits v)"
proof -
  note d = vob_okD [OF assms(1)]
  define v0 where "v0 = v\<lparr>vob_vec := map f (vob_vec v)\<rparr>"
  have "bits v0 = map p (bits v)"
    by (rule bits_eqI) (use d(5) assms(2) in \<open>auto simp: v0_def gbit_def\<close>)
  then show ?thesis using mask_last_block_ok [of v0] d by (auto simp: v0_def)
qed

lemma vob_negate_spec: "vob_ok v \<Longrightarrow> \<exists>v'. vob_negate v = Some v' \<and> vob_ok v' \<and> bits v' = map Not (bits v)"
  unfolding vob_negate_def by (rule map_blocks_vob) (simp_all add: bit_not_iff_eq)

lemma vob_set_all_spec:
  "vob_ok v \<Longrightarrow> \<exists>v'. vob_set_all b v = Some v' \<and> vob_ok v' \<and> bits v' = replicate (vob_len v) b"
  using map_blocks_vob [of v "\<lambda>_. if b then NOT 0 else 0" "\<lambda>_. b"]
  by (auto simp: vob_set_all_def bit_not_iff_eq map_replicate_const)

lemma vob_eq_spec:
  fixes v w :: "'b::len word vob"
  assumes "vob_ok v" "vob_ok w"
  shows "vob_eq v w \<longleftrightarrow> bits v = bits w"
proof
  assume e: "vob_eq v w"
  then have "length (vob_vec v) = length (vob_vec w)" using vob_okD(4) assms by (metis vob_eq_def)
  then have "vob_vec v = vob_vec w"
    using e by (intro nth_equalityI) (auto simp: vob_eq_def list_all_length)
  then show "bits v = bits w" using e by (simp add: vob_eq_def bits_def)
next
  assume e: "bits v = bits w"
  then have len: "vob_len v = vob_len w" by (metis length_bits)
  note d = vob_okD [OF assms(1)] and d' = vob_okD [OF assms(2)]
  have g: "gbit (vob_vec v) i = gbit (vob_vec w) i" if "i < length (vob_vec v) * LENGTH('b)" for i
  proof (cases "i < vob_len v")
    case True
    then show ?thesis using e len by (metis nth_bits)
  next
    case False
    then show ?thesis using d(4,6) d'(4,6) len that by auto
  qed
  have "vob_vec v ! k = vob_vec w ! k" if "k < length (vob_vec v)" for k
  proof (rule word_bits_eqI)
    fix m assume m: "m < LENGTH('b)"
    then have "(k * LENGTH('b) + m) div LENGTH('b) = k" "(k * LENGTH('b) + m) mod LENGTH('b) = m" by simp_all
    moreover from this have "k * LENGTH('b) + m < length (vob_vec v) * LENGTH('b)" using that by (simp only: in_blocks)
    ultimately show "bit (vob_vec v ! k) m = bit (vob_vec w ! k) m" using g [of "k * LENGTH('b) + m"] by (simp add: gbit_def)
  qed
  then show "vob_eq v w" using len by (auto simp: vob_eq_def list_all_length)
qed

text \<open>\<open>resize\<close> first fills the last block when it extends with ones.\<close>

definition fill_last :: "bool \<Rightarrow> 'b::len word vob \<Rightarrow> 'b word list" where
  "fill_last b v = (let off = vob_len v div LENGTH('b) in
    if b \<and> vob_len v > 0 then (vob_vec v)[off := vob_vec v ! off OR wrapping_shl (NOT 0) (vob_len v mod LENGTH('b))]
    else vob_vec v)"

lemma gbit_fill_last:
  fixes v :: "'b::len word vob"
  assumes ok: "vob_ok v" and off: "b \<Longrightarrow> vob_len v > 0 \<Longrightarrow> vob_len v div LENGTH('b) < length (vob_vec v)"
    and i: "i < length (vob_vec v) * LENGTH('b)"
  shows "gbit (fill_last b v) i = (if i < vob_len v then gbit (vob_vec v) i else b)"
proof -
  note d = vob_okD [OF ok]
  define L where "L = LENGTH('b)"
  define m where "m = vob_len v"
  have xs: "fill_last b v = (if b \<and> m > 0 then (vob_vec v)[m div L :=
      vob_vec v ! (m div L) OR wrapping_shl (NOT 0) (m mod L)] else vob_vec v)"
    by (simp add: fill_last_def m_def L_def Let_def)
  show ?thesis
  proof (cases "b \<and> m > 0 \<and> i div L = m div L")
    case True
    then have "m mod L \<le> i mod L \<longleftrightarrow> m \<le> i" by (metis add_le_cancel_left div_mult_mod_eq)
    moreover have "gbit (fill_last b v) i \<longleftrightarrow> gbit (vob_vec v) i \<or> m mod L \<le> i mod L"
      unfolding xs gbit_def using True off
      by (auto simp: nth_list_update L_def m_def bit_or_iff bit_push_bit_iff bit_mask_iff bit_not_iff_eq
          wrapping_shl_def not_le)
    ultimately show ?thesis using True by (auto simp: m_def)
  next
    case False
    have "gbit (fill_last b v) i = gbit (vob_vec v) i"
      unfolding xs gbit_def using False off by (auto simp: nth_list_update L_def m_def)
    moreover have "i < m" if "b" "m > 0"
    proof -
      have "Suc (m div L) = length (vob_vec v)"
        using that off d(2,4) by (auto simp: blocks_required_def m_def L_def split: if_splits)
      moreover have "i div L < length (vob_vec v)" using i by (simp add: in_blocks L_def)
      ultimately have "i div L < m div L" using False that by linarith
      then show ?thesis by (meson div_le_mono not_less)
    qed
    moreover have "\<not> gbit (vob_vec v) i" if "m \<le> i" using that d(6) i by (simp add: m_def)
    moreover have "m > 0" using i d(4) by (cases "m = 0") (auto simp: m_def blocks_required_def)
    ultimately show ?thesis by (cases b) (auto simp: m_def)
  qed
qed

lemma vob_resize_spec:
  fixes v :: "'b::len word vob"
  assumes ok: "vob_ok v" and n: "n < 2 ^ 64"
    and off: "b \<Longrightarrow> vob_len v > 0 \<Longrightarrow> vob_len v < n \<Longrightarrow> vob_len v mod LENGTH('b) \<noteq> 0"
  shows "\<exists>v'. vob_resize n b v = Some v' \<and> vob_ok v' \<and>
    bits v' = take n (bits v) @ replicate (n - vob_len v) b"
proof (cases "n \<le> vob_len v")
  case True
  then show ?thesis using vob_truncate_spec [OF ok, of n] by (simp add: vob_resize_def)
next
  case False
  note d = vob_okD [OF ok]
  define m where "m = vob_len v"
  define xs where "xs = fill_last b v"
  define k where "k = blocks_required TYPE('b) n"
  define v0 where "v0 = v\<lparr>vob_vec := take k xs @ replicate (k - length xs) (if b then NOT 0 else 0), vob_len := n\<rparr>"
  have off': "m div LENGTH('b) < length (vob_vec v)" if "b" "m > 0"
    using that off False d(2,4) by (auto simp: blocks_required_def m_def)
  have len: "length xs = length (vob_vec v)" by (simp add: xs_def fill_last_def Let_def)
  have le: "length xs \<le> k"
    using False d(4) blocks_cover [OF d(1), of n] len by (auto simp: k_def blocks_required_le_iff [OF d(1)])
  have "bits v0 = bits v @ replicate (n - m) b"
  proof (rule bits_eqI)
    show "vob_len v0 = length (bits v @ replicate (n - m) b)" using False by (simp add: v0_def m_def)
    fix i assume "i < length (bits v @ replicate (n - m) b)"
    then have i: "i < n" using False by (simp add: m_def)
    have il: "i < k * LENGTH('b)" using i blocks_cover [OF d(1), of n] by (simp add: k_def)
    have "gbit (vob_vec v0) i = (if i < length xs * LENGTH('b) then gbit xs i else b)"
    proof (cases "i < length xs * LENGTH('b)")
      case True
      then show ?thesis using le by (simp add: v0_def gbit_append)
    next
      case False
      then have "i - length xs * LENGTH('b) < (k - length xs) * LENGTH('b)"
        using il by (simp add: diff_mult_distrib)
      then show ?thesis using False le by (simp add: v0_def gbit_append gbit_replicate bit_not_iff_eq)
    qed
    moreover have "m \<le> length xs * LENGTH('b)" using blocks_cover [OF d(1), of m] len d(4) by (simp add: m_def)
    ultimately show "gbit (vob_vec v0) i = (bits v @ replicate (n - m) b) ! i"
      using gbit_fill_last [OF ok, of b i] off' i len by (auto simp: nth_append m_def xs_def)
  qed
  moreover have "vob_resize n b v = mask_last_block v0"
    using False off' by (auto simp: vob_resize_def v0_def k_def xs_def fill_last_def vec_at_def vec_set_def block_offset_def
        d(2) m_def Let_def)
  ultimately show ?thesis
    using mask_last_block_ok [of v0] d(1) n le False by (auto simp: v0_def m_def k_def)
qed

text \<open>On a vector whose last block is full there is no block to fill.\<close>

lemma vob_resize_panics:
  fixes v :: "'b::len word vob"
  assumes "vob_ok v" "b" "0 < vob_len v" "vob_len v < n" "vob_len v mod LENGTH('b) = 0"
  shows "vob_resize n b v = None"
  using assms vob_okD(2,4) [OF assms(1)]
  by (simp add: vob_resize_def vec_at_def block_offset_def blocks_required_def)

subsection \<open>Appending and splitting\<close>

lemma bit_rotate_left:
  "k < LENGTH('b) \<Longrightarrow> m < LENGTH('b) \<Longrightarrow>
    bit (rotate_left w k :: 'b::len word) m \<longleftrightarrow> bit w (if m < k then LENGTH('b) - k + m else m - k)"
  using bit_imp_le_length [of w]
  by (force simp: rotate_left_def bit_or_iff bit_push_bit_iff bit_drop_bit_eq)

lemma gbit_Cons: "gbit (x # xs) i = (if i < LENGTH('b) then bit x i else gbit xs (i - LENGTH('b)))"
  for x :: "'b::len word"
  using gbit_append [of "[x]" xs i] by (simp add: gbit_def)

lemma gbit_last:
  "vec \<noteq> [] \<Longrightarrow> m < LENGTH('b) \<Longrightarrow> gbit vec ((length vec - 1) * LENGTH('b) + m) = bit (last vec) m"
  for vec :: "'b::len word list"
  by (simp add: gbit_def last_conv_nth)

lemma gbit_butlast: "i < (length vec - 1) * LENGTH('b) \<Longrightarrow> gbit (butlast vec) i = gbit vec i"
  for vec :: "'b::len word list"
  by (simp add: gbit_def in_blocks nth_butlast)

text \<open>One round of the loop: the bits of a block follow those of the list.\<close>

lemma extend_shifted_round:
  fixes vec :: "'b::len word list" and x :: "'b word"
  assumes ub: "0 < ub" "ub < LENGTH('b)" and vec: "vec \<noteq> []" "\<And>m. ub \<le> m \<Longrightarrow> \<not> bit (last vec) m"
    and p: "p = (length vec - 1) * LENGTH('b) + ub"
  defines "vec1 \<equiv> (butlast vec @ [last vec OR (rotate_left x ub AND NOT (wrapping_shl 1 ub - 1))]) @
    [rotate_left x ub AND (wrapping_shl 1 ub - 1)]"
  shows "i < p + LENGTH('b) \<Longrightarrow> gbit vec1 i = (if i < p then gbit vec i else bit x (i - p))"
    "ub \<le> m \<Longrightarrow> \<not> bit (last vec1) m"
proof -
  define L where "L = LENGTH('b)"
  define n where "n = length vec - 1"
  define y z where "y = last vec OR (rotate_left x ub AND NOT (wrapping_shl 1 ub - 1))"
    and "z = rotate_left x ub AND (wrapping_shl 1 ub - 1)"
  have y: "bit y j \<longleftrightarrow> bit (last vec) j \<or> bit (rotate_left x ub) j \<and> ub \<le> j" if "j < L" for j
    unfolding y_def bit_or_iff bit_and_iff bit_not_iff_eq bit_low_mask [OF ub(2)] using that by (auto simp: L_def)
  have z: "bit z j \<longleftrightarrow> bit (rotate_left x ub) j \<and> j < ub" for j
    unfolding z_def bit_and_iff bit_low_mask [OF ub(2)] by simp
  have v1: "vec1 = butlast vec @ [y, z]" by (simp add: vec1_def y_def z_def)
  have n: "length (butlast vec) = n" by (simp add: n_def)
  have ubL: "ub < L" using ub(2) by (simp add: L_def)
  have pn: "p = n * L + ub" using p by (simp add: n_def L_def)
  show "ub \<le> m \<Longrightarrow> \<not> bit (last vec1) m" by (simp add: v1 z)
  assume i: "i < p + LENGTH('b)"
  consider (a) "i < n * L" | (b) m where "i = n * L + m" "m < L" | (c) m where "i = n * L + L + m" "m < ub"
  proof -
    have "i < n * L + L + ub" using i pn by (simp add: L_def)
    then have "i < n * L \<or> i = n * L + (i - n * L) \<and> i - n * L < L \<or>
      i = n * L + L + (i - (n * L + L)) \<and> i - (n * L + L) < ub" by linarith
    then show ?thesis using that by blast
  qed
  then show "gbit vec1 i = (if i < p then gbit vec i else bit x (i - p))"
  proof cases
    case a
    then have "gbit vec1 i = gbit vec i"
      using gbit_butlast [of i vec] unfolding v1 gbit_append n by (simp add: L_def n_def)
    then show ?thesis using a pn by simp
  next
    case b
    have v: "gbit vec1 i = bit y m" using b unfolding v1 gbit_append n by (simp add: gbit_Cons L_def)
    have w: "gbit vec i = bit (last vec) m" using b gbit_last [OF vec(1), of m] by (simp add: n_def L_def)
    have "bit (rotate_left x ub) m = bit x (m - ub)" if "ub \<le> m"
      using bit_rotate_left [OF ub(2), of m x] b(2) that by (simp add: L_def)
    then show ?thesis using v w vec(2) [of m] y [of m] b pn by (cases "m < ub") auto
  next
    case c
    have "gbit vec1 i = bit z m" using c ubL unfolding v1 gbit_append n by (simp add: gbit_Cons L_def)
    moreover have "bit (rotate_left x ub) m = bit x (L - ub + m)"
      using bit_rotate_left [OF ub(2), of m x] c(2) ubL by (simp add: L_def)
    moreover have "\<not> i < p" "i - p = L - ub + m" using c pn ubL by auto
    ultimately show ?thesis using z c(2) by simp
  qed
qed

lemma extend_shifted_spec:
  fixes vec blocks :: "'b::len word list"
  assumes "0 < ub" "ub < LENGTH('b)" "vec \<noteq> []" "\<And>m. ub \<le> m \<Longrightarrow> \<not> bit (last vec) m"
    and "p = (length vec - 1) * LENGTH('b) + ub"
  shows "\<exists>vec'. extend_shifted ub vec blocks = Some vec' \<and> length vec' = length vec + length blocks \<and>
    (\<forall>i < p + length blocks * LENGTH('b). gbit vec' i = (if i < p then gbit vec i else gbit blocks (i - p)))"
  using assms(3-5)
proof (induction blocks arbitrary: vec p)
  case (Cons x blocks)
  define vec1 where "vec1 = (butlast vec @ [last vec OR (rotate_left x ub AND NOT (wrapping_shl 1 ub - 1))]) @
    [rotate_left x ub AND (wrapping_shl 1 ub - 1)]"
  note r = extend_shifted_round [OF assms(1,2) Cons.prems, of _ x, folded vec1_def]
  have len: "length vec1 = length vec + 1" "vec1 \<noteq> []" using Cons.prems(1) by (simp_all add: vec1_def)
  have p1: "p + LENGTH('b) = (length vec1 - 1) * LENGTH('b) + ub"
    using Cons.prems(1,3) len by (cases vec) auto
  obtain vec' where v: "extend_shifted ub vec1 blocks = Some vec'" "length vec' = length vec1 + length blocks"
    "\<forall>i < p + LENGTH('b) + length blocks * LENGTH('b). gbit vec' i =
      (if i < p + LENGTH('b) then gbit vec1 i else gbit blocks (i - (p + LENGTH('b))))"
    using Cons.IH [OF len(2) r(2) p1] by blast
  have "gbit vec' i = (if i < p then gbit vec i else gbit (x # blocks) (i - p))"
    if "i < p + length (x # blocks) * LENGTH('b)" for i
    using that v(3) r(1) [of i] by (auto simp: gbit_Cons add.assoc)
  moreover have "extend_shifted ub vec (x # blocks) = Some vec'"
    using v(1) Cons.prems(1) by (simp add: vec1_def Let_def)
  ultimately show ?case using v(2) len by auto
qed simp

lemma gbit_drop: "k \<le> length xs \<Longrightarrow> gbit (drop k xs) i = gbit xs (i + k * LENGTH('b))" for xs :: "'b::len word list"
  by (simp add: gbit_def add.commute)

lemma usize_sub_le: "b \<le> a \<Longrightarrow> a < 2 ^ 64 \<Longrightarrow> usize_sub a b = a - b"
proof -
  assume "b \<le> a" "a < 2 ^ 64"
  then have "b mod 2 ^ 64 = b" "a + 2 ^ 64 - b = a - b + 2 ^ 64" "a - b < 2 ^ 64" by simp_all
  then show ?thesis by (simp only: usize_sub_def mod_add_self2 mod_less)
qed

lemma vob_extend_blocks_spec:
  fixes v other :: "'b::len word vob"
  assumes ok: "vob_ok v" "vob_ok other" and off: "offset * LENGTH('b) \<le> vob_len other"
    and n: "n = vob_len v + (vob_len other - offset * LENGTH('b))" "n < 2 ^ 64"
  shows "\<exists>v'. vob_extend_blocks other offset v = Some v' \<and> vob_ok v' \<and>
    bits v' = bits v @ drop (offset * LENGTH('b)) (bits other)"
proof -
  note d = vob_okD [OF ok(1)] and e = vob_okD [OF ok(2)]
  define L where "L = LENGTH('b)"
  define m where "m = vob_len v"
  define ys where "ys = drop offset (vob_vec other)"
  have ole: "offset \<le> length (vob_vec other)"
    using off blocks_cover [OF d(1), of "vob_len other"] e(4) by (metis le_trans len_gt_0 mult_le_cancel2)
  have "\<exists>vec. (if m mod L = 0 then Some (vob_vec v @ ys) else extend_shifted (m mod L) (vob_vec v) ys) = Some vec \<and>
      length vec = length (vob_vec v) + length ys \<and>
      (\<forall>i < m + length ys * L. gbit vec i = (if i < m then gbit (vob_vec v) i else gbit ys (i - m)))"
  proof (cases "m mod L = 0")
    case True
    then have "length (vob_vec v) * L = m" using d(2,4) by (auto simp: blocks_required_def m_def L_def)
    then show ?thesis using True by (auto simp: gbit_append L_def)
  next
    case False
    have ne: "vob_vec v \<noteq> []" and len: "length (vob_vec v) = Suc (m div L)"
      using False d(2,4) by (auto simp: blocks_required_def m_def L_def)
    then have p: "m = (length (vob_vec v) - 1) * L + m mod L" by simp
    have "\<not> bit (last (vob_vec v)) j" if j: "m mod L \<le> j" for j
    proof (cases "j < L")
      case True
      have "m \<le> (length (vob_vec v) - 1) * L + j" using p j by linarith
      moreover have "(length (vob_vec v) - 1) * L + j < length (vob_vec v) * L" using True len by simp
      ultimately show ?thesis
        using d(6) [of "(length (vob_vec v) - 1) * L + j"] gbit_last [OF ne, of j] True by (simp add: m_def L_def)
    qed (use bit_imp_le_length in \<open>fastforce simp: L_def\<close>)
    then show ?thesis
      using extend_shifted_spec [of "m mod L" "vob_vec v" m ys] False ne p by (auto simp: L_def)
  qed
  then obtain vec where vec: "(if m mod L = 0 then Some (vob_vec v @ ys) else extend_shifted (m mod L) (vob_vec v) ys) = Some vec"
    "length vec = length (vob_vec v) + length ys"
    "\<forall>i < m + length ys * L. gbit vec i = (if i < m then gbit (vob_vec v) i else gbit ys (i - m))" by blast
  define v0 where "v0 = v\<lparr>vob_len := n, vob_vec := take (blocks_required TYPE('b) n) vec\<rparr>"
  have room: "n \<le> m + length ys * L"
    using n(1) blocks_cover [OF d(1), of "vob_len other"] e(4) by (simp add: ys_def m_def L_def diff_mult_distrib)
  have blocks: "blocks_required TYPE('b) n \<le> length vec"
    using room vec(2) blocks_cover [OF d(1), of m] d(4)
    by (simp add: blocks_required_le_iff [OF d(1)] add_mult_distrib m_def L_def)
  have "bits v0 = bits v @ drop (offset * L) (bits other)"
  proof (rule bits_eqI)
    show "vob_len v0 = length (bits v @ drop (offset * L) (bits other))" using n(1) by (simp add: v0_def L_def)
    fix i assume "i < length (bits v @ drop (offset * L) (bits other))"
    then have i: "i < n" using n(1) by (simp add: L_def)
    then have "gbit (vob_vec v0) i = (if i < m then gbit (vob_vec v) i else gbit ys (i - m))"
      using vec(3) room block_of_bit [OF d(1)] by (simp add: v0_def gbit_take)
    then show "gbit (vob_vec v0) i = (bits v @ drop (offset * L) (bits other)) ! i"
      using i n(1) ole off by (auto simp: nth_append m_def ys_def gbit_drop L_def add.commute)
  qed
  moreover have "vob_extend_blocks other offset v = mask_last_block v0"
  proof -
    have "checked_add (vob_len v) (usize_sub (vob_len other) (offset * L)) = Some n"
      using n usize_sub_le [OF off e(3)] by (simp add: checked_add_def L_def)
    then show ?thesis using vec(1) unfolding ys_def
      by (simp add: vob_extend_blocks_def d(2) m_def [symmetric] L_def [symmetric] v0_def Let_def del: if_split)
  qed
  ultimately show ?thesis
    using mask_last_block_ok [of v0] d(1) n blocks by (auto simp: v0_def L_def)
qed

lemma vob_extend_from_vob_spec:
  "vob_ok v \<Longrightarrow> vob_ok other \<Longrightarrow> vob_len v + vob_len other < 2 ^ 64 \<Longrightarrow>
    \<exists>v'. vob_extend_from_vob other v = Some v' \<and> vob_ok v' \<and> bits v' = bits v @ bits other"
  using vob_extend_blocks_spec [of v other 0 "vob_len v + vob_len other"] by (simp add: vob_extend_from_vob_def)

text \<open>The bits of a block from some position on, moved to the start of a block.\<close>

lemma split_block:
  fixes v :: "'b::len word vob"
  assumes ok: "vob_ok v" and at: "at < vob_len v"
  defines "k \<equiv> min (LENGTH('b) - at mod LENGTH('b)) (vob_len v - at)"
  shows "\<exists>w. mask_last_block \<lparr>vob_len = k, vob_vec = [wrapping_shr (vob_vec v ! (at div LENGTH('b))) (at mod LENGTH('b))]\<rparr> =
      Some (w :: 'b word vob) \<and> vob_ok w \<and> bits w = take k (drop at (bits v))"
proof -
  note d = vob_okD [OF ok]
  define L where "L = LENGTH('b)"
  have ub: "at mod L < L" by (simp add: L_def)
  define w0 where "w0 = \<lparr>vob_len = k, vob_vec = [wrapping_shr (vob_vec v ! (at div L)) (at mod L)]\<rparr>"
  have k: "0 < k" "k \<le> L - at mod L" "k \<le> vob_len v - at" using at ub by (auto simp: k_def L_def)
  have "k \<le> L" using k(2) by linarith
  then have "blocks_required TYPE('b) k = 1"
    using k blocks_required_le_iff [OF d(1), of k 1] less_blocks_iff [OF d(1), of 0 k] by (simp add: L_def)
  then have "\<exists>w. mask_last_block w0 = Some w \<and> vob_ok w \<and> bits w = bits w0"
    using mask_last_block_ok [of w0] d(1,3) k by (simp add: w0_def)
  moreover have "bits w0 = take k (drop at (bits v))"
  proof (rule bits_eqI)
    show "vob_len w0 = length (take k (drop at (bits v)))" using k(3) by (simp add: w0_def)
    fix i assume "i < length (take k (drop at (bits v)))"
    then have i: "i < k" by simp
    then have j: "at mod L + i < L" "at + i < vob_len v" using k by linarith+
    have "at + i = at div L * L + (at mod L + i)" by simp
    then have "(at + i) div L = at div L" "(at + i) mod L = at mod L + i"
      using j(1) by (simp_all only: div_mult_self3 mod_mult_self3 div_less mod_less)
    then show "gbit (vob_vec w0) i = take k (drop at (bits v)) ! i"
      using i j ub by (simp add: w0_def gbit_def L_def [symmetric] wrapping_shr_def bit_drop_bit_eq add.commute)
  qed
  ultimately show ?thesis by (simp add: w0_def L_def)
qed

lemma split_block_at:
  fixes v :: "'b::len word vob"
  assumes ok: "vob_ok v" and at: "0 < at" "at < vob_len v"
  shows "blocks_required TYPE('b) at - 1 = (if at mod LENGTH('b) = 0 then at div LENGTH('b) - 1 else at div LENGTH('b))"
    "blocks_required TYPE('b) at - 1 < length (vob_vec v)"
    "length (vob_vec v) > blocks_required TYPE('b) at - 1 + 1 \<longleftrightarrow>
      (blocks_required TYPE('b) at - 1 + 1) * LENGTH('b) < vob_len v"
proof -
  note d = vob_okD [OF ok]
  show "blocks_required TYPE('b) at - 1 = (if at mod LENGTH('b) = 0 then at div LENGTH('b) - 1 else at div LENGTH('b))"
    by (simp add: blocks_required_def d(2))
  then have "blocks_required TYPE('b) at - 1 \<le> at div LENGTH('b)" by simp
  then show "blocks_required TYPE('b) at - 1 < length (vob_vec v)"
    using block_of_bit [OF d(1) at(2)] d(4) by linarith
  show "length (vob_vec v) > blocks_required TYPE('b) at - 1 + 1 \<longleftrightarrow>
      (blocks_required TYPE('b) at - 1 + 1) * LENGTH('b) < vob_len v"
    by (simp only: d(4) less_blocks_iff [OF d(1)])
qed

lemma split_arith:
  "r < L \<Longrightarrow> r \<le> a \<Longrightarrow> a < n \<Longrightarrow> e = (if r = 0 then a else a - r + L) \<Longrightarrow>
    k = (if r = 0 then 0 else min (L - r) (n - a)) \<Longrightarrow> (e < n \<longrightarrow> a + k = e) \<and> (n \<le> e \<longrightarrow> n - a \<le> (k::nat))"
  by (auto split: if_splits)

lemma vob_split_off_spec:
  fixes v :: "'b::len word vob"
  assumes ok: "vob_ok v"
  shows "\<exists>v' w. vob_split_off at v = Some (v', w) \<and> vob_ok v' \<and> vob_ok w \<and>
    bits v' = take at (bits v) \<and> bits w = drop at (bits v)"
proof (cases "0 < at \<and> at < vob_len v")
  case False
  then consider "at \<ge> vob_len v" | "at = 0" "0 < vob_len v" by linarith
  then show ?thesis
    using ok vob_new_ok [where 'b = 'b, of 0] vob_okD(1) [OF ok] by cases (simp_all add: vob_split_off_def)
next
  case True
  note d = vob_okD [OF ok]
  define L where "L = LENGTH('b)"
  define q where "q = blocks_required TYPE('b) at - 1"
  note s = split_block_at [OF ok, of at, folded L_def q_def]
  have m: "at mod L < L" "at mod L \<le> at" by (simp_all add: L_def)
  have e: "(q + 1) * L = (if at mod L = 0 then at else at - at mod L + L)"
  proof (cases "at mod L = 0")
    case z: True
    then obtain j where "at = j * L" by (metis div_mult_mod_eq add_0_right)
    then show ?thesis using s(1) True z by (cases j) (auto simp: L_def)
  qed (use s(1) True in \<open>auto simp: minus_mod_eq_div_mult\<close>)
  define k where "k = (if at mod L = 0 then 0 else min (L - at mod L) (vob_len v - at))"
  note ar = split_arith [OF m conjunct2 [OF True] e k_def]
  obtain t where t: "vob_truncate at v = Some t" "vob_ok t" "bits t = take at (bits v)"
    using vob_truncate_spec [OF ok] by blast
  let ?nv = "(if at mod L > 0 then mask_last_block \<lparr>vob_len = k, vob_vec = [wrapping_shr (vob_vec v ! q) (at mod L)]\<rparr>
    else Some (vob_new_with_storage_type (vob_len v - at)))"
  obtain w where w: "?nv = Some w" "vob_ok w" "bits w = take k (drop at (bits v))"
    using split_block [OF ok, of at] vob_new_ok [where 'b = 'b, of "vob_len v - at"] d(1) True s(1)
    by (cases "at mod L = 0") (auto simp: k_def L_def)
  have "\<exists>u. (if length (vob_vec v) > q + 1 then vob_extend_blocks v (q + 1) w else Some w) = Some u \<and> vob_ok u \<and>
    bits u = drop at (bits v)"
  proof (cases "length (vob_vec v) > q + 1")
    case more: True
    then have le: "(q + 1) * L < vob_len v" using s(3) True by blast
    have cut: "at + k = (q + 1) * L" using le ar by blast
    have "vob_len w = k" using w(3) le cut by (metis add_diff_inverse_nat length_bits length_drop length_take
        less_imp_le min.absorb2 nat_add_left_cancel_le True not_less_iff_gr_or_eq)
    then have "\<exists>u. vob_extend_blocks v (q + 1) w = Some u \<and> vob_ok u \<and> bits u = bits w @ drop ((q + 1) * L) (bits v)"
      using vob_extend_blocks_spec [OF w(2) ok, of "q + 1" "k + (vob_len v - (q + 1) * L)"] le cut d(3)
      by (simp add: L_def)
    moreover have "bits w @ drop ((q + 1) * L) (bits v) = drop at (bits v)"
    proof -
      have "drop ((q + 1) * L) (bits v) = drop k (drop at (bits v))"
        unfolding cut [symmetric] drop_drop by (simp add: add.commute)
      then show ?thesis by (simp only: w(3) append_take_drop_id)
    qed
    ultimately show ?thesis using more by simp
  next
    case False
    then have "vob_len v \<le> (q + 1) * L" using s(3) True by linarith
    then have "vob_len v - at \<le> k" using ar by blast
    then show ?thesis using False w by simp
  qed
  then obtain u where u: "(if length (vob_vec v) > q + 1 then vob_extend_blocks v (q + 1) w else Some w) = Some u"
    "vob_ok u" "bits u = drop at (bits v)" by blast
  have nv: "(if at mod L > 0 then do {
        blk \<leftarrow> vec_at (vob_vec v) q;
        mask_last_block ((vob_new_with_storage_type (vob_len v - at))
          \<lparr>vob_vec := vob_vec (vob_new_with_storage_type (vob_len v - at)) @ [wrapping_shr blk (at mod L)],
           vob_len := if L - at mod L > vob_len v - at then vob_len v - at else L - at mod L\<rparr>)
      } else Some (vob_new_with_storage_type (vob_len v - at))) = Some w"
    using w(1) s(2) True by (auto simp: vec_at_def vob_new_with_storage_type_def k_def min_def not_le split: if_splits)
  have "\<not> at \<ge> vob_len v" "at \<noteq> 0" using True by simp_all
  then have "vob_split_off at v = Some (t, u)"
    unfolding vob_split_off_def d(2) L_def [symmetric] q_def [symmetric] Let_def
    by (simp only: if_False nv bind.bind_lunit u(1) t(1))
  then show ?thesis using t u by blast
qed

subsection \<open>Iterators\<close>

lemma filter_first:
  assumes "i \<le> k" "k < stop" "P k" "\<forall>j. i \<le> j \<longrightarrow> j < k \<longrightarrow> \<not> P j"
  shows "filter P [i..<stop] = k # filter P [k + 1..<stop]"
proof -
  have "[i..<stop] = [i..<k] @ k # [k + 1..<stop]"
    using assms(1,2) by (metis Suc_eq_plus1 le_add_diff_inverse less_or_eq_imp_le upt_add_eq_append upt_conv_Cons)
  moreover have "filter P [i..<k] = []" using assms(4) by (simp add: filter_empty_conv)
  ultimately show ?thesis using assms(3) by simp
qed

text \<open>The contract of an iterator over the positions of a vector at which something holds: it
  yields the first such position of the rest of its range, and moves behind it.\<close>

locale bit_search =
  fixes inv :: "'v \<Rightarrow> bool" and limit :: "'v \<Rightarrow> nat" and hit :: "'v \<Rightarrow> nat \<Rightarrow> bool"
    and step :: "'v \<Rightarrow> nat \<times> nat \<Rightarrow> ((nat \<times> nat) \<times> nat option) option"
  assumes step_none: "\<not> i < stop \<Longrightarrow> step v (i, stop) = Some ((i, stop), None)"
    and step_some: "inv v \<Longrightarrow> i < stop \<Longrightarrow> stop \<le> limit v \<Longrightarrow> \<exists>start r. step v (i, stop) = Some ((start, stop), r) \<and>
      (case r of None \<Rightarrow> \<forall>j. i \<le> j \<longrightarrow> j < stop \<longrightarrow> \<not> hit v j
       | Some k \<Rightarrow> i \<le> k \<and> k < stop \<and> hit v k \<and> (\<forall>j. i \<le> j \<longrightarrow> j < k \<longrightarrow> \<not> hit v j) \<and> start = k + 1)"
begin

lemma collects:
  assumes "inv v" "stop \<le> limit v"
  shows "iter_collect (step v) (i, stop) = Some (filter (hit v) [i..<stop])"
proof (induction "stop - i" arbitrary: i rule: less_induct)
  case less
  show ?case
  proof (cases "i < stop")
    case False
    then show ?thesis by (subst iter_collect.simps) (simp add: step_none)
  next
    case True
    obtain start r where r: "step v (i, stop) = Some ((start, stop), r)"
      "case r of None \<Rightarrow> \<forall>j. i \<le> j \<longrightarrow> j < stop \<longrightarrow> \<not> hit v j
       | Some k \<Rightarrow> i \<le> k \<and> k < stop \<and> hit v k \<and> (\<forall>j. i \<le> j \<longrightarrow> j < k \<longrightarrow> \<not> hit v j) \<and> start = k + 1"
      using step_some [OF assms(1) True assms(2)] by blast
    show ?thesis
    proof (cases r)
      case None
      then show ?thesis using r by (subst iter_collect.simps) (simp add: filter_empty_conv)
    next
      case (Some k)
      then have k: "i \<le> k" "k < stop" "hit v k" "\<forall>j. i \<le> j \<longrightarrow> j < k \<longrightarrow> \<not> hit v j" "start = k + 1"
        using r(2) by auto
      have "filter (hit v) [i..<stop] = k # filter (hit v) [k + 1..<stop]"
        using filter_first [of i k stop "hit v"] k by simp
      moreover have "iter_collect (step v) (k + 1, stop) = Some (filter (hit v) [k + 1..<stop])"
        using less k(1,2) by simp
      ultimately show ?thesis
        using r(1) Some k(5) by (subst iter_collect.simps) simp
    qed
  qed
qed

end

lemma trailing_zeros_spec:
  fixes w :: "'b::len word"
  shows "trailing_zeros w \<le> LENGTH('b)" "n < trailing_zeros w \<Longrightarrow> \<not> bit w n"
    "trailing_zeros w < LENGTH('b) \<Longrightarrow> bit w (trailing_zeros w)"
proof -
  let ?t = "takeWhile (\<lambda>n. \<not> bit w n) [0..<LENGTH('b)]"
  have l: "length ?t \<le> LENGTH('b)" by (metis length_takeWhile_le length_upt minus_nat.diff_0)
  then show "trailing_zeros w \<le> LENGTH('b)" by (simp add: trailing_zeros_def)
  have "?t ! n = n" if "n < length ?t" for n
    using that l takeWhile_nth [OF that] by simp
  then show "n < trailing_zeros w \<Longrightarrow> \<not> bit w n"
    unfolding trailing_zeros_def by (metis nth_mem set_takeWhileD)
  show "trailing_zeros w < LENGTH('b) \<Longrightarrow> bit w (trailing_zeros w)"
    unfolding trailing_zeros_def using nth_length_takeWhile [of "\<lambda>n. \<not> bit w n" "[0..<LENGTH('b)]"] by simp
qed

text \<open>What the loop looks for: a set bit of \<open>f\<close> of a block.\<close>

definition hit_of :: "('b::len word \<Rightarrow> 'b word) \<Rightarrow> 'b word vob \<Rightarrow> nat \<Rightarrow> bool" where
  "hit_of f v j = bit (f (vob_vec v ! (j div LENGTH('b)))) (j mod LENGTH('b))"

lemma hit_of_block:
  "b * LENGTH('b) \<le> j \<Longrightarrow> j < (b + 1) * LENGTH('b) \<Longrightarrow>
    hit_of f v j = bit (f (vob_vec v ! b)) (j - b * LENGTH('b))" for v :: "'b::len word vob"
proof -
  assume a: "b * LENGTH('b) \<le> j" "j < (b + 1) * LENGTH('b)"
  then have "j div LENGTH('b) = b"
    by (metis add.commute div_nat_eqI mult.commute plus_1_eq_Suc)
  moreover from this have "j mod LENGTH('b) = j - b * LENGTH('b)" by (simp add: modulo_nat_def)
  ultimately show ?thesis by (simp add: hit_of_def)
qed

lemma bits_scan_spec:
  fixes v :: "'b::len word vob"
  assumes ok: "vob_ok v" and stop: "stop \<le> vob_len v"
  shows "i_off < LENGTH('b) \<Longrightarrow> b * LENGTH('b) + i_off < stop \<Longrightarrow> i = b * LENGTH('b) + i_off \<Longrightarrow>
    \<exists>start r. bits_scan f v stop b (vob_vec v ! b) i_off = Some (start, r) \<and>
      (case r of None \<Rightarrow> \<forall>j. i \<le> j \<longrightarrow> j < stop \<longrightarrow> \<not> hit_of f v j
       | Some k \<Rightarrow> i \<le> k \<and> k < stop \<and> hit_of f v k \<and> (\<forall>j. i \<le> j \<longrightarrow> j < k \<longrightarrow> \<not> hit_of f v j) \<and> start = k + 1)"
proof (induction "length (vob_vec v) - b" arbitrary: b i_off i rule: less_induct)
  case less
  note d = vob_okD [OF ok]
  define L where "L = LENGTH('b)"
  define w where "w = wrapping_shr (f (vob_vec v ! b)) i_off"
  define tz where "tz = trailing_zeros w"
  have w: "bit w n \<longleftrightarrow> bit (f (vob_vec v ! b)) (i_off + n)" for n
    using less.prems(1) by (simp add: w_def wrapping_shr_def bit_drop_bit_eq)
  have i: "i = b * L + i_off" "i_off < L" "i < stop" using less.prems by (simp_all add: L_def)
  have tzL: "i_off + tz < L" if "tz < L"
    using that w [of tz] trailing_zeros_spec(3) [of w] bit_imp_le_length [of "f (vob_vec v ! b)" "i_off + tz"]
    by (simp add: tz_def L_def)
  have hits: "hit_of f v (i + n) = bit w n" if "i_off + n < L" for n
    using that i w hit_of_block [of b "i + n" f v] by (simp add: L_def)
  have none: "\<not> hit_of f v j" if "i \<le> j" "j < i + tz" "j < (b + 1) * L" for j
    using that hits [of "j - i"] i trailing_zeros_spec(2) [of "j - i" w] by (simp add: tz_def)
  show ?case
  proof (cases "tz < L")
    case True
    have "bits_scan f v stop b (vob_vec v ! b) i_off = Some (i + tz + 1, if i + tz \<ge> stop then None else Some (i + tz))"
      using True i by (simp add: bits_scan.simps [of f v stop b] d(2) w_def [symmetric] tz_def [symmetric]
          L_def [symmetric] Let_def)
    moreover have "hit_of f v (i + tz)" using hits [OF tzL [OF True]] trailing_zeros_spec(3) [of w] True
      by (simp add: tz_def L_def)
    moreover have "\<not> hit_of f v j" if "i \<le> j" "j < i + tz" for j
      using none [OF that] that tzL [OF True] i by simp
    ultimately show ?thesis using i by auto
  next
    case False
    then have out: "\<not> hit_of f v j" if "i \<le> j" "j < (b + 1) * L" for j using none [OF that(1) _ that(2)] that i by simp
    have bs: "b < blocks_required TYPE('b) stop" using less_blocks_iff [OF d(1), of b stop] i by (simp add: L_def)
    have step: "bits_scan f v stop b (vob_vec v ! b) i_off =
      (if b + 1 = blocks_required TYPE('b) stop then Some (stop, None)
       else if \<not> b + 1 < length (vob_vec v) then None
       else bits_scan f v stop (b + 1) (vob_vec v ! (b + 1)) 0)"
      using False by (simp add: bits_scan.simps [of f v stop b] d(2) w_def [symmetric] tz_def [symmetric] L_def [symmetric])
    show ?thesis
    proof (cases "b + 1 = blocks_required TYPE('b) stop")
      case True
      then have "stop \<le> (b + 1) * L" using blocks_cover [OF d(1), of stop] by (simp add: L_def)
      then have "\<forall>j. i \<le> j \<longrightarrow> j < stop \<longrightarrow> \<not> hit_of f v j" using out by (meson less_le_trans)
      then show ?thesis using True step by auto
    next
      case more: False
      then have lt: "(b + 1) * L < stop" using bs less_blocks_iff [OF d(1), of "b + 1" stop] by (simp add: L_def)
      have len: "b + 1 < length (vob_vec v)"
        using less_blocks_iff [OF d(1), of "b + 1" "vob_len v"] lt stop d(4) by (simp add: L_def)
      obtain start r where r: "bits_scan f v stop (b + 1) (vob_vec v ! (b + 1)) 0 = Some (start, r)"
        "case r of None \<Rightarrow> \<forall>j. (b + 1) * L \<le> j \<longrightarrow> j < stop \<longrightarrow> \<not> hit_of f v j
         | Some k \<Rightarrow> (b + 1) * L \<le> k \<and> k < stop \<and> hit_of f v k \<and>
             (\<forall>j. (b + 1) * L \<le> j \<longrightarrow> j < k \<longrightarrow> \<not> hit_of f v j) \<and> start = k + 1"
      proof -
        have "length (vob_vec v) - (b + 1) < length (vob_vec v) - b" "(b + 1) * LENGTH('b) + 0 < stop"
          using len lt by (simp_all add: L_def)
        from less.hyps [OF this(1) len_gt_0 this(2), of "(b + 1) * L"] show ?thesis
          using that unfolding L_def add_0_right by blast
      qed
      have "i \<le> (b + 1) * L" using i by simp
      then show ?thesis
        using r step more len out by (cases r) (auto simp: not_less intro: le_trans, (metis not_less)+)
    qed
  qed
qed

lemma gbit_hit: "gbit (vob_vec v) = hit_of (\<lambda>x. x) v"
  by (rule ext) (simp add: gbit_def hit_of_def)

interpretation si: bit_search vob_ok vob_len "\<lambda>v. gbit (vob_vec v)" iter_set_bits_next
proof
  fix i stop and v :: "'b::len word vob"
  show "\<not> i < stop \<Longrightarrow> iter_set_bits_next v (i, stop) = Some ((i, stop), None)"
    by (simp add: iter_set_bits_next_def)
  assume a: "vob_ok v" "i < stop" "stop \<le> vob_len v"
  note d = vob_okD [OF a(1)]
  have b: "i div LENGTH('b) < length (vob_vec v)" using a(2,3) block_of_bit [OF d(1), of i "vob_len v"] d(4) by simp
  define blk where "blk = vob_vec v ! (i div LENGTH('b))"
  have full: "gbit (vob_vec v) i" if "blk = NOT 0" using that by (simp add: gbit_def blk_def bit_not_iff_eq)
  show "\<exists>start r. iter_set_bits_next v (i, stop) = Some ((start, stop), r) \<and>
      (case r of None \<Rightarrow> \<forall>j. i \<le> j \<longrightarrow> j < stop \<longrightarrow> \<not> gbit (vob_vec v) j
       | Some k \<Rightarrow> i \<le> k \<and> k < stop \<and> gbit (vob_vec v) k \<and> (\<forall>j. i \<le> j \<longrightarrow> j < k \<longrightarrow> \<not> gbit (vob_vec v) j) \<and> start = k + 1)"
  proof (cases "blk = NOT 0")
    case True
    then show ?thesis using a(2) b full
      by (auto simp: iter_set_bits_next_def vec_at_def d(2) block_offset_def blk_def [symmetric])
  next
    case False
    then show ?thesis
      using a(2) b bits_scan_spec [OF a(1,3), of "i mod LENGTH('b)" "i div LENGTH('b)" i "\<lambda>x. x"] unfolding gbit_hit
      by (auto simp: iter_set_bits_next_def vec_at_def d(2) block_offset_def blk_def)
  qed
qed

interpretation ui: bit_search vob_ok vob_len "\<lambda>v j. \<not> gbit (vob_vec v) j" iter_unset_bits_next
proof
  fix i stop and v :: "'b::len word vob"
  show "\<not> i < stop \<Longrightarrow> iter_unset_bits_next v (i, stop) = Some ((i, stop), None)"
    by (simp add: iter_unset_bits_next_def)
  assume a: "vob_ok v" "i < stop" "stop \<le> vob_len v"
  note d = vob_okD [OF a(1)]
  have b: "i div LENGTH('b) < length (vob_vec v)" using a(2,3) block_of_bit [OF d(1), of i "vob_len v"] d(4) by simp
  define blk where "blk = vob_vec v ! (i div LENGTH('b))"
  have empty: "\<not> gbit (vob_vec v) i" if "blk = 0" using that by (simp add: gbit_def blk_def)
  have hit: "hit_of NOT v = (\<lambda>j. \<not> gbit (vob_vec v) j)"
    using mod_LENGTH [where 'b = 'b] by (intro ext) (simp add: hit_of_def gbit_def bit_not_iff_eq not_le)
  show "\<exists>start r. iter_unset_bits_next v (i, stop) = Some ((start, stop), r) \<and>
      (case r of None \<Rightarrow> \<forall>j. i \<le> j \<longrightarrow> j < stop \<longrightarrow> \<not> \<not> gbit (vob_vec v) j
       | Some k \<Rightarrow> i \<le> k \<and> k < stop \<and> \<not> gbit (vob_vec v) k \<and>
           (\<forall>j. i \<le> j \<longrightarrow> j < k \<longrightarrow> \<not> \<not> gbit (vob_vec v) j) \<and> start = k + 1)"
  proof (cases "blk = 0")
    case True
    then show ?thesis using a(2) b empty
      by (auto simp: iter_unset_bits_next_def vec_at_def d(2) block_offset_def blk_def [symmetric])
  next
    case False
    then show ?thesis
      using a(2) b bits_scan_spec [OF a(1,3), of "i mod LENGTH('b)" "i div LENGTH('b)" i NOT] unfolding hit
      by (auto simp: iter_unset_bits_next_def vec_at_def d(2) block_offset_def blk_def)
  qed
qed

lemma process_range_bounds:
  "process_range lo hi v = (i, stop) \<Longrightarrow> stop \<le> vob_len v"
  by (auto simp: process_range_def Let_def split: bound.splits)

lemma iter_bits_spec:
  assumes "vob_ok v" "process_range lo hi v = (i, stop)"
  shows "iter_set_bits lo hi v = Some (filter (\<lambda>j. bits v ! j) [i..<stop])"
    "iter_unset_bits lo hi v = Some (filter (\<lambda>j. \<not> bits v ! j) [i..<stop])"
  using si.collects [OF assms(1), of stop i] ui.collects [OF assms(1), of stop i] process_range_bounds [OF assms(2)]
  by (auto simp: iter_set_bits_def iter_unset_bits_def assms(2) intro: filter_cong)

end
