(* ===== verification/Vob_Range.thy ===== *)
theory Vob_Range
  imports Vob_Spec
begin

text \<open>
  The functions of \<open>src/deps/vob/src/lib.rs\<close> that write a whole range of bits, and the
  vectors made from bytes. A range that starts at a block boundary is written correctly
  (with the exception of a panic when it ends with the last block); one that starts inside
  a block is not.
\<close>

subsection \<open>Writing a range\<close>

lemma fill_blocks_spec:
  "i + n \<le> length vec \<Longrightarrow>
    fill_blocks x i n vec = Some (map (\<lambda>j. if i \<le> j \<and> j < i + n then x else vec ! j) [0..<length vec])"
proof (induction n arbitrary: i vec)
  case 0
  then show ?case by (auto intro!: nth_equalityI)
next
  case (Suc n)
  have "fill_blocks x i (Suc n) vec = fill_blocks x (i + 1) n (vec[i := x])"
    using Suc.prems by (simp add: vec_set_def)
  also have "\<dots> = Some (map (\<lambda>j. if i \<le> j \<and> j < i + Suc n then x else vec ! j) [0..<length vec])"
    using Suc.prems by (subst Suc.IH) (auto simp: nth_list_update intro!: nth_equalityI)
  finally show ?case .
qed

lemma lex_less: "m < L \<Longrightarrow> r < L \<Longrightarrow> q * L + m < p * L + r \<longleftrightarrow> q < p \<or> q = p \<and> m < (r::nat)"
proof -
  assume a: "m < L" "r < L"
  have "q * L + m < p * L + r" if "q < p"
  proof -
    have "(q + 1) * L \<le> p * L" using that by (intro mult_le_mono1) simp
    then show ?thesis using a by simp
  qed
  moreover have "\<not> q * L + m < p * L + r" if "p < q"
  proof -
    have "(p + 1) * L \<le> q * L" using that by (intro mult_le_mono1) simp
    then show ?thesis using a by simp
  qed
  ultimately show ?thesis by (cases "q = p") (auto simp: neq_iff)
qed

lemma in_range_iff:
  "r < L \<Longrightarrow> a * L \<le> j \<and> j < a * L + (n * L + r) \<longleftrightarrow>
    a \<le> j div L \<and> (j div L < a + n \<or> j div L = a + n \<and> j mod L < (r::nat))"
proof -
  assume r: "r < L"
  have "j < a * L + (n * L + r) \<longleftrightarrow> j div L * L + j mod L < (a + n) * L + r"
    by (simp add: add_mult_distrib add.assoc)
  moreover have "a * L \<le> j \<longleftrightarrow> a \<le> j div L" using r by (simp add: less_eq_div_iff_mult_less_eq)
  ultimately show ?thesis using lex_less [of "j mod L" L r "j div L" "a + n"] r by simp
qed

text \<open>A vector whose bits changed in a range only.\<close>

definition write_range :: "nat \<Rightarrow> nat \<Rightarrow> bool \<Rightarrow> bool list \<Rightarrow> bool list" where
  "write_range start stop b xs = map (\<lambda>j. if start \<le> j \<and> j < stop then b else xs ! j) [0..<length xs]"

lemma write_range_vob:
  fixes v :: "'b::len word vob"
  assumes ok: "vob_ok v" and stop: "stop \<le> vob_len v" and len: "length vec = length (vob_vec v)"
    and g: "\<And>j. j < length vec * LENGTH('b) \<Longrightarrow> gbit vec j = (if start \<le> j \<and> j < stop then b else gbit (vob_vec v) j)"
  shows "vob_ok (v\<lparr>vob_vec := vec\<rparr>)" "bits (v\<lparr>vob_vec := vec\<rparr>) = write_range start stop b (bits v)"
proof -
  note d = vob_okD [OF ok]
  have cover: "vob_len v \<le> length vec * LENGTH('b)" using blocks_cover [OF d(1), of "vob_len v"] d(4) len by simp
  show "vob_ok (v\<lparr>vob_vec := vec\<rparr>)" using ok stop len g by (auto simp: vob_ok_def)
  show "bits (v\<lparr>vob_vec := vec\<rparr>) = write_range start stop b (bits v)"
    by (rule bits_eqI) (use cover g in \<open>auto simp: write_range_def\<close>)
qed

text \<open>The blocks after a write that starts at the boundary of block \<open>a\<close>: \<open>n\<close> whole blocks, and
  the low \<open>r\<close> bits of the next one.\<close>

lemma gbit_blocks_written:
  fixes vec :: "'b::len word list"
  assumes r: "r < LENGTH('b)" and a: "a + n + (if r = 0 then 0 else 1) \<le> length vec"
    and x: "\<And>m. m < LENGTH('b) \<Longrightarrow> bit x m = b"
    and y: "\<And>m. r \<noteq> 0 \<Longrightarrow> m < LENGTH('b) \<Longrightarrow> bit y m = (if m < r then b else bit (vec ! (a + n)) m)"
    and j: "j < length vec * LENGTH('b)"
  defines "vec1 \<equiv> map (\<lambda>k. if a \<le> k \<and> k < a + n then x else vec ! k) [0..<length vec]"
  shows "gbit (if r = 0 then vec1 else vec1[a + n := y]) j =
    (if a * LENGTH('b) \<le> j \<and> j < a * LENGTH('b) + (n * LENGTH('b) + r) then b else gbit vec j)"
proof -
  have q: "j div LENGTH('b) < length vec" using j by (simp add: in_blocks)
  show ?thesis
    unfolding in_range_iff [OF r] using q a x y
    by (auto simp: vec1_def gbit_def nth_list_update split: if_splits)
qed

text \<open>The quantities of a range that starts at a block boundary.\<close>

lemma aligned_range:
  fixes v :: "'b::len word vob"
  assumes ok: "vob_ok v" and rg: "process_range lo hi v = (start, stop)" "start < stop" "LENGTH('b) dvd start"
  defines "a \<equiv> start div LENGTH('b)" and "n \<equiv> (stop - start) div LENGTH('b)" and "r \<equiv> (stop - start) mod LENGTH('b)"
  shows "start = a * LENGTH('b)" "stop - start = n * LENGTH('b) + r" "stop = a * LENGTH('b) + (n * LENGTH('b) + r)"
    "r < LENGTH('b)" "n = 0 \<Longrightarrow> r \<noteq> 0" "a + n + (if r = 0 then 0 else 1) \<le> length (vob_vec v)" "a < length (vob_vec v)"
    "stop \<le> vob_len v"
proof -
  note d = vob_okD [OF ok]
  show e: "start = a * LENGTH('b)" "stop - start = n * LENGTH('b) + r" "r < LENGTH('b)"
    using rg(3) by (simp_all add: a_def n_def r_def)
  then show s: "stop = a * LENGTH('b) + (n * LENGTH('b) + r)" using rg(2) by linarith
  show z: "n = 0 \<Longrightarrow> r \<noteq> 0" using e(2) rg(2) by auto
  show le: "stop \<le> vob_len v" using process_range_bounds [OF rg(1)] .
  have "a + n + (if r = 0 then 0 else 1) = blocks_required TYPE('b) stop"
    using e(3) by (simp add: s blocks_required_def d(2) flip: add.assoc add_mult_distrib)
  then show l: "a + n + (if r = 0 then 0 else 1) \<le> length (vob_vec v)"
    unfolding d(4) using blocks_required_le_iff [OF d(1), of stop] blocks_cover [OF d(1), of "vob_len v"] le
    by (metis le_trans)
  then show "a < length (vob_vec v)" using z by (cases "n = 0") auto
qed

lemma aligned_quantities:
  fixes v :: "'b::len word vob"
  assumes ok: "vob_ok v" and rg: "process_range lo hi v = (start, stop)" "start < stop" "LENGTH('b) dvd start"
  defines "a \<equiv> start div LENGTH('b)" and "n \<equiv> (stop - start) div LENGTH('b)" and "r \<equiv> (stop - start) mod LENGTH('b)"
  shows "block_offset TYPE('b) start = a" "start mod LENGTH('b) = 0"
    "min (LENGTH('b)) (stop - start) = (if n = 0 then r else LENGTH('b))"
    "(stop - start - LENGTH('b)) div LENGTH('b) = n - 1"
    "usize_sub (usize_sub (stop - start) (LENGTH('b))) ((n - 1) * LENGTH('b)) = (if n = 0 then usize_sub (usize_sub r (LENGTH('b))) 0 else r)"
    "usize_sub (usize_sub (stop - start) r) 0 = n * LENGTH('b)"
    "stop - start - r = n * LENGTH('b)"
proof -
  note d = vob_okD [OF ok]
  note g = aligned_range [OF ok rg, folded a_def n_def r_def]
  have lt: "stop - start < 2 ^ 64" using g(8) d(3) by linarith
  show "block_offset TYPE('b) start = a" "start mod LENGTH('b) = 0"
    using rg(3) by (simp_all add: block_offset_def d(2) a_def)
  show "min (LENGTH('b)) (stop - start) = (if n = 0 then r else LENGTH('b))"
    using g(2,4) by (cases n) (auto simp: min_def)
  show "(stop - start - LENGTH('b)) div LENGTH('b) = n - 1"
    using g(2,4) by (cases n) simp_all
  show "stop - start - r = n * LENGTH('b)" using g(2) by simp
  then show "usize_sub (usize_sub (stop - start) r) 0 = n * LENGTH('b)" using g(2) lt by (simp add: usize_sub_le)
  show "usize_sub (usize_sub (stop - start) (LENGTH('b))) ((n - 1) * LENGTH('b)) =
    (if n = 0 then usize_sub (usize_sub r (LENGTH('b))) 0 else r)"
  proof (cases n)
    case (Suc k)
    have "usize_sub (stop - start) (LENGTH('b)) = k * LENGTH('b) + r"
      using g(2) lt Suc usize_sub_le [of "LENGTH('b)" "stop - start"] by simp
    moreover have "usize_sub (k * LENGTH('b) + r) (k * LENGTH('b)) = r"
      using g(2) lt Suc usize_sub_le [of "k * LENGTH('b)" "k * LENGTH('b) + r"] by simp
    ultimately show ?thesis using Suc by simp
  qed (use g(2) in simp)
qed

lemma fill_blocks_from:
  "a + n \<le> length vec \<Longrightarrow> n \<noteq> 0 \<Longrightarrow> a < length vec \<Longrightarrow>
    fill_blocks x (a + 1) (n - 1) (vec[a := x]) =
      Some (map (\<lambda>j. if a \<le> j \<and> j < a + n then x else vec ! j) [0..<length vec])"
  using fill_blocks_spec [of a n vec x] by (cases n) (simp_all add: vec_set_def)

lemma map_unwritten: "map (\<lambda>j. if a \<le> j \<and> j < a then x else vec ! j) [0..<length vec] = vec"
  by (rule nth_equalityI) auto

lemma clear_bit_range_spec:
  fixes v :: "'b::len word vob"
  assumes ok: "vob_ok v" and rg: "process_range lo hi v = (start, stop)" "start < stop" "LENGTH('b) dvd start"
  shows "\<exists>v'. clear_bit_range lo hi v = Some v' \<and> vob_ok v' \<and> bits v' = write_range start stop False (bits v)"
proof -
  note d = vob_okD [OF ok]
  define L where "L = LENGTH('b)"
  define a n r where "a = start div L" and "n = (stop - start) div L" and "r = (stop - start) mod L"
  note g = aligned_range [OF ok rg, folded L_def, folded a_def n_def r_def]
  note q = rg(1) d(2) [folded L_def] aligned_quantities [OF ok rg, folded L_def, folded a_def n_def r_def]
  define vec1 where "vec1 = map (\<lambda>k. if a \<le> k \<and> k < a + n then 0 else vob_vec v ! k) [0..<length (vob_vec v)]"
  define y where "y = vob_vec v ! (a + n) AND NOT (wrapping_shl 1 r - 1)"
  define vec where "vec = (if r = 0 then vec1 else vec1[a + n := y])"
  have y: "bit y m = (if m < r then False else bit (vob_vec v ! (a + n)) m)" if "m < L" for m
    using that g(4) by (simp add: y_def bit_and_iff bit_not_iff_eq bit_low_mask L_def del: wrapping_shl_less)
  have "gbit vec j = (if start \<le> j \<and> j < stop then False else gbit (vob_vec v) j)" if "j < length vec * LENGTH('b)" for j
    using gbit_blocks_written [of r a n "vob_vec v" 0 False y j] g y that
    by (simp add: vec_def vec1_def L_def split: if_splits)
  then have "vob_ok (v\<lparr>vob_vec := vec\<rparr>)" "bits (v\<lparr>vob_vec := vec\<rparr>) = write_range start stop False (bits v)"
    using write_range_vob [OF ok g(8), of vec start False] by (simp_all add: vec_def vec1_def)
  moreover have "clear_bit_range lo hi v = Some (v\<lparr>vob_vec := vec\<rparr>)"
  proof (cases "n = 0")
    case True
    have "vec = (vob_vec v)[a := 0 OR (vob_vec v ! a AND (wrapping_shl 1 0 - 1)) OR (vob_vec v ! a AND NOT (wrapping_shl 1 r - 1))]"
      using True g(5) map_unwritten [of a 0 "vob_vec v"] by (simp add: vec_def vec1_def y_def)
    then show ?thesis
      using True g q by (simp add: clear_bit_range_def vec_at_def vec_set_def)
  next
    case False
    have "fill_blocks 0 (a + 1) (n - 1) ((vob_vec v)[a := 0]) = Some vec1"
      using fill_blocks_from [OF _ False g(7), of 0] g(6) by (simp add: vec1_def split: if_splits)
    then show ?thesis
      using False g q by (cases "r = 0") (simp_all add: clear_bit_range_def vec_at_def vec_set_def vec_def vec1_def y_def Let_def)
  qed
  ultimately show ?thesis by blast
qed

text \<open>Setting a range counts the bits that remain with a factor too many: after at least one
  whole middle block, the count wraps around. Its low bits are still those of the right
  count, so the last block is written correctly, but a count that should be zero is not,
  and the block behind the range is accessed.\<close>

lemma usize_sub_wrapped:
  assumes "n \<noteq> 0" "n * 64 + r < 2 ^ 60" "r < 64"
  shows "usize_sub (usize_sub (n * 64 + r) 64) (8 * (n - 1) * 64) mod 64 = r"
    "n \<noteq> 1 \<Longrightarrow> usize_sub (usize_sub (n * 64 + r) 64) (8 * (n - 1) * 64) \<noteq> 0"
    "n = 1 \<Longrightarrow> usize_sub (usize_sub (n * 64 + r) 64) (8 * (n - 1) * 64) = r"
proof -
  obtain k where k: "n = Suc k" using assms(1) by (cases n) auto
  have 1: "usize_sub (n * 64 + r) 64 = k * 64 + r"
    using usize_sub_le [of 64 "n * 64 + r"] assms(2) k by simp
  have 2: "usize_sub (k * 64 + r) (8 * k * 64) = (if k = 0 then r else k * 64 + r + 2 ^ 64 - 8 * k * 64)"
  proof (cases "k = 0")
    case False
    then have "k * 64 + r + 2 ^ 64 - 8 * k * 64 < 2 ^ 64" using assms(2,3) k by simp
    then show ?thesis using False assms(2) k by (simp add: usize_sub_def)
  qed (use usize_sub_le [of 0 r] assms(3) in simp)
  show "n = 1 \<Longrightarrow> usize_sub (usize_sub (n * 64 + r) 64) (8 * (n - 1) * 64) = r"
    using 1 2 k by simp
  show "n \<noteq> 1 \<Longrightarrow> usize_sub (usize_sub (n * 64 + r) 64) (8 * (n - 1) * 64) \<noteq> 0"
    using 1 2 k assms(2,3) by simp
  have "k * 64 + r + 2 ^ 64 - 8 * k * 64 = (2 ^ 58 - 7 * k) * 64 + r" using assms(2) k by simp
  then have "(k * 64 + r + 2 ^ 64 - 8 * k * 64) mod 64 = r" using assms(3) by (simp only: mod_mult_self3 mod_less)
  then show "usize_sub (usize_sub (n * 64 + r) 64) (8 * (n - 1) * 64) mod 64 = r"
    using 1 2 k assms(3) by simp
qed

text \<open>After the whole blocks, the last block is written, if there are bits to count there.\<close>

lemma set_bit_range_blocks:
  fixes v :: "u64 vob"
  assumes ok: "vob_ok v" and rg: "process_range lo hi v = (start, stop)" "start < stop" "64 dvd start"
    and small: "vob_len v < 2 ^ 60"
  defines "a \<equiv> start div 64" and "n \<equiv> (stop - start) div 64" and "r \<equiv> (stop - start) mod 64"
  defines "vec1 \<equiv> map (\<lambda>k. if a \<le> k \<and> k < a + n then NOT 0 else vob_vec v ! k) [0..<length (vob_vec v)]"
  assumes n: "n \<noteq> 0"
  shows "set_bit_range lo hi v =
    (if r = 0 \<and> n = 1 then Some (v\<lparr>vob_vec := vec1\<rparr>)
     else if a + n < length (vob_vec v)
     then Some (v\<lparr>vob_vec := vec1[a + n := vob_vec v ! (a + n) OR (wrapping_shl 1 r - 1)]\<rparr>)
     else None)"
proof -
  have L: "LENGTH(64) = 64" and dvd: "LENGTH(64) dvd start" using rg(3) by simp_all
  note d = vob_okD(2) [OF ok, unfolded L]
  note g = aligned_range [OF ok rg(1,2) dvd, unfolded L, folded a_def n_def r_def]
  note q = aligned_quantities [OF ok rg(1,2) dvd, unfolded L, folded a_def n_def r_def]
  define rem where "rem = usize_sub (usize_sub (n * 64 + r) 64) (8 * (n - 1) * 64)"
  have lt: "n * 64 + r < 2 ^ 60" using g(3,8) small by linarith
  note u = usize_sub_wrapped [OF n lt g(4), folded rem_def]
  have shl: "wrapping_shl (1 :: u64) rem = wrapping_shl 1 r"
    using u(1) g(4) by (simp only: wrapping_shl_def L mod_less)
  have z: "r = 0 \<and> n = 1 \<longleftrightarrow> rem = 0" using u(2,3) by auto
  have rem: "usize_sub (usize_sub (n * 64 + r) 64) (512 * (n - Suc 0)) = rem" by (simp add: rem_def mult.commute)
  have "fill_blocks (NOT 0) (a + 1) (n - 1) ((vob_vec v)[a := NOT 0]) = Some vec1"
    using fill_blocks_from [OF _ n g(7), of "NOT 0"] g(6) by (simp add: vec1_def split: if_splits)
  moreover have "vec1 ! (a + n) = vob_vec v ! (a + n)" "length vec1 = length (vob_vec v)" if "a + n < length (vob_vec v)"
    using that by (simp_all add: vec1_def)
  ultimately show ?thesis
    unfolding z using n g(2,7) q(1-4) rg(1) shl d rem
    by (cases "rem = 0"; cases "a + n < length (vob_vec v)")
      (simp_all add: set_bit_range_def vec_at_def vec_set_def Let_def vec1_def del: wrapping_shl_less diff_diff_left)
qed

lemma set_bit_range_within_block:
  fixes v :: "'b::len word vob"
  assumes ok: "vob_ok v" and rg: "process_range lo hi v = (start, stop)" "start \<le> stop" "start < vob_len v"
    and fits: "start mod LENGTH('b) + (stop - start) < LENGTH('b)"
  shows "set_bit_range lo hi v =
    Some (v\<lparr>vob_vec := (vob_vec v)[start div LENGTH('b) :=
      (NOT 0 AND NOT (wrapping_shl 1 (start mod LENGTH('b)) - 1) AND (wrapping_shl 1 (stop - start) - 1)) OR
      (vob_vec v ! (start div LENGTH('b)) AND (wrapping_shl 1 (start mod LENGTH('b)) - 1)) OR
      (vob_vec v ! (start div LENGTH('b)) AND NOT (wrapping_shl 1 (stop - start) - 1))]\<rparr>)"
proof -
  note d = vob_okD [OF ok]
  have a: "start div LENGTH('b) < length (vob_vec v)" using block_of_bit [OF d(1) rg(3)] d(4) by simp
  have m: "min (LENGTH('b) - start mod LENGTH('b)) (stop - start) = stop - start" "stop - start \<noteq> LENGTH('b)"
    using fits by simp_all
  have u: "usize_sub (usize_sub (stop - start) (stop - start)) 0 = 0"
    using usize_sub_le [of "stop - start" "stop - start"] process_range_bounds [OF rg(1)] d(3) by (simp add: usize_sub_def)
  show ?thesis
    using a m u rg(1) d(2)
    by (simp add: set_bit_range_def block_offset_def vec_at_def vec_set_def Let_def del: wrapping_shl_less)
qed

text \<open>A range inside one block that is not longer than its offset in the block is not written at all.\<close>

lemma set_bit_range_noop:
  fixes v :: "'b::len word vob"
  assumes ok: "vob_ok v" and rg: "process_range lo hi v = (start, stop)" "start \<le> stop" "start < vob_len v"
    and fits: "start mod LENGTH('b) + (stop - start) < LENGTH('b)" and short: "stop - start \<le> start mod LENGTH('b)"
  shows "set_bit_range lo hi v = Some v"
proof -
  define k m where "k = start mod LENGTH('b)" and "m = stop - start"
  define x where "x = vob_vec v ! (start div LENGTH('b))"
  have lt: "k < LENGTH('b)" "m < LENGTH('b)" "m \<le> k" using fits short by (auto simp: k_def m_def)
  have "(NOT 0 AND NOT (wrapping_shl 1 k - 1) AND (wrapping_shl 1 m - 1)) OR
      (x AND (wrapping_shl 1 k - 1)) OR (x AND NOT (wrapping_shl 1 m - 1)) = x"
    by (rule bit_word_eqI)
      (use lt in \<open>auto simp: bit_or_iff bit_and_iff bit_not_iff_eq bit_low_mask not_less simp del: wrapping_shl_less\<close>)
  then show ?thesis
    using set_bit_range_within_block [OF ok rg fits] unfolding k_def m_def x_def by simp
qed

lemma set_bit_range_spec:
  fixes v :: "u64 vob"
  assumes ok: "vob_ok v" and rg: "process_range lo hi v = (start, stop)" "start < stop" "64 dvd start"
    and small: "vob_len v < 2 ^ 60"
    and last: "128 \<le> stop - start \<Longrightarrow> 64 dvd stop \<Longrightarrow> stop < vob_len v"
  shows "\<exists>v'. set_bit_range lo hi v = Some v' \<and> vob_ok v' \<and> bits v' = write_range start stop True (bits v)"
proof -
  have L: "LENGTH(64) = 64" and dvd: "LENGTH(64) dvd start" using rg(3) by simp_all
  note d = vob_okD [OF ok, unfolded L]
  define a n r where "a = start div 64" and "n = (stop - start) div 64" and "r = (stop - start) mod 64"
  note g = aligned_range [OF ok rg(1,2) dvd, unfolded L, folded a_def n_def r_def]
  define vec1 where "vec1 = map (\<lambda>k. if a \<le> k \<and> k < a + n then NOT 0 else vob_vec v ! k) [0..<length (vob_vec v)]"
  define y where "y = vob_vec v ! (a + n) OR (wrapping_shl 1 r - 1)"
  define vec where "vec = (if r = 0 then vec1 else vec1[a + n := y])"
  have y: "bit y m = (if m < r then True else bit (vob_vec v ! (a + n)) m)" if "m < 64" for m
    using that g(4) by (simp add: y_def bit_or_iff bit_low_mask del: wrapping_shl_less)
  have "gbit vec j = (if start \<le> j \<and> j < stop then True else gbit (vob_vec v) j)" if "j < length vec * 64" for j
    using gbit_blocks_written [of r a n "vob_vec v" "NOT 0" True y j] g y that
    by (simp add: vec_def vec1_def bit_not_iff_eq split: if_splits)
  then have "vob_ok (v\<lparr>vob_vec := vec\<rparr>)" "bits (v\<lparr>vob_vec := vec\<rparr>) = write_range start stop True (bits v)"
    using write_range_vob [OF ok g(8), of vec start True] by (simp_all add: vec_def vec1_def)
  moreover have "set_bit_range lo hi v = Some (v\<lparr>vob_vec := vec\<rparr>)"
  proof (cases "n = 0")
    case True
    have fits: "start mod LENGTH(64) + (stop - start) < LENGTH(64)" using True g(2,4) rg(3) by simp
    have "y = (NOT 0 AND NOT (wrapping_shl 1 0 - 1) AND (wrapping_shl 1 r - 1)) OR
      (vob_vec v ! a AND (wrapping_shl 1 0 - 1)) OR (vob_vec v ! a AND NOT (wrapping_shl 1 r - 1))"
      by (rule bit_word_eqI)
        (use True g(4) in \<open>auto simp: y_def bit_or_iff bit_and_iff bit_not_iff_eq bit_low_mask simp del: wrapping_shl_less\<close>)
    moreover have s: "start mod LENGTH(64) = 0" "start div LENGTH(64) = a" "stop - start = r"
      using rg(3) True g(2) by (simp_all add: a_def)
    moreover have "vec = (vob_vec v)[a := y]"
      using True g(5) map_unwritten [of a "NOT 0" "vob_vec v"] by (simp add: vec_def vec1_def)
    moreover have "start \<le> stop" "start < vob_len v" using rg(2) g(8) by linarith+
    ultimately show ?thesis using set_bit_range_within_block [OF ok rg(1) _ _ fits] by (simp only: s)
  next
    case False
    have "a + n < length (vob_vec v)" if "\<not> (r = 0 \<and> n = 1)"
    proof (cases "r = 0")
      case True
      then have "128 \<le> stop - start" "stop = (a + n) * 64" using that g(1,2,3) False by auto
      then have "(a + n) * LENGTH(64) < vob_len v" using last by simp
      then show ?thesis using less_blocks_iff [OF vob_okD(1) [OF ok], of "a + n" "vob_len v"] d(4) by simp
    qed (use g(6) in simp)
    moreover have "vec1[a + n := y] = vec1" if "r = 0" "a + n < length (vob_vec v)"
      using that by (simp add: y_def vec1_def list_update_same_conv)
    ultimately show ?thesis
      using set_bit_range_blocks [OF ok rg small, folded a_def n_def r_def, OF False, folded vec1_def] y_def
      by (auto simp: vec_def simp del: wrapping_shl_less)
  qed
  ultimately show ?thesis by blast
qed

lemma set_bit_range_panics:
  fixes v :: "u64 vob"
  assumes ok: "vob_ok v" and rg: "process_range lo hi v = (start, stop)" "start < stop" "64 dvd start"
    and small: "vob_len v < 2 ^ 60" and last: "128 \<le> stop - start" "64 dvd stop" "stop = vob_len v"
  shows "set_bit_range lo hi v = None"
proof -
  have n: "(stop - start) div 64 \<noteq> 0" "(stop - start) div 64 \<noteq> 1" using last(1) by simp_all
  have "length (vob_vec v) = start div 64 + (stop - start) div 64"
    using vob_okD(2,4) [OF ok] last(2,3) rg(2,3) by (auto simp: blocks_required_def dvd_def)
  then show ?thesis using set_bit_range_blocks [OF ok rg small n(1)] n(2) by simp
qed

subsection \<open>Vectors made from bytes\<close>

lemma bit_fold_or:
  "bit (fold (\<lambda>j w. w OR g j) js w) n \<longleftrightarrow> bit w n \<or> (\<exists>j\<in>set js. bit (g j) n)" for w :: "'b::len word"
  by (induction js arbitrary: w) (auto simp: bit_or_iff)

lemma bit_reverse_byte: "bit (reverse_byte b) k \<longleftrightarrow> k < 8 \<and> bit b (7 - k)"
proof -
  have "bit (push_bit (8 - j - 1) (drop_bit j b AND 1)) k \<longleftrightarrow> k = 7 - j \<and> bit b j" if "j < 8" for j
    using that
    by (cases "bit b j") (auto simp: and_one_eq mod_2_eq_odd push_bit_of_1 bit_exp_iff simp flip: bit_iff_odd_drop_bit)
  then have "bit (reverse_byte b) k \<longleftrightarrow> (\<exists>j<8. k = 7 - j \<and> bit b j)"
    unfolding reverse_byte_def bit_fold_or by auto
  also have "\<dots> \<longleftrightarrow> k < 8 \<and> bit b (7 - k)"
  proof
    assume "k < 8 \<and> bit b (7 - k)"
    then have "7 - k < 8 \<and> k = 7 - (7 - k) \<and> bit b (7 - k)" by simp
    then show "\<exists>j<8. k = 7 - j \<and> bit b j" by blast
  qed auto
  finally show ?thesis .
qed

lemma reverse_byte_invol [simp]: "reverse_byte (reverse_byte b) = b"
  by (rule bit_word_eqI) (auto simp: bit_reverse_byte)

lemma bit_from_bytes_block:
  assumes n: "n < 64"
  shows "bit (from_bytes_block bs i) n \<longleftrightarrow>
    i * 8 + n div 8 < length bs \<and> bit (bs ! (i * 8 + n div 8)) (7 - n mod 8)"
proof -
  let ?g = "\<lambda>j. if i * 8 + j \<ge> length bs then 0
    else push_bit (j * 8) (ucast (reverse_byte (bs ! (i * 8 + j)))) :: u64"
  have z: "reverse_byte 0 = 0" by (rule bit_word_eqI) (simp add: bit_reverse_byte)
  have "(\<lambda>j w. let off = i * bytes_per_block TYPE(64) + j in if off \<ge> length bs then w
         else if bs ! off \<noteq> 0 then w OR push_bit (j * 8) (ucast (reverse_byte (bs ! off))) else w) =
    (\<lambda>j w. w OR ?g j)"
    by (intro ext) (simp add: Let_def bytes_per_block_def z)
  then have "bit (from_bytes_block bs i) n \<longleftrightarrow> (\<exists>j<8. bit (?g j) n)"
    unfolding from_bytes_block_def by (simp only: bit_fold_or set_upt bytes_per_block_def) auto
  moreover have "bit (?g j) n \<longleftrightarrow> i * 8 + j < length bs \<and> j = n div 8 \<and> bit (bs ! (i * 8 + j)) (7 - n mod 8)" if "j < 8" for j
  proof -
    have "j * 8 \<le> n \<and> n - j * 8 < 8 \<longleftrightarrow> j = n div 8"
      by (auto simp: less_diff_conv2 dest: div_nat_eqI)
    moreover have "n - j * 8 = n mod 8" if "j = n div 8" using that by (simp add: modulo_nat_def)
    ultimately show ?thesis using n by (auto simp: bit_push_bit_iff bit_ucast_iff bit_reverse_byte)
  qed
  moreover have "n div 8 < 8" using n by simp
  ultimately show ?thesis by blast
qed

lemma block_byte: "i div 64 * 8 + i mod 64 div 8 = i div (8::nat)"
proof -
  have "i div 8 = (i div 64 * 8 * 8 + i mod 64) div 8" by simp
  also have "\<dots> = i div 64 * 8 + i mod 64 div 8" by (rule div_mult_self3) simp
  finally show ?thesis by simp
qed

lemma vob_from_bytes_spec:
  assumes "length bs * 8 < 2 ^ 64"
  obtains v where "vob_from_bytes bs = Some v" "vob_ok v" "vob_len v = length bs * 8"
    "\<And>i. i < length bs * 8 \<Longrightarrow> bits v ! i = bit (bs ! (i div 8)) (7 - i mod 8)"
proof -
  define v where "v = \<lparr>vob_len = length bs * 8, vob_vec = map (from_bytes_block bs) [0..<blocks_required TYPE(64) (length bs * 8)]\<rparr>"
  note e = block_byte mod_mod_cancel [of 8 64]
  have g: "gbit (vob_vec v) i \<longleftrightarrow> i div 8 < length bs \<and> bit (bs ! (i div 8)) (7 - i mod 8)"
    if "i < length (vob_vec v) * 64" for i
    using that by (simp add: gbit_def v_def bit_from_bytes_block e div_less_iff_less_mult)
  have c: "length bs * 8 \<le> length (vob_vec v) * 64"
    using blocks_cover [where 'b = 64, of "length bs * 8"] by (simp add: v_def)
  show ?thesis
  proof
    show "vob_from_bytes bs = Some v" using assms by (simp add: vob_from_bytes_def v_def Let_def)
    show "vob_len v = length bs * 8" by (simp add: v_def)
    show "vob_ok v" using assms g by (auto simp: vob_ok_def v_def)
    show "bits v ! i = bit (bs ! (i div 8)) (7 - i mod 8)" if "i < length bs * 8" for i
      using that g [of i] c by (simp add: v_def div_less_iff_less_mult)
  qed
qed

end
