(* ===== verification/Vob_Ops.thy ===== *)
theory Vob_Ops
  imports Vob_Range
begin

text \<open>
  The contract of the vectors of bits: a program that uses one cannot tell it from a list of
  Booleans, panics included. The operations are collected in a data type so that the
  statement is about sequences of them.
\<close>

subsection \<open>Operations and their meaning on lists\<close>

datatype 'w vob_op =
    Push bool
  | Pop
  | Set nat bool
  | Truncate nat
  | Extend_Slice "bool list"
  | Extend_Vob "'w vob"
  | Clear
  | Set_All bool
  | Negate
  | And "'w vob"
  | Or "'w vob"
  | Xor "'w vob"

fun op_ok :: "'b::len word vob_op \<Rightarrow> bool" where
  "op_ok (Extend_Vob w) = vob_ok w"
| "op_ok (And w) = vob_ok w"
| "op_ok (Or w) = vob_ok w"
| "op_ok (Xor w) = vob_ok w"
| "op_ok _ = True"

text \<open>The new vector and what the call returns.\<close>

fun vob_apply :: "'b::len word vob_op \<Rightarrow> 'b word vob \<Rightarrow> ('b word vob \<times> bool option) option" where
  "vob_apply (Push b) v = map_option (\<lambda>v. (v, None)) (vob_push b v)"
| "vob_apply Pop v = vob_pop v"
| "vob_apply (Set i b) v = map_option (\<lambda>(v, c). (v, Some c)) (vob_set i b v)"
| "vob_apply (Truncate n) v = map_option (\<lambda>v. (v, None)) (vob_truncate n v)"
| "vob_apply (Extend_Slice bs) v = map_option (\<lambda>v. (v, None)) (vob_extend_from_slice bs v)"
| "vob_apply (Extend_Vob w) v = map_option (\<lambda>v. (v, None)) (vob_extend_from_vob w v)"
| "vob_apply Clear v = Some (vob_clear v, None)"
| "vob_apply (Set_All b) v = map_option (\<lambda>v. (v, None)) (vob_set_all b v)"
| "vob_apply Negate v = map_option (\<lambda>v. (v, None)) (vob_negate v)"
| "vob_apply (And w) v = map_option (\<lambda>(v, c). (v, Some c)) (vob_and w v)"
| "vob_apply (Or w) v = map_option (\<lambda>(v, c). (v, Some c)) (vob_or w v)"
| "vob_apply (Xor w) v = map_option (\<lambda>(v, c). (v, Some c)) (vob_xor w v)"

text \<open>A list that cannot get longer than an index can express.\<close>

definition grow :: "bool list \<Rightarrow> bool list \<Rightarrow> (bool list \<times> bool option) option" where
  "grow xs ys = (if length xs + length ys < 2 ^ 64 then Some (xs @ ys, None) else None)"

definition combine :: "(bool \<Rightarrow> bool \<Rightarrow> bool) \<Rightarrow> bool list \<Rightarrow> bool list \<Rightarrow> (bool list \<times> bool option) option" where
  "combine p xs ys = (if length xs = length ys then Some (map2 p xs ys, Some (map2 p xs ys \<noteq> xs)) else None)"

fun list_apply :: "'b::len word vob_op \<Rightarrow> bool list \<Rightarrow> (bool list \<times> bool option) option" where
  "list_apply (Push b) xs = grow xs [b]"
| "list_apply Pop xs = Some (butlast xs, if xs = [] then None else Some (last xs))"
| "list_apply (Set i b) xs = (if i < length xs then Some (xs[i := b], Some (xs ! i \<noteq> b)) else None)"
| "list_apply (Truncate n) xs = Some (take n xs, None)"
| "list_apply (Extend_Slice bs) xs = grow xs bs"
| "list_apply (Extend_Vob w) xs = grow xs (bits w)"
| "list_apply Clear xs = Some ([], None)"
| "list_apply (Set_All b) xs = Some (replicate (length xs) b, None)"
| "list_apply Negate xs = Some (map Not xs, None)"
| "list_apply (And w) xs = combine (\<and>) xs (bits w)"
| "list_apply (Or w) xs = combine (\<or>) xs (bits w)"
| "list_apply (Xor w) xs = combine (\<noteq>) xs (bits w)"

subsection \<open>Simulation\<close>

fun run :: "('op \<Rightarrow> 's \<Rightarrow> ('s \<times> 'out) option) \<Rightarrow> 'op list \<Rightarrow> 's \<Rightarrow> ('s \<times> 'out list) option" where
  "run step [] s = Some (s, [])"
| "run step (op # ops) s = do {
     (s, out) \<leftarrow> step op s;
     (s, outs) \<leftarrow> run step ops s;
     Some (s, out # outs)
   }"

text \<open>An implementation whose every step is the step of its abstraction.\<close>

locale functional_refinement =
  fixes inv :: "'s \<Rightarrow> bool" and abs :: "'s \<Rightarrow> 'a" and valid :: "'op \<Rightarrow> bool"
    and step :: "'op \<Rightarrow> 's \<Rightarrow> ('s \<times> 'out) option" and spec :: "'op \<Rightarrow> 'a \<Rightarrow> ('a \<times> 'out) option"
  assumes step_refines: "inv s \<Longrightarrow> valid op \<Longrightarrow> map_option (map_prod abs id) (step op s) = spec op (abs s)"
    and step_inv: "inv s \<Longrightarrow> valid op \<Longrightarrow> step op s = Some (s', out) \<Longrightarrow> inv s'"
begin

lemma run_refines:
  "inv s \<Longrightarrow> list_all valid ops \<Longrightarrow> map_option (map_prod abs id) (run step ops s) = run spec ops (abs s)"
proof (induction ops arbitrary: s)
  case (Cons op ops)
  show ?case
  proof (cases "step op s")
    case None
    then show ?thesis using step_refines [of s op] Cons.prems by simp
  next
    case (Some p)
    obtain s' out where p: "p = (s', out)" by (cases p)
    have "spec op (abs s) = Some (abs s', out)" using step_refines [of s op] Cons.prems Some p by simp
    moreover have "inv s'" using step_inv [of s op s' out] Cons.prems Some p by simp
    ultimately show ?thesis
      using Cons.IH [of s', symmetric] Cons.prems Some p by (cases "run step ops s'") auto
  qed
qed simp

lemma run_inv: "inv s \<Longrightarrow> list_all valid ops \<Longrightarrow> run step ops s = Some (s', outs) \<Longrightarrow> inv s'"
proof (induction ops arbitrary: s outs)
  case (Cons op ops)
  then obtain s1 out outs' where "step op s = Some (s1, out)" "run step ops s1 = Some (s', outs')"
    by (auto split: bind_splits)
  then show ?case using Cons.IH [of s1] Cons.prems step_inv [of s op s1 out] by simp
qed simp

end

lemma zip_blocks_apply:
  fixes v w :: "'b::len word vob"
  assumes ok: "vob_ok v" "vob_ok w" "vob_len v = vob_len w"
    and f: "\<And>x y n. bit (f x y) n \<longleftrightarrow> n < LENGTH('b) \<and> p (bit x n) (bit (y :: 'b word) n)" "\<not> p False False"
  shows "\<exists>v'. (case zip_blocks f (vob_vec v) (vob_vec w) of (vec, chngd) \<Rightarrow> Some (v\<lparr>vob_vec := vec\<rparr>, chngd)) =
      Some (v', map2 p (bits v) (bits w) \<noteq> bits v) \<and> vob_ok v' \<and> bits v' = map2 p (bits v) (bits w)"
proof -
  have "length (vob_vec v) = length (vob_vec w)" using vob_okD(4) [OF ok(1)] vob_okD(4) [OF ok(2)] ok(3) by simp
  then show ?thesis using zip_blocks_vob [OF ok, of f p, OF f] by (simp add: zip_blocks_spec)
qed

lemma vob_bitwise_spec:
  fixes v w :: "'b::len word vob"
  assumes "vob_ok v" "vob_ok w" "vob_len v = vob_len w"
  shows "\<exists>v'. vob_and w v = Some (v', map2 (\<and>) (bits v) (bits w) \<noteq> bits v) \<and> vob_ok v' \<and> bits v' = map2 (\<and>) (bits v) (bits w)"
    "\<exists>v'. vob_or w v = Some (v', map2 (\<or>) (bits v) (bits w) \<noteq> bits v) \<and> vob_ok v' \<and> bits v' = map2 (\<or>) (bits v) (bits w)"
    "\<exists>v'. vob_xor w v = Some (v', map2 (\<noteq>) (bits v) (bits w) \<noteq> bits v) \<and> vob_ok v' \<and> bits v' = map2 (\<noteq>) (bits v) (bits w)"
  using zip_blocks_apply [OF assms, of "(AND)" "(\<and>)"] zip_blocks_apply [OF assms, of "(OR)" "(\<or>)"]
    zip_blocks_apply [OF assms, of "(XOR)" "(\<noteq>)"] assms(3) bit_imp_le_length
  by (auto simp: vob_and_def vob_or_def vob_xor_def bit_and_iff bit_or_iff bit_xor_iff)

lemma vob_apply_panics:
  "vob_ok v \<Longrightarrow> op_ok op \<Longrightarrow> list_apply op (bits v) = None \<Longrightarrow> vob_apply op v = None" for v :: "'b::len word vob"
proof (cases op)
  case (Extend_Slice bs)
  have "vob_ok u \<Longrightarrow> \<not> vob_len u + length cs < 2 ^ 64 \<Longrightarrow> vob_extend_from_slice cs u = None"
    for cs and u :: "'b word vob"
  proof (induction cs arbitrary: u)
    case Nil
    then show ?case using vob_okD(3) [of u] by simp
  next
    case (Cons c cs)
    show ?case
    proof (cases "vob_len u + 1 < 2 ^ 64")
      case True
      then obtain u' where u': "vob_push c u = Some u'" "vob_ok u'" "bits u' = bits u @ [c]"
        using vob_push_spec [OF Cons.prems(1), of c] by blast
      then have "vob_len u' = vob_len u + 1" by (metis length_append_singleton length_bits Suc_eq_plus1)
      then show ?thesis using Cons u' by simp
    qed (simp add: vob_push_def checked_add_def)
  qed
  then show "vob_ok v \<Longrightarrow> op_ok op \<Longrightarrow> list_apply op (bits v) = None \<Longrightarrow> vob_apply op v = None"
    using Extend_Slice by (simp add: grow_def split: if_splits)
next
  case (Extend_Vob w)
  moreover have "usize_sub (vob_len w) 0 = vob_len w" if "vob_ok w"
    using usize_sub_le [of 0 "vob_len w"] vob_okD(3) [OF that] by simp
  ultimately show "vob_ok v \<Longrightarrow> op_ok op \<Longrightarrow> list_apply op (bits v) = None \<Longrightarrow> vob_apply op v = None"
    by (auto simp: grow_def vob_extend_from_vob_def vob_extend_blocks_def checked_add_def Let_def split: if_splits bind_splits)
qed (auto simp: grow_def combine_def vob_set_panics vob_push_def checked_add_def vob_and_def vob_or_def vob_xor_def
      split: if_splits)

lemma vob_apply_refines:
  fixes v :: "'b::len word vob"
  assumes "vob_ok v" "op_ok op" "list_apply op (bits v) = Some (xs, out)"
  shows "\<exists>v'. vob_apply op v = Some (v', out) \<and> vob_ok v' \<and> bits v' = xs"
proof (cases op)
  case (Push b)
  then show ?thesis using assms vob_push_spec [of v b] by (auto simp: grow_def split: if_splits)
next
  case Pop
  then show ?thesis using assms vob_pop_spec [of v] by auto
next
  case (Set i b)
  then show ?thesis using assms vob_set_spec [of v i b] by (auto split: if_splits)
next
  case (Truncate n)
  then show ?thesis using assms vob_truncate_spec [of v n] by auto
next
  case (Extend_Slice bs)
  then show ?thesis using assms vob_extend_from_slice_spec [of v bs] by (auto simp: grow_def split: if_splits)
next
  case (Extend_Vob w)
  then show ?thesis using assms vob_extend_from_vob_spec [of v w] by (auto simp: grow_def split: if_splits)
next
  case Clear
  then show ?thesis using assms vob_okD(1) [OF assms(1)] by (auto simp: vob_clear_def vob_ok_def bits_def blocks_required_def)
next
  case (Set_All b)
  then show ?thesis using assms vob_set_all_spec [of v b] by auto
next
  case Negate
  then show ?thesis using assms vob_negate_spec [of v] by auto
qed (use assms vob_bitwise_spec [of v] in \<open>auto simp: combine_def split: if_splits\<close>)

interpretation vr: functional_refinement vob_ok bits op_ok vob_apply list_apply
proof
  fix v :: "'b::len word vob" and op :: "'b word vob_op"
  assume ok: "vob_ok v" "op_ok op"
  show "map_option (map_prod bits id) (vob_apply op v) = list_apply op (bits v)"
    using vob_apply_panics [OF ok] vob_apply_refines [OF ok] by (cases "list_apply op (bits v)") auto
  fix v' out assume "vob_apply op v = Some (v', out)"
  then show "vob_ok v'"
    using vob_apply_panics [OF ok] vob_apply_refines [OF ok] by (cases "list_apply op (bits v)") auto
qed

subsection \<open>Properties\<close>

text \<open>C2. Vectors of bits refine lists of Booleans. For every sequence of calls of \<open>push\<close>, \<open>pop\<close>, \<open>set\<close>,
  \<open>truncate\<close>, \<open>extend_from_slice\<close>, \<open>extend_from_vob\<close>, \<open>clear\<close>, \<open>set_all\<close>, \<open>negate\<close>, \<open>and\<close>, \<open>or\<close> and \<open>xor\<close> on a
  well-formed vector (any width of the blocks, other operands well-formed), the values returned
  and the bits at the end are those of the same calls on the list of its bits, the calls panic
  exactly when the ones on the list do (an index out of range, operands of different
  lengths, a length beyond \<open>usize::MAX\<close>), and the vector stays well-formed: as many blocks as
  needed, and no bit set behind its length.\<close>

theorem vob_refines_list:
  assumes "vob_ok v" "list_all op_ok ops"
  shows "map_option (map_prod bits id) (run vob_apply ops v) = run list_apply ops (bits v) \<and>
    (\<forall>v' outs. run vob_apply ops v = Some (v', outs) \<longrightarrow> vob_ok v')"
  using vr.run_refines [OF assms] vr.run_inv [OF assms] by auto

theorem vob_refines_list_witness:
  "map_option (map_prod bits id)
      (run vob_apply [Push True, Push False, Extend_Slice [True, True], Negate, Pop, Set 0 True] (vob_new_with_storage_type 0 :: u8 vob)) =
    Some ([True, True, False], [None, None, None, None, Some False, Some True])"
proof -
  let ?ops = "[Push True, Push False, Extend_Slice [True, True], Negate, Pop, Set 0 True] :: u8 vob_op list"
  have "vob_ok (vob_new_with_storage_type 0 :: u8 vob)" by (rule vob_new_ok) simp
  then have "map_option (map_prod bits id) (run vob_apply ?ops (vob_new_with_storage_type 0)) =
    run list_apply ?ops (bits (vob_new_with_storage_type 0 :: u8 vob))"
    by (rule vob_refines_list [THEN conjunct1]) simp
  also have "\<dots> = Some ([True, True, False], [None, None, None, None, Some False, Some True])"
    by (simp add: vob_new_ok grow_def)
  finally show ?thesis .
qed

text \<open>The positions a range speaks of.\<close>

fun in_range :: "bound \<Rightarrow> bound \<Rightarrow> nat \<Rightarrow> bool" where
  "in_range lo hi j \<longleftrightarrow>
    (case lo of Included t \<Rightarrow> t \<le> j | Excluded t \<Rightarrow> t < j | Unbounded \<Rightarrow> True) \<and>
    (case hi of Included t \<Rightarrow> j \<le> t | Excluded t \<Rightarrow> j < t | Unbounded \<Rightarrow> True)"

lemma filter_upt_interval: "filter (\<lambda>j. a \<le> j \<and> j < b) [0..<n] = [min a n..<min b n]"
  by (rule sorted_distinct_set_unique) (auto simp: sorted_wrt_filter)

lemma process_range_positions:
  assumes "process_range lo hi v = (start, stop)" "\<And>t. lo = Excluded t \<or> hi = Included t \<Longrightarrow> t < 2 ^ 64 - 1"
  shows "[start..<stop] = filter (in_range lo hi) [0..<vob_len v]"
proof -
  define a where "a = (case lo of Included t \<Rightarrow> t | Excluded t \<Rightarrow> t + 1 | Unbounded \<Rightarrow> 0)"
  define b where "b = (case hi of Included t \<Rightarrow> t + 1 | Excluded t \<Rightarrow> t | Unbounded \<Rightarrow> vob_len v)"
  have "start = min a (vob_len v)" "stop = min b (vob_len v)"
    using assms by (auto simp: process_range_def Let_def a_def b_def split: bound.splits)
  moreover have "filter (in_range lo hi) [0..<vob_len v] = filter (\<lambda>j. a \<le> j \<and> j < b) [0..<vob_len v]"
    by (rule filter_cong) (auto simp: a_def b_def split: bound.splits)
  ultimately show ?thesis by (simp add: filter_upt_interval)
qed

text \<open>C30. On a well-formed vector the iterators over set and unset bits, which skip whole blocks, terminate without a panic
  and yield exactly the positions of the range at which the bit is set (unset), in
  increasing order, also when the range lies partly or wholly behind the end. The range that \<open>process_range\<close>
  makes of the bounds has exactly the positions of the vector within them, unless a bound that is increased by one is
  the largest \<open>usize\<close>.\<close>

theorem iter_bits_correct:
  assumes "vob_ok v" "process_range lo hi v = (start, stop)"
  shows "iter_set_bits lo hi v = Some (filter (\<lambda>j. bits v ! j) [start..<stop]) \<and>
    iter_unset_bits lo hi v = Some (filter (\<lambda>j. \<not> bits v ! j) [start..<stop]) \<and> stop \<le> vob_len v \<and>
    ((\<forall>t. lo = Excluded t \<or> hi = Included t \<longrightarrow> t < 2 ^ 64 - 1) \<longrightarrow>
      [start..<stop] = filter (in_range lo hi) [0..<vob_len v])"
  using iter_bits_spec [OF assms] process_range_bounds [OF assms(2)] process_range_positions [OF assms(2)] by blast

theorem iter_bits_correct_witness:
  "iter_unset_bits (Included 1) Unbounded (\<lparr>vob_len = 11, vob_vec = [0xF5, 0x06]\<rparr> :: u8 vob) = Some [1, 3, 8]"
proof -
  let ?v = "\<lparr>vob_len = 11, vob_vec = [0xF5, 0x06]\<rparr> :: u8 vob"
  have "vob_ok ?v"
  proof -
    have "\<not> bit (6 :: u8) (i mod 8)" "i div 8 = 1" if "11 \<le> i" "i < 16" for i :: nat
    proof -
      have "i = 11 \<or> i = 12 \<or> i = 13 \<or> i = 14 \<or> i = 15" using that by linarith
      then show "\<not> bit (6 :: u8) (i mod 8)" "i div 8 = 1" by auto
    qed
    then show ?thesis by (auto simp: vob_ok_def blocks_required_def bits_per_block_def bytes_per_block_def gbit_def)
  qed
  moreover have "process_range (Included 1) Unbounded ?v = (1, 11)" by (simp add: process_range_def)
  ultimately have "iter_unset_bits (Included 1) Unbounded ?v = Some (filter (\<lambda>j. \<not> bits ?v ! j) [1..<11])"
    using iter_bits_correct by blast
  then show ?thesis by (simp add: upt_rec gbit_def)
qed

text \<open>C31. Splitting and appending are inverse: for every well-formed vector and every position,
  \<open>split_off\<close> returns the bits before and from the position on, and \<open>extend_from_vob\<close> of the two
  parts gives a vector equal to the original one.\<close>

theorem split_extend_roundtrip:
  assumes "vob_ok v"
  shows "\<exists>v1 v2 v3. vob_split_off at v = Some (v1, v2) \<and> bits v1 = take at (bits v) \<and> bits v2 = drop at (bits v) \<and>
    vob_extend_from_vob v2 v1 = Some v3 \<and> vob_eq v3 v"
proof -
  obtain v1 v2 where s: "vob_split_off at v = Some (v1, v2)" "vob_ok v1" "vob_ok v2"
    "bits v1 = take at (bits v)" "bits v2 = drop at (bits v)" using vob_split_off_spec [OF assms] by blast
  then have "vob_len v1 + vob_len v2 = vob_len v"
    by (metis append_take_drop_id length_append length_bits)
  then obtain v3 where e: "vob_extend_from_vob v2 v1 = Some v3" "vob_ok v3" "bits v3 = bits v1 @ bits v2"
    using vob_extend_from_vob_spec [OF s(2,3)] vob_okD(3) [OF assms] by auto
  then have "vob_eq v3 v" using s(4,5) assms by (simp add: vob_eq_spec)
  then show ?thesis using s(1,4,5) e(1) by blast
qed

theorem split_extend_roundtrip_witness:
  "\<exists>v :: u8 vob. vob_from_elem_with_storage_type True 13 = Some v \<and>
    (\<exists>v1 v2 v3. vob_split_off 6 v = Some (v1, v2) \<and> bits v1 = replicate 6 True \<and> bits v2 = replicate 7 True \<and>
      vob_extend_from_vob v2 v1 = Some v3 \<and> vob_eq v3 v)"
proof -
  obtain v :: "u8 vob" where v: "vob_from_elem_with_storage_type True 13 = Some v" "vob_ok v" "bits v = replicate 13 True"
    using vob_from_elem_spec [where 'b = 8, of 13 True] by auto
  then show ?thesis using split_extend_roundtrip [OF v(2), of 6] by (auto simp: take_replicate drop_replicate)
qed

text \<open>C32. \<open>resize\<close> to a longer length appends copies of the value, except that it panics
  when the value is true and the vector is not empty but has no room left in its last block: the index
  of the block to complete is then the number of blocks.\<close>

theorem resize_correct_or_panics:
  fixes v :: "'b::len word vob"
  assumes "vob_ok v" "vob_len v < n" "n < 2 ^ 64"
  shows "if b \<and> 0 < vob_len v \<and> vob_len v mod LENGTH('b) = 0 then vob_resize n b v = None
    else \<exists>v'. vob_resize n b v = Some v' \<and> vob_ok v' \<and> bits v' = bits v @ replicate (n - vob_len v) b"
  using vob_resize_panics [OF assms(1), of b n] vob_resize_spec [OF assms(1,3), of b] assms(2) by auto

theorem resize_correct_or_panics_witness:
  "\<exists>v :: u8 vob. vob_from_elem_with_storage_type False 8 = Some v \<and> vob_resize 9 True v = None"
proof -
  obtain v :: "u8 vob" where v: "vob_from_elem_with_storage_type False 8 = Some v" "vob_ok v" "bits v = replicate 8 False"
    using vob_from_elem_spec [where 'b = 8, of 8 False] by auto
  then have "vob_len v = 8" by (metis length_bits length_replicate)
  then show ?thesis using resize_correct_or_panics [OF v(2), of 9 True] v(1) by auto
qed

end
