(* ===== verification/Bitmap.thy ===== *)
theory Bitmap
  imports Vob_Ops Bytes Crc
begin

text \<open>
  The bitmaps of the block groups of the ext4 file system, \<open>src/fs/ext4/bitmap.rs\<close>: which
  blocks and which inodes of a group are in use. A bitmap is a vector of bits; the
  identifier of a block (64 bits) or the number of an inode (32 bits) is the position of its
  bit. The checksum is computed on the bytes of the bitmap, which are recovered from the storage
  blocks.
\<close>

subsection \<open>The code\<close>

type_synonym fs_uuid = "128 word"

text \<open>\<open>take(n)\<close> and \<open>collect\<close> on an iterator: it is asked at most \<open>n\<close> times.\<close>

fun iter_take :: "('r \<Rightarrow> ('r \<times> nat option) option) \<Rightarrow> nat \<Rightarrow> 'r \<Rightarrow> nat list option" where
  "iter_take step 0 rg = Some []"
| "iter_take step (Suc n) rg = do {
     (rg, r) \<leftarrow> step rg;
     (case r of None \<Rightarrow> Some [] | Some i \<Rightarrow> do { is \<leftarrow> iter_take step n rg; Some (i # is) })
   }"

definition block_bitmap_chksum :: "u16 \<Rightarrow> u16 \<Rightarrow> u32" where
  "block_bitmap_chksum lo hi = ucast lo OR push_bit 16 (ucast hi)"

definition inode_bitmap_chksum :: "u16 \<Rightarrow> u16 \<Rightarrow> u32" where
  "inode_bitmap_chksum lo hi = ucast lo OR push_bit 16 (ucast hi)"

text \<open>The bytes of the storage blocks, each with its bits reversed.\<close>

definition storage_bytes :: "u64 vob \<Rightarrow> u8 list" where
  "storage_bytes bm = concat (map (\<lambda>w. map reverse_byte (to_le 8 w)) (vob_vec bm))"

definition block_bitmap_validate_chksum :: "fs_uuid \<Rightarrow> u32 \<Rightarrow> u64 vob \<Rightarrow> bool" where
  "block_bitmap_validate_chksum uuid on_disk_chksum bm =
    (let chksum_bytes = to_le 16 uuid @ storage_bytes bm;
         real_chksum_bytes_len = 16 + vob_len bm div 8
     in crc32c_calc (take real_chksum_bytes_len chksum_bytes) = on_disk_chksum)"

definition block_bitmap_from_bytes :: "u8 list \<Rightarrow> u64 vob option" where
  "block_bitmap_from_bytes bitmap = vob_from_bytes bitmap"

definition blk_in_use :: "u64 vob \<Rightarrow> u64 \<Rightarrow> bool option" where
  "blk_in_use bm blk = do { r \<leftarrow> vob_get bm (unat blk); Some (case r of None \<Rightarrow> False | Some b \<Rightarrow> b) }"

definition set_blk_in_use :: "u64 \<Rightarrow> u64 vob \<Rightarrow> (u64 vob \<times> bool) option" where
  "set_blk_in_use blk bm = vob_set (unat blk) True bm"


definition available_blks_in_range :: "u64 \<Rightarrow> u64 \<Rightarrow> u64 vob \<Rightarrow> u64 list option" where
  "available_blks_in_range start stop bm =
    map_option (map word_of_nat) (iter_unset_bits (Included (unat start)) (Excluded (unat stop)) bm)"


definition mark_blk_range_used :: "u64 \<Rightarrow> u64 \<Rightarrow> u64 vob \<Rightarrow> u64 vob option" where
  "mark_blk_range_used start stop bm = set_bit_range (Included (unat start)) (Excluded (unat stop)) bm"

definition free_blk_range :: "u64 \<Rightarrow> u64 \<Rightarrow> u64 vob \<Rightarrow> u64 vob option" where
  "free_blk_range start stop bm = clear_bit_range (Included (unat start)) (Excluded (unat stop)) bm"


text \<open>The conversions \<open>try_into().expect(..)\<close> to 32 bits.\<close>

definition u32_try_from :: "nat \<Rightarrow> u32 option" where
  "u32_try_from n = (if n < 2 ^ 32 then Some (word_of_nat n) else None)"


text \<open>The bitmap of the inodes.\<close>

definition inode_bitmap_validate_chksum :: "fs_uuid \<Rightarrow> u32 \<Rightarrow> u64 vob \<Rightarrow> bool" where
  "inode_bitmap_validate_chksum uuid on_disk_chksum bm =
    (let chksum_bytes = to_le 16 uuid @ storage_bytes bm;
         real_chksum_bytes_len = 16 + vob_len bm div 8
     in crc32c_calc (take real_chksum_bytes_len chksum_bytes) = on_disk_chksum)"

definition inode_bitmap_from_bytes :: "u8 list \<Rightarrow> u64 vob option" where
  "inode_bitmap_from_bytes bitmap = vob_from_bytes bitmap"

definition inode_in_use :: "u64 vob \<Rightarrow> u32 \<Rightarrow> bool option" where
  "inode_in_use bm inode = do { r \<leftarrow> vob_get bm (unat inode); Some (case r of None \<Rightarrow> False | Some b \<Rightarrow> b) }"

definition set_inode_in_use :: "u32 \<Rightarrow> u64 vob \<Rightarrow> (u64 vob \<times> bool) option" where
  "set_inode_in_use inode bm = vob_set (unat inode) True bm"


definition available_inodes_in_range :: "u32 \<Rightarrow> u32 \<Rightarrow> u64 vob \<Rightarrow> u32 list option" where
  "available_inodes_in_range start stop bm = do {
     is \<leftarrow> iter_unset_bits (Included (unat start)) (Excluded (unat stop)) bm;
     those (map u32_try_from is)
   }"

definition get_some_available_inodes :: "u32 \<Rightarrow> u64 vob \<Rightarrow> u32 list option" where
  "get_some_available_inodes count bm = do {
     is \<leftarrow> iter_take (iter_unset_bits_next bm) (unat count) (process_range Unbounded Unbounded bm);
     those (map u32_try_from is)
   }"

definition mark_inode_range_used :: "u32 \<Rightarrow> u32 \<Rightarrow> u64 vob \<Rightarrow> u64 vob option" where
  "mark_inode_range_used start stop bm = set_bit_range (Included (unat start)) (Excluded (unat stop)) bm"

definition free_inode_range :: "u32 \<Rightarrow> u32 \<Rightarrow> u64 vob \<Rightarrow> u64 vob option" where
  "free_inode_range start stop bm = clear_bit_range (Included (unat start)) (Excluded (unat stop)) bm"


definition inode_count_free :: "u64 vob \<Rightarrow> u32 option" where
  "inode_count_free bm = do { is \<leftarrow> iter_unset_bits Unbounded Unbounded bm; u32_try_from (length is) }"

subsection \<open>The bytes of a bitmap\<close>

lemma nth_concat_chunks:
  "(\<And>x. x \<in> set xs \<Longrightarrow> length (f x) = n) \<Longrightarrow> 0 < n \<Longrightarrow> j < n * length xs \<Longrightarrow>
    concat (map f xs) ! j = f (xs ! (j div n)) ! (j mod n)"
proof (induction xs arbitrary: j)
  case (Cons x xs)
  show ?case
  proof (cases "j < n")
    case False
    then have "concat (map f (x # xs)) ! j = concat (map f xs) ! (j - n)"
      using Cons.prems(1) [of x] by (simp add: nth_append)
    also have "\<dots> = f (xs ! ((j - n) div n)) ! ((j - n) mod n)"
      using Cons.prems False by (intro Cons.IH) auto
    finally show ?thesis using False Cons.prems(2) by (simp add: le_div_geq le_mod_geq not_less)
  qed (use Cons.prems in \<open>simp add: nth_append\<close>)
qed simp

lemma length_storage_bytes: "length (storage_bytes bm) = 8 * length (vob_vec bm)"
  by (simp add: storage_bytes_def length_concat comp_def sum_list_triv)

lemma byte_pos:
  assumes "k < 8"
  shows "(8 * j + k) div 64 = j div (8::nat)" "(8 * j + k) mod 64 = 8 * (j mod 8) + k"
proof -
  have "8 * j + k = j div 8 * 64 + (8 * (j mod 8) + k)" "8 * (j mod 8) + k < 64"
    using assms div_mult_mod_eq [of j 8] by (linarith, simp)
  then show "(8 * j + k) div 64 = j div 8" "(8 * j + k) mod 64 = 8 * (j mod 8) + k"
    by (simp_all only: div_mult_self3 mod_mult_self3 div_less mod_less)
qed

lemma bit_storage_bytes:
  assumes "j < 8 * length (vob_vec bm)" "k < 8"
  shows "bit (storage_bytes bm ! j) k = gbit (vob_vec bm) (8 * j + (7 - k))"
proof -
  have "storage_bytes bm ! j = map reverse_byte (to_le 8 (vob_vec bm ! (j div 8))) ! (j mod 8)"
    unfolding storage_bytes_def using assms(1) by (intro nth_concat_chunks) auto
  moreover have "7 - k < 8" by linarith
  ultimately show ?thesis
    using assms(2) byte_pos [of "7 - k" j] by (simp add: gbit_def bit_reverse_byte bit_to_le)
qed

text \<open>The bytes the checksum is computed on are those the bitmap was made from.\<close>

lemma storage_bytes_from:
  assumes ok: "vob_ok bm" and len: "vob_len bm = length bs * 8"
    and b: "\<And>i. i < length bs * 8 \<Longrightarrow> bits bm ! i = bit (bs ! (i div 8)) (7 - i mod 8)"
  shows "take (16 + vob_len bm div 8) (to_le 16 uuid @ storage_bytes bm) = to_le 16 uuid @ bs"
proof -
  have le: "length bs \<le> 8 * length (vob_vec bm)"
    using blocks_cover [OF vob_okD(1) [OF ok], of "vob_len bm"] vob_okD(4) [OF ok] len by simp
  have "take (length bs) (storage_bytes bm) = bs"
  proof (rule nth_equalityI)
    fix j assume "j < length (take (length bs) (storage_bytes bm))"
    then have j: "j < length bs" by simp
    show "take (length bs) (storage_bytes bm) ! j = bs ! j"
    proof (rule word_bits_eqI)
      fix k assume "k < LENGTH(8)"
      then have k: "k < 8" by simp
      have i: "8 * j + (7 - k) < length bs * 8" "(8 * j + (7 - k)) div 8 = j" "7 - (8 * j + (7 - k)) mod 8 = k"
      proof -
        have lt: "7 - k < 8" by linarith
        show "8 * j + (7 - k) < length bs * 8" using j by linarith
        show "(8 * j + (7 - k)) div 8 = j" using lt by (simp only: div_mult_self4 div_less)
        show "7 - (8 * j + (7 - k)) mod 8 = k" using lt k by (simp only: mod_mult_self4 mod_less)
      qed
      show "bit (take (length bs) (storage_bytes bm) ! j) k = bit (bs ! j) k"
        using b [OF i(1)] i j k le bit_storage_bytes [of j bm k] len by simp
    qed
  qed (simp add: length_storage_bytes le)
  then show ?thesis by (simp add: len)
qed

lemma bitmap_from_bytes_spec:
  assumes "length bs * 8 < 2 ^ 64"
  obtains bm where "vob_from_bytes bs = Some bm" "vob_ok bm" "vob_len bm = length bs * 8"
    "\<And>i. i < length bs * 8 \<Longrightarrow> bits bm ! i = bit (bs ! (i div 8)) (7 - i mod 8)"
    "\<And>uuid :: fs_uuid. take (16 + vob_len bm div 8) (to_le 16 uuid @ storage_bytes bm) = to_le 16 uuid @ bs"
  using vob_from_bytes_spec [OF assms] storage_bytes_from by metis

lemma in_use_spec:
  assumes "vob_ok bm"
  shows "blk_in_use bm blk = Some (unat blk < vob_len bm \<and> bits bm ! unat blk)"
    "inode_in_use bm ino = Some (unat ino < vob_len bm \<and> bits bm ! unat ino)"
  using vob_get_spec [OF assms] by (simp_all add: blk_in_use_def inode_in_use_def)

subsection \<open>Setting and clearing several bits\<close>






context bit_search
begin

lemma takes:
  assumes "inv v" "stop \<le> limit v"
  shows "iter_take (step v) n (i, stop) = Some (take n (filter (hit v) [i..<stop]))"
proof (induction n arbitrary: i)
  case (Suc n)
  show ?case
  proof (cases "i < stop")
    case False
    then show ?thesis by (simp add: step_none)
  next
    case True
    obtain start r where r: "step v (i, stop) = Some ((start, stop), r)"
      "case r of None \<Rightarrow> \<forall>j. i \<le> j \<longrightarrow> j < stop \<longrightarrow> \<not> hit v j
       | Some k \<Rightarrow> i \<le> k \<and> k < stop \<and> hit v k \<and> (\<forall>j. i \<le> j \<longrightarrow> j < k \<longrightarrow> \<not> hit v j) \<and> start = k + 1"
      using step_some [OF assms(1) True assms(2)] by blast
    show ?thesis
    proof (cases r)
      case None
      then show ?thesis using r by (simp add: filter_empty_conv)
    next
      case (Some k)
      then show ?thesis using r Suc.IH filter_first [of i k stop "hit v"] by simp
    qed
  qed
qed simp

end

subsection \<open>Free blocks\<close>








subsection \<open>Properties\<close>




text \<open>C34. A bitmap read from disk keeps its bytes: for every byte sequence with less than \<open>2 ^ 64\<close> bits, \<open>from_bytes\<close> gives a well-formed bitmap
  in which block (inode) \<open>n\<close> is in use exactly if bit \<open>7 - n mod 8\<close> of byte \<open>n div 8\<close> is set (the most significant
  bit of a byte comes first, and what lies outside is not in use), and \<open>validate_chksum\<close> accepts it
  exactly if the stored checksum is the CRC-32C of the identifier of the file system followed by these bytes, whatever
  padding the storage blocks add.\<close>

theorem bitmap_bytes_roundtrip:
  assumes "length bs * 8 < 2 ^ 64"
  shows "\<exists>bm. block_bitmap_from_bytes bs = Some bm \<and> inode_bitmap_from_bytes bs = Some bm \<and> vob_ok bm \<and>
    (\<forall>uuid c. block_bitmap_validate_chksum uuid c bm = (crc32c_calc (to_le 16 uuid @ bs) = c)) \<and>
    (\<forall>uuid c. inode_bitmap_validate_chksum uuid c bm = (crc32c_calc (to_le 16 uuid @ bs) = c)) \<and>
    (\<forall>n. blk_in_use bm n = Some (unat n < length bs * 8 \<and> bit (bs ! (unat n div 8)) (7 - unat n mod 8))) \<and>
    (\<forall>n. inode_in_use bm n = Some (unat n < length bs * 8 \<and> bit (bs ! (unat n div 8)) (7 - unat n mod 8)))"
proof -
  obtain bm where bm: "vob_from_bytes bs = Some bm" "vob_ok bm" "vob_len bm = length bs * 8"
    "\<And>i. i < length bs * 8 \<Longrightarrow> bits bm ! i = bit (bs ! (i div 8)) (7 - i mod 8)"
    "\<And>uuid :: fs_uuid. take (16 + vob_len bm div 8) (to_le 16 uuid @ storage_bytes bm) = to_le 16 uuid @ bs"
    using bitmap_from_bytes_spec [OF assms] by metis
  have "block_bitmap_validate_chksum uuid c bm = (crc32c_calc (to_le 16 uuid @ bs) = c)"
    "inode_bitmap_validate_chksum uuid c bm = (crc32c_calc (to_le 16 uuid @ bs) = c)" for uuid c
    unfolding block_bitmap_validate_chksum_def inode_bitmap_validate_chksum_def Let_def bm(5) by simp_all
  moreover have "blk_in_use bm n = Some (unat n < length bs * 8 \<and> bit (bs ! (unat n div 8)) (7 - unat n mod 8))"
    "inode_in_use bm k = Some (unat k < length bs * 8 \<and> bit (bs ! (unat k div 8)) (7 - unat k mod 8))" for n k
    unfolding in_use_spec [OF bm(2)] bm(3) using bm(4) by auto
  ultimately show ?thesis
    using bm(1,2) by (simp add: block_bitmap_from_bytes_def inode_bitmap_from_bytes_def)
qed

theorem bitmap_bytes_roundtrip_witness:
  "\<exists>bm. block_bitmap_from_bytes [0x80, 0x01] = Some bm \<and> blk_in_use bm 0 = Some True \<and> blk_in_use bm 7 = Some False \<and>
    blk_in_use bm 15 = Some True \<and> block_bitmap_validate_chksum 5 (crc32c_calc (to_le 16 (5 :: fs_uuid) @ [0x80, 0x01])) bm"
  using bitmap_bytes_roundtrip [of "[0x80, 0x01]"] by force

text \<open>C35. Non-empty ranges inside a well-formed bitmap of less than \<open>2 ^ 60\<close> blocks that start at a storage block: if the start is a multiple of 64, \<open>free_blk_range\<close> frees exactly the
  blocks of the range, and \<open>mark_blk_range_used\<close> marks exactly these, except when the range has at least 128 blocks and ends with
  the bitmap at a multiple of 64, where it panics.\<close>

theorem blk_range_aligned:
  assumes ok: "vob_ok bm" and small: "vob_len bm < 2 ^ 60" and a: "64 dvd unat start" "start < stop" "unat stop \<le> vob_len bm"
  shows "(\<exists>bm'. free_blk_range start stop bm = Some bm' \<and> vob_ok bm' \<and>
      bits bm' = write_range (unat start) (unat stop) False (bits bm)) \<and>
    (if 128 \<le> unat stop - unat start \<and> 64 dvd unat stop \<and> unat stop = vob_len bm
     then mark_blk_range_used start stop bm = None
     else \<exists>bm'. mark_blk_range_used start stop bm = Some bm' \<and> vob_ok bm' \<and>
       bits bm' = write_range (unat start) (unat stop) True (bits bm))"
proof -
  have lt: "unat start < unat stop" using a(2) by (simp add: word_less_nat_alt)
  have rg: "process_range (Included (unat start)) (Excluded (unat stop)) bm = (unat start, unat stop)"
    using a(3) lt by (simp add: process_range_def)
  show ?thesis
    unfolding free_blk_range_def mark_blk_range_used_def
    using clear_bit_range_spec [OF ok rg lt] set_bit_range_spec [OF ok rg lt a(1) small]
      set_bit_range_panics [OF ok rg lt a(1) small] a(1,3) by auto
qed

theorem blk_range_aligned_witness:
  "\<exists>bm. block_bitmap_from_bytes (replicate 16 0) = Some bm \<and> mark_blk_range_used 0 128 bm = None"
proof -
  obtain bm where bm: "vob_from_bytes (replicate 16 0) = Some bm" "vob_ok bm" "vob_len bm = length (replicate 16 (0 :: u8)) * 8"
    using vob_from_bytes_spec [of "replicate 16 0"] by auto
  then show ?thesis using blk_range_aligned [OF bm(2), of 0 128] by (simp add: block_bitmap_from_bytes_def)
qed

text \<open>C36. A non-empty range of a well-formed bitmap that lies inside one storage block, ends before the last bit of it, and is not longer than its offset in the block is ignored: marking it as used
  leaves the bitmap as it is, so that its blocks stay free and can be handed out again.\<close>

theorem mark_blk_range_lost:
  assumes ok: "vob_ok bm" and r: "start < stop" "unat stop \<le> vob_len bm"
    and inside: "unat start mod 64 + (unat stop - unat start) < 64" "unat stop - unat start \<le> unat start mod 64"
  shows "mark_blk_range_used start stop bm = Some bm"
proof -
  have lt: "unat start < unat stop" using r(1) by (simp add: word_less_nat_alt)
  then have "process_range (Included (unat start)) (Excluded (unat stop)) bm = (unat start, unat stop)" "unat start < vob_len bm"
    using r(2) by (simp_all add: process_range_def)
  then show ?thesis
    unfolding mark_blk_range_used_def using set_bit_range_noop [OF ok] lt inside by simp
qed

theorem mark_blk_range_lost_witness:
  "\<exists>bm. block_bitmap_from_bytes (replicate 8 0) = Some bm \<and> mark_blk_range_used 32 40 bm = Some bm"
proof -
  obtain bm where bm: "vob_from_bytes (replicate 8 0) = Some bm" "vob_ok bm" "vob_len bm = length (replicate 8 (0 :: u8)) * 8"
    using vob_from_bytes_spec [of "replicate 8 0"] by auto
  then show ?thesis using mark_blk_range_lost [OF bm(2), of 32 40] by (simp add: block_bitmap_from_bytes_def)
qed

end
