(* ===== verification/Spec2Isabelle.thy ===== *)
theory Spec2Isabelle
  imports Addr Rb_Fit Partitions Datetime Boot_Heap Frame_Alloc Bitmap
begin

text \<open>
  Verification of the FrozenBoot bootloader and kernel.

  The program is a 32-bit bootloader (\<open>src/fzboot/main\<close>) and a 64-bit kernel
  (\<open>src/fzboot/kernel\<close>) that share one library. The bootloader asks the firmware
  for the memory map, makes a heap of it, finds the partitions of the disks and
  starts the kernel; the kernel manages physical frames, page tables and its own
  heap, and reads an ext4 file system. The theories follow these parts; file
  names are relative to the root of the repository.

  \<^item> \<open>Prelude\<close>: machine words, shifts as the processor does them, and what several
    components need. \<open>Bytes\<close>: little-endian images of packed structures.

  \<^item> \<open>Addr\<close> (\<open>src/mem/mod.rs\<close>, \<open>src/mem/utils.rs\<close> and the rounding helpers of
    \<open>src/x86/paging/page_table/mapper.rs\<close>): the types of addresses, canonical form,
    alignment and bit slices.

  \<^item> \<open>Alloc_Header\<close> (\<open>src/mem/vmalloc/kheap.rs\<close>) and \<open>Rb_Tree\<close>, \<open>Rb_Rep\<close>, \<open>Rb_Insert\<close>,
    \<open>Rb_Remove\<close>, \<open>Rb_Fit\<close> (\<open>src/mem/vmalloc/rbtree.rs\<close>): the header of a block of the
    kernel heap and the intrusive red-black tree of free blocks. The tree is a store
    of nodes with pointers to children and parents; a representation predicate
    relates it to an abstract tree. Insertion and removal keep the tree balanced and
    add and remove exactly one block, and the search finds a smallest block that
    is large enough. Every loop follows parent or child pointers and is a
    \<open>partial_function\<close>, so that the statements include termination.

  \<^item> \<open>Crc\<close>, \<open>Mbr\<close>, \<open>Partitions\<close> (\<open>src/fs/partitions\<close>, the CRC-32C of \<open>src/fs/ext4/mod.rs\<close>
    and the loading of partitions in the two disk drivers): the table-driven
    checksums equal the division by the polynomial and detect bursts, tables are
    accepted exactly when they are valid, and the partitions that are loaded are
    those of the GPT, or of the MBR when it has no extended partition; with one, the
    loading often does not end. A disk is a function from sectors to bytes that the
    definitions take as an argument.

  \<^item> \<open>Datetime\<close> (\<open>src/fzboot/time\<close>): the conversion of seconds to a date, compared with the
    Gregorian calendar counted day by day, the text format, and the reading of the real-time clock while it may be updating.

  \<^item> \<open>Buddy_Spec\<close>, \<open>Buddy\<close>, \<open>Boot_Heap\<close>, \<open>Frame_Alloc\<close> (\<open>src/mem/bmalloc/heap.rs\<close>, \<open>src/mem/e820.rs\<close>,
    \<open>heap_init\<close>, \<open>src/x86/paging/page_alloc/frame_alloc.rs\<close>): the two buddy allocators.
    \<open>Buddy_Spec\<close> has the abstract allocator (a pool tiled by blocks, of which some are
    handed out) and the locales \<open>block_source\<close> and \<open>block_allocator\<close> with what clients
    rely on. Free lists are lists in memory, a function from addresses to words;
    the code refines the abstract allocator on pools that are aligned to their size, and
    the blocks of different clients never overlap. The frame allocator reaches memory
    through the linear mapping, an argument of its definitions. The pools that the
    bootloader and the kernel set up at run time are in general not aligned; lemmas on a
    concrete machine show the consequences. The firmware that \<open>memory_map\<close> asks is an argument,
    and the map is filled in a memory of bytes, where the count overlaps its first entry.

  \<^item> \<open>Vob\<close>, \<open>Vob_Spec\<close>, \<open>Vob_Range\<close>, \<open>Vob_Ops\<close> (\<open>src/deps/vob/src/lib.rs\<close>): vectors of bits, for every
    width of the storage blocks. Every sequence of the twelve operations \<open>push\<close>, \<open>pop\<close>, \<open>set\<close>,
    \<open>truncate\<close>, \<open>extend_from_slice\<close>, \<open>extend_from_vob\<close>, \<open>clear\<close>, \<open>set_all\<close>, \<open>negate\<close>, \<open>and\<close>, \<open>or\<close> and \<open>xor\<close>
    behaves as on a list of Booleans (locale \<open>functional_refinement\<close>), and the iterators
    that skip blocks find exactly the positions asked for (locale \<open>bit_search\<close>). \<open>resize\<close>,
    \<open>set_bit_range\<close> and \<open>clear_bit_range\<close> have errors; their exact behaviour is shown where it is right
    and where it is not.

  \<^item> \<open>Bitmap\<close> (\<open>src/fs/ext4/bitmap.rs\<close>): the bitmaps of blocks and inodes of ext4, vectors of bits with
    64-bit storage blocks: reading them from bytes, their checksums, handing out and taking back
    blocks, and marking ranges.

  Conventions. The code is modelled as the release build runs it: arithmetic wraps,
  shifts take their amount modulo the width, \<open>debug_assert\<close> does nothing. \<open>None\<close> is a
  panic, an access outside of memory, or a loop that never ends; functions that
  return an \<open>Option\<close> have two levels of it, and those that return a \<open>Result\<close> a sum.
  \<open>usize\<close> has 32 bits in the bootloader and 64 in the kernel. Nothing is bounded by
  fuel: loops are structural recursions, have a measure, or are partial functions
  whose results are proved to exist.

  Not modelled. Locks, atomics and interrupts between the steps of an operation; the
  page table walk and the mapping of pages; the rest of the kernel heap; superblock,
  inodes, extents and directories of ext4; the scheduler and processes; and the
  drivers, which are sequences of accesses to ports and memory-mapped registers
  (AHCI, IDE, PCI, APIC, ACPI, video, PS/2, PIC). Logging is left out throughout.
\<close>

end
